(* ===== verification/WTE_Prelude.thy ===== *)
theory WTE_Prelude
  imports Main "HOL-Library.Word"
begin

text \<open>
  Shared vocabulary of the development: the machine types of the C++ sources, the faults a
  translated operation can end in, sequencing of fallible steps, the C library's block copy on
  arrays with their extent, and the list and word facts that the component theories use.

  \<^item> \<open>size_t\<close> is a 64-bit word: the supported platforms are 64-bit, and several routines of
    the sources subtract sizes in an order that wraps around.
  \<^item> A heap or stack array of \<open>char\<close> is a list of \<open>byte option\<close>, \<open>None\<close> standing for a byte
    that has been allocated but never written. A pointer into an array is the array and an
    offset, so that an access outside the allocation is visible and ends in a \<open>fault\<close>.
\<close>

type_synonym byte = char
type_synonym size_t = "64 word"
type_synonym 'a array = "'a option list"

text \<open>
  What can stop an operation: an exception of the source, a failed \<open>assert\<close>, or an access
  that the language leaves undefined. \<open>Out_Of_Fuel\<close> is not an outcome of the program: a loop that
  need not end is given a bound on its turns, and ends so when the bound is too small.
\<close>

datatype fault =
    Bad_Alloc
  | Runtime_Error string
  | Logic_Error string
  | Assert_Failed string
  | Write_Overflow
  | Read_Overflow
  | Use_After_Free
  | Null_Dereference
  | Out_Of_Fuel

named_theorems sz_arith \<open>reading arithmetic on sizes as arithmetic on natural numbers\<close>
named_theorems fault_simps \<open>sequencing of fallible steps\<close>

subsection \<open>Sequencing of fallible steps\<close>

definition bindE :: "'e + 'a \<Rightarrow> ('a \<Rightarrow> 'e + 'b) \<Rightarrow> 'e + 'b" where
  "bindE m f = (case m of Inl e \<Rightarrow> Inl e | Inr x \<Rightarrow> f x)"

definition assertE :: "string \<Rightarrow> bool \<Rightarrow> fault + unit" where
  "assertE msg b = (if b then Inr () else Inl (Assert_Failed msg))"

lemma bindE_Inl [simp, fault_simps]: "bindE (Inl e) f = Inl e"
  by (simp add: bindE_def)

lemma bindE_Inr [simp, fault_simps]: "bindE (Inr x) f = f x"
  by (simp add: bindE_def)

lemma bindE_eq_Inr [fault_simps]: "bindE m f = Inr y \<longleftrightarrow> (\<exists>x. m = Inr x \<and> f x = Inr y)"
  by (cases m) simp_all

lemma bindE_assoc: "bindE (bindE m f) g = bindE m (\<lambda>x. bindE (f x) g)"
  by (cases m) simp_all

lemma assertE_True [simp, fault_simps]: "assertE msg True = Inr ()"
  by (simp add: assertE_def)

lemma assertE_False [simp, fault_simps]: "assertE msg False = Inl (Assert_Failed msg)"
  by (simp add: assertE_def)

lemma assertE_eq_Inr [fault_simps]: "assertE msg b = Inr u \<longleftrightarrow> b"
  by (simp add: assertE_def)

subsection \<open>Block copies\<close>

text \<open>
  \<open>memread\<close> is the source side of a \<open>memcpy\<close>: \<open>n\<close> elements from offset \<open>off\<close>.
  \<open>memwrite\<close> is its destination side.
\<close>

definition memread :: "'a list \<Rightarrow> nat \<Rightarrow> nat \<Rightarrow> fault + 'a list" where
  "memread src off n =
     (if off + n \<le> length src then Inr (take n (drop off src)) else Inl Read_Overflow)"

definition memwrite :: "'a list \<Rightarrow> nat \<Rightarrow> 'a list \<Rightarrow> fault + 'a list" where
  "memwrite dst off xs =
     (if off + length xs \<le> length dst
      then Inr (take off dst @ xs @ drop (off + length xs) dst) else Inl Write_Overflow)"

lemma memread_eq_Inr [fault_simps]:
  "memread src off n = Inr xs \<longleftrightarrow> off + n \<le> length src \<and> xs = take n (drop off src)"
  by (auto simp: memread_def)

lemma memwrite_eq_Inr [fault_simps]:
  "memwrite dst off xs = Inr d \<longleftrightarrow>
     off + length xs \<le> length dst \<and> d = take off dst @ xs @ drop (off + length xs) dst"
  by (auto simp: memwrite_def)

lemma length_memwrite: "memwrite dst off xs = Inr d \<Longrightarrow> length d = length dst"
  by (auto simp: memwrite_def split: if_splits)

lemma take_memwrite: "memwrite dst off xs = Inr d \<Longrightarrow> take (off + length xs) d = take off dst @ xs"
  by (auto simp: memwrite_def split: if_splits)

subsection \<open>Sizes\<close>

lemma size_t_le [sz_arith]: "a \<le> b \<longleftrightarrow> unat a \<le> unat b" for a b :: size_t
  by (rule word_le_nat_alt)

lemma size_t_less [sz_arith]: "a < b \<longleftrightarrow> unat a < unat b" for a b :: size_t
  by (rule word_less_nat_alt)

lemma unat_minus_le [sz_arith]: "b \<le> a \<Longrightarrow> unat (a - b) = unat a - unat b" for a b :: size_t
  by (rule unat_sub)

lemma unat_min_size [sz_arith]: "unat (min a b) = min (unat a) (unat b)" for a b :: size_t
  by (simp add: min_def word_le_nat_alt)

lemma unat_size_bound: "unat (a :: size_t) < 2 ^ 64"
  using unsigned_less [of a, where 'a = nat] by simp

lemma unat_plus_size:
  "unat a + unat b < 2 ^ 64 \<Longrightarrow> unat (a + b) = unat a + unat b" for a b :: size_t
  by (simp add: unat_word_ariths)

lemma unat_of_nat_size: "n < 2 ^ 64 \<Longrightarrow> unat (of_nat n :: size_t) = n"
  by (simp add: unat_of_nat)

lemma size_t_eq_iff: "a = b \<longleftrightarrow> unat a = unat b" for a b :: size_t
  by (rule word_unat_eq_iff)

lemma unat_wrapped_minus:
  "b < a \<Longrightarrow> unat (b - a) = 2 ^ 64 - (unat a - unat b)" for a b :: size_t
  using unat_size_bound [of a] by (simp add: unat_sub_if' word_less_nat_alt)

lemma unat_size_max [simp]: "unat (- 1 :: size_t) = 2 ^ 64 - 1"
  by (simp add: unsigned_minus_1_eq_mask mask_eq_exp_minus_1)

lemma set_tl: "x \<in> set (tl xs) \<Longrightarrow> x \<in> set xs"
  by (cases xs) simp_all

subsection \<open>Event-driven components\<close>

text \<open>A sequence of events, each handled in the state that the one before has left.\<close>

fun run_events :: "('e \<Rightarrow> 's \<Rightarrow> fault + 's) \<Rightarrow> 'e list \<Rightarrow> 's \<Rightarrow> fault + 's" where
  "run_events handle [] s = Inr s"
| "run_events handle (e # es) s = bindE (handle e s) (run_events handle es)"

lemma run_events_append: "run_events handle (es @ fs) s = bindE (run_events handle es s) (run_events handle fs)"
  by (induction es arbitrary: s) (simp_all add: bindE_def split: sum.split)

text \<open>
  A component that keeps an invariant and promises a relation between the state before an event and
  the state after it, for the events that may happen.
\<close>

locale event_driven =
  fixes handle :: "'e \<Rightarrow> 's \<Rightarrow> fault + 's"
    and allowed :: "'e \<Rightarrow> bool"
    and inv :: "'s \<Rightarrow> bool"
    and rel :: "'s \<Rightarrow> 's \<Rightarrow> bool"
  assumes handled: "inv s \<Longrightarrow> allowed e \<Longrightarrow> \<exists>s'. handle e s = Inr s' \<and> inv s' \<and> rel s s'"
    and rel_refl: "inv s \<Longrightarrow> rel s s"
    and rel_trans: "rel s s1 \<Longrightarrow> rel s1 s2 \<Longrightarrow> rel s s2"
begin

lemma run:
  "inv s \<Longrightarrow> \<forall>e \<in> set es. allowed e \<Longrightarrow> \<exists>s'. run_events handle es s = Inr s' \<and> inv s' \<and> rel s s'"
proof (induction es arbitrary: s)
  case (Cons e es)
  then obtain s1 where s1: "handle e s = Inr s1" "inv s1" "rel s s1" using handled [of s e] by auto
  with Cons obtain s' where "run_events handle es s1 = Inr s'" "inv s'" "rel s1 s'" by auto
  with s1 show ?case using rel_trans by auto
qed (simp add: rel_refl)

end

end
