(* ===== verification/Buffer_Model.thy ===== *)
theory Buffer_Model
  imports WTE_Prelude
begin

text \<open>
  The byte buffer: \<open>src/src/buffer.cc\<close> and \<open>src/src/buffer-internal.h\<close>.

  A \<open>BufferImpl\<close> is a circular list of \<open>InternalExtent\<close>s hanging off the sentinel \<open>head_\<close>,
  and a byte count \<open>size_\<close>. The list from \<open>head_.next\<close> to \<open>head_.prev\<close> is the HOL list
  \<open>extents\<close>; the splicing of its nodes is the subject of the theory \<open>Extent_List\<close>. Each extent
  owns an allocation of \<open>ext_size\<close> bytes and two offsets into it. All sizes and offsets are
  \<open>size_t\<close> and every subtraction is the wrapping one of the source.

  The allocator is a parameter: \<open>alloc n\<close> says whether \<open>new char[n]\<close> succeeds.
\<close>

declare bindE_def [code]

lemma bindE_cong [fundef_cong]:
  "m = m' \<Longrightarrow> (\<And>x. m' = Inr x \<Longrightarrow> f x = g x) \<Longrightarrow> bindE m f = bindE m' g"
  by (cases m') simp_all

subsection \<open>Extents\<close>

record InternalExtent =
  ext_size :: size_t
  ext_data :: "byte array"
  read_offset :: size_t
  write_offset :: size_t

definition new_extent :: "(size_t \<Rightarrow> bool) \<Rightarrow> size_t \<Rightarrow> fault + InternalExtent" where
  "new_extent alloc n =
     (if alloc n
      then Inr \<lparr>ext_size = n, ext_data = replicate (unat n) None, read_offset = 0, write_offset = 0\<rparr>
      else Inl Bad_Alloc)"

definition appendable :: "InternalExtent \<Rightarrow> size_t" where
  "appendable e = ext_size e - write_offset e"

definition prependable :: "InternalExtent \<Rightarrow> size_t" where
  "prependable e = read_offset e"

definition readable :: "InternalExtent \<Rightarrow> size_t" where
  "readable e = ext_size e - read_offset e"

definition ie_append :: "byte list \<Rightarrow> size_t \<Rightarrow> InternalExtent \<Rightarrow> fault + size_t \<times> InternalExtent" where
  "ie_append buf n e =
     (let space = write_offset e - ext_size e in
      if space = 0 then Inr (0, e)
      else
        let nwrite = min space n in
        bindE (memread buf 0 (unat nwrite)) (\<lambda>src.
        bindE (memwrite (ext_data e) (unat (write_offset e)) (map Some src)) (\<lambda>d.
        Inr (nwrite, e\<lparr>ext_data := d, write_offset := write_offset e + nwrite\<rparr>))))"

definition ie_prepend :: "byte list \<Rightarrow> size_t \<Rightarrow> InternalExtent \<Rightarrow> fault + size_t \<times> InternalExtent" where
  "ie_prepend buf n e =
     (let space = read_offset e in
      if space = 0 then Inr (0, e)
      else
        let nwrite = min space n in
        bindE (memread buf 0 (unat nwrite)) (\<lambda>src.
        bindE (memwrite (ext_data e) 0 (map Some src)) (\<lambda>d.
        Inr (nwrite, e\<lparr>ext_data := d, read_offset := read_offset e - nwrite\<rparr>))))"

text \<open>
  \<open>copyout\<close> writes to the caller's array \<open>out\<close> at offset \<open>pos\<close>, the place \<open>buf\<close> points to.
\<close>

definition ie_copyout ::
  "byte array \<Rightarrow> nat \<Rightarrow> size_t \<Rightarrow> InternalExtent \<Rightarrow> fault + size_t \<times> byte array" where
  "ie_copyout out pos n e =
     (let ret = min n (ext_size e - read_offset e) in
      bindE (memread (ext_data e) (unat (read_offset e)) (unat ret)) (\<lambda>src.
      bindE (memwrite out pos src) (\<lambda>out'.
      Inr (ret, out'))))"

definition ie_consume :: "size_t \<Rightarrow> InternalExtent \<Rightarrow> size_t \<times> InternalExtent" where
  "ie_consume n e =
     (let e' = e\<lparr>read_offset := read_offset e + n\<rparr> in (ext_size e' - read_offset e', e'))"

subsection \<open>The buffer\<close>

record BufferImpl =
  extents :: "InternalExtent list"
  buf_size :: size_t

definition BufferImpl_init :: BufferImpl where
  "BufferImpl_init = \<lparr>extents = [], buf_size = 0\<rparr>"

definition list_empty :: "BufferImpl \<Rightarrow> bool" where
  "list_empty b \<longleftrightarrow> extents b = []"

definition reset :: "BufferImpl \<Rightarrow> BufferImpl" where
  "reset b = b\<lparr>extents := [], buf_size := 0\<rparr>"

definition Buffer_empty :: "BufferImpl \<Rightarrow> bool" where
  "Buffer_empty b \<longleftrightarrow> buf_size b = 0"

lemma min_minus_less: "a \<noteq> 0 \<Longrightarrow> b \<noteq> 0 \<Longrightarrow> unat (b - min a b) < unat b" for a b :: size_t
proof -
  assume "a \<noteq> 0" "b \<noteq> 0"
  then have "0 < unat a" "0 < unat b" by (simp_all add: unat_gt_0)
  then show ?thesis by (simp add: unat_sub min_def word_le_nat_alt)
qed

text \<open>The loop of \<open>drain\<close>; \<open>cur\<close> is always the first node of the list.\<close>

function drain_loop :: "size_t \<Rightarrow> InternalExtent list \<Rightarrow> size_t \<times> InternalExtent list" where
  "drain_loop remain [] = (remain, [])"
| "drain_loop remain (cur # rest) =
     (if remain > 0 then
        let consume = min remain (readable cur);
            (node_remain, cur') = ie_consume consume cur
        in if node_remain = 0 then drain_loop (remain - consume) rest
           else drain_loop (remain - consume) (cur' # rest)
      else (remain, cur # rest))"
  by pat_completeness auto
termination
proof (relation "measures [\<lambda>(r, xs). length xs, \<lambda>(r, xs). unat r]", goal_cases)
  case 1
  then show ?case by simp
next
  case (2 remain cur rest consume p node_remain cur')
  then show ?case by simp
next
  case (3 remain cur rest consume p node_remain cur')
  then have "node_remain = readable cur - consume"
    by (auto simp: ie_consume_def readable_def Let_def)
  with 3 have "consume = remain"
    by (auto simp: min_def split: if_splits)
  with 3 show ?case by (simp add: word_less_nat_alt)
qed

definition Buffer_drain :: "size_t \<Rightarrow> BufferImpl \<Rightarrow> BufferImpl" where
  "Buffer_drain count b =
     (let (remain, xs) = drain_loop count (extents b)
      in b\<lparr>extents := xs, buf_size := buf_size b - (count - remain)\<rparr>)"

text \<open>The destructor drains everything.\<close>

definition BufferImpl_destroy :: "BufferImpl \<Rightarrow> BufferImpl" where
  "BufferImpl_destroy b = Buffer_drain (- 1) b"

text \<open>
  The loop of \<open>append\<close>; \<open>cur\<close> is the last node of the list, or null when there is none. The
  loop condition is the one of the source, and so is the source pointer \<open>buf\<close>, which does not
  move.
\<close>

definition append_node :: "(size_t \<Rightarrow> bool) \<Rightarrow> size_t \<Rightarrow> InternalExtent list \<Rightarrow> fault + InternalExtent list" where
  "append_node alloc remain xs =
     (if xs = [] \<or> appendable (last xs) = 0
      then bindE (new_extent alloc remain) (\<lambda>cur. Inr (xs @ [cur])) else Inr xs)"

lemma append_node_last:
  "append_node alloc remain xs = Inr ys \<Longrightarrow>
     ys \<noteq> [] \<and> (write_offset (last ys) \<noteq> ext_size (last ys) \<or> remain = 0)"
  by (auto simp: append_node_def new_extent_def appendable_def split: if_splits)

lemma ie_append_less:
  assumes "ie_append buf n e = Inr (k, e')" "write_offset e \<noteq> ext_size e" "n \<noteq> 0"
  shows "unat (n - k) < unat n"
  using assms by (auto simp: ie_append_def Let_def fault_simps intro!: min_minus_less)

function append_loop ::
  "(size_t \<Rightarrow> bool) \<Rightarrow> byte list \<Rightarrow> size_t \<Rightarrow> size_t \<Rightarrow> InternalExtent list \<Rightarrow> fault + InternalExtent list"
where
  "append_loop alloc buf n remain xs =
     bindE (append_node alloc remain xs) (\<lambda>ys.
     bindE (ie_append buf remain (last ys)) (\<lambda>(nwrite, cur).
       let zs = butlast ys @ [cur]; remain' = remain - nwrite in
       if remain' > n then append_loop alloc buf n remain' zs else Inr zs))"
  by pat_completeness auto
termination
proof (relation "measure (\<lambda>(alloc, buf, n, remain, xs). unat remain)", goal_cases)
  case 1
  show ?case by simp
next
  case (2 alloc buf n remain xs ys p nwrite cur zs remain')
  then have "remain \<noteq> 0"
    by (auto simp: ie_append_def Let_def fault_simps split: if_splits)
  moreover from this have "write_offset (last ys) \<noteq> ext_size (last ys)"
    using append_node_last [OF 2(1)] by simp
  ultimately show ?case
    using 2 ie_append_less [of buf remain "last ys" nwrite cur] by simp
qed

definition Buffer_append :: "(size_t \<Rightarrow> bool) \<Rightarrow> byte list \<Rightarrow> size_t \<Rightarrow> BufferImpl \<Rightarrow> fault + BufferImpl" where
  "Buffer_append alloc buf n b =
     bindE (append_loop alloc buf n n (extents b)) (\<lambda>xs.
     Inr (b\<lparr>extents := xs, buf_size := buf_size b + n\<rparr>))"

definition Buffer_append_string :: "(size_t \<Rightarrow> bool) \<Rightarrow> string \<Rightarrow> BufferImpl \<Rightarrow> fault + BufferImpl" where
  "Buffer_append_string alloc s b = Buffer_append alloc s (of_nat (length s)) b"

text \<open>Splicing another buffer: the result is this buffer and the originating one.\<close>

definition Buffer_append_buffer :: "BufferImpl \<Rightarrow> BufferImpl \<Rightarrow> BufferImpl \<times> BufferImpl" where
  "Buffer_append_buffer b orig =
     (if list_empty orig then (b, orig)
      else (b\<lparr>extents := extents b @ extents orig, buf_size := buf_size b + buf_size orig\<rparr>, reset orig))"

text \<open>The body of the loop of \<open>prepend\<close>; \<open>cur\<close> is the first node of the list, or null.\<close>

definition prepend_step ::
  "(size_t \<Rightarrow> bool) \<Rightarrow> byte list \<Rightarrow> size_t \<Rightarrow> InternalExtent list \<Rightarrow> fault + size_t \<times> InternalExtent list"
where
  "prepend_step alloc buf remain xs =
     (if xs = [] \<or> prependable (hd xs) = 0
      then bindE (new_extent alloc remain) (\<lambda>cur.
           bindE (ie_append buf remain cur) (\<lambda>(nwrite, cur').
           Inr (remain - nwrite, cur' # xs)))
      else bindE (ie_prepend buf remain (hd xs)) (\<lambda>(nwrite, cur').
           Inr (remain - nwrite, cur' # tl xs)))"

lemma prepend_step_less:
  assumes "prepend_step alloc buf remain xs = Inr (remain', ys)" and "remain' \<noteq> 0"
  shows "unat remain' < unat remain"
proof -
  have r: "remain \<noteq> 0"
    using assms by (auto simp: prepend_step_def ie_append_def ie_prepend_def Let_def fault_simps
      split: if_splits)
  show ?thesis
  proof (cases "xs = [] \<or> prependable (hd xs) = 0")
    case True
    with assms(1) obtain cur nwrite cur' where
      "new_extent alloc remain = Inr cur" "ie_append buf remain cur = Inr (nwrite, cur')"
      "remain' = remain - nwrite"
      by (auto simp: prepend_step_def fault_simps)
    with r show ?thesis
      by (auto simp: new_extent_def split: if_splits intro!: ie_append_less)
  next
    case False
    with assms(1) r show ?thesis
      by (auto simp: prepend_step_def prependable_def ie_prepend_def Let_def fault_simps
        intro!: min_minus_less)
  qed
qed

function prepend_loop ::
  "(size_t \<Rightarrow> bool) \<Rightarrow> byte list \<Rightarrow> size_t \<Rightarrow> InternalExtent list \<Rightarrow> fault + InternalExtent list"
where
  "prepend_loop alloc buf remain xs =
     bindE (prepend_step alloc buf remain xs) (\<lambda>(remain', ys).
       if remain' > 0 then prepend_loop alloc buf remain' ys else Inr ys)"
  by pat_completeness auto
termination
  by (relation "measure (\<lambda>(alloc, buf, remain, xs). unat remain)")
    (auto intro: prepend_step_less)

declare drain_loop.simps(2) [simp del] append_loop.simps [simp del] prepend_loop.simps [simp del]

definition Buffer_prepend :: "(size_t \<Rightarrow> bool) \<Rightarrow> byte list \<Rightarrow> size_t \<Rightarrow> BufferImpl \<Rightarrow> fault + BufferImpl" where
  "Buffer_prepend alloc buf n b =
     bindE (prepend_loop alloc buf n (extents b)) (\<lambda>xs.
     Inr (b\<lparr>extents := xs, buf_size := buf_size b + n\<rparr>))"

definition Buffer_prepend_string :: "(size_t \<Rightarrow> bool) \<Rightarrow> string \<Rightarrow> BufferImpl \<Rightarrow> fault + BufferImpl" where
  "Buffer_prepend_string alloc s b = Buffer_prepend alloc s (of_nat (length s)) b"

definition Buffer_prepend_buffer :: "BufferImpl \<Rightarrow> BufferImpl \<Rightarrow> BufferImpl \<times> BufferImpl" where
  "Buffer_prepend_buffer b orig =
     (if list_empty orig then (b, orig)
      else (b\<lparr>extents := extents orig @ extents b, buf_size := buf_size b + buf_size orig\<rparr>, reset orig))"

subsection \<open>Reserving space\<close>

text \<open>
  An \<open>Extent\<close> handed to a caller is a size and a pointer; the pointer is the memory from the
  place it points to up to the end of the allocation.
\<close>

record Extent =
  Extent_size :: size_t
  Extent_data :: "byte array"

definition Buffer_reserve :: "(size_t \<Rightarrow> bool) \<Rightarrow> size_t \<Rightarrow> BufferImpl \<Rightarrow> fault + BufferImpl" where
  "Buffer_reserve alloc n b =
     (let required = (if list_empty b then n else n - appendable (last (extents b))) in
      if required > 0
      then bindE (new_extent alloc required) (\<lambda>cur. Inr (b\<lparr>extents := extents b @ [cur]\<rparr>))
      else Inr b)"

definition Buffer_reserve_extents ::
  "(size_t \<Rightarrow> bool) \<Rightarrow> size_t \<Rightarrow> BufferImpl \<Rightarrow> Extent list \<Rightarrow> fault + BufferImpl \<times> Extent list" where
  "Buffer_reserve_extents alloc n b vec =
     (let (required, vec') =
        (if list_empty b then (n, vec)
         else
           let p = last (extents b); avail = appendable p in
           if avail > 0
           then (n - avail, vec @ [\<lparr>Extent_size = avail,
                  Extent_data = drop (unat (write_offset p)) (ext_data p)\<rparr>])
           else (n, vec))
      in
      if required > 0
      then bindE (new_extent alloc required) (\<lambda>cur.
           Inr (b\<lparr>extents := extents b @ [cur]\<rparr>,
                vec' @ [\<lparr>Extent_size = required, Extent_data = ext_data cur\<rparr>]))
      else Inr (b, vec'))"

subsection \<open>Reading\<close>

text \<open>
  The loop of \<open>read\<close> over the nodes from \<open>cur\<close> on: \<open>pos\<close> is how far \<open>buf\<close> has moved. The
  result is the caller's array, the total, the byte count and the nodes that remain.
\<close>

fun read_loop ::
  "bool \<Rightarrow> size_t \<Rightarrow> byte array \<Rightarrow> nat \<Rightarrow> size_t \<Rightarrow> size_t \<Rightarrow> InternalExtent list \<Rightarrow>
     fault + byte array \<times> size_t \<times> size_t \<times> InternalExtent list" where
  "read_loop consume n out pos tot sz [] = Inr (out, tot, sz, [])"
| "read_loop consume n out pos tot sz (cur # rest) =
     (if tot < n then
        bindE (ie_copyout out pos n cur) (\<lambda>(tmpread, out').
          let tot' = tot + tmpread; pos' = pos + unat tmpread in
          if \<not> consume then
            bindE (read_loop consume n out' pos' tot' sz rest) (\<lambda>(o', t', s', xs).
              Inr (o', t', s', cur # xs))
          else
            let sz' = sz - tmpread; (remain, cur') = ie_consume tmpread cur in
            if remain = 0 then read_loop consume n out' pos' tot' sz' rest
            else Inr (out', tot', sz', cur' # rest))
      else Inr (out, tot, sz, cur # rest))"

definition read_internal ::
  "bool \<Rightarrow> byte array \<Rightarrow> size_t \<Rightarrow> BufferImpl \<Rightarrow> fault + byte array \<times> size_t \<times> BufferImpl" where
  "read_internal consume out n b =
     bindE (read_loop consume n out 0 0 (buf_size b) (extents b)) (\<lambda>(out', tot, sz, xs).
     Inr (out', tot, b\<lparr>extents := xs, buf_size := sz\<rparr>))"

definition Buffer_read :: "byte array \<Rightarrow> size_t \<Rightarrow> BufferImpl \<Rightarrow> fault + byte array \<times> size_t \<times> BufferImpl" where
  "Buffer_read out n b = read_internal True out n b"

definition Buffer_peek :: "byte array \<Rightarrow> size_t \<Rightarrow> BufferImpl \<Rightarrow> fault + byte array \<times> size_t \<times> BufferImpl" where
  "Buffer_peek out n b = read_internal False out n b"

fun peek_loop :: "size_t \<Rightarrow> size_t \<Rightarrow> InternalExtent list \<Rightarrow> Extent list" where
  "peek_loop n tot [] = []"
| "peek_loop n tot (cur # rest) =
     (if tot < n then
        let avail = readable cur in
        (if avail > 0
         then [\<lparr>Extent_size = min avail (n - tot),
                Extent_data = drop (unat (read_offset cur)) (ext_data cur)\<rparr>]
         else []) @ peek_loop n (tot + avail) rest
      else [])"

definition Buffer_peek_extents :: "size_t \<Rightarrow> BufferImpl \<Rightarrow> Extent list \<Rightarrow> Extent list" where
  "Buffer_peek_extents n b vec = vec @ peek_loop n 0 (extents b)"

end
