(* ===== verification/Buffer_Correct.thy ===== *)
theory Buffer_Correct
  imports Buffer_Model
begin

text \<open>
  Correctness of the byte buffer of \<open>Buffer_Model\<close>: the invariant, the byte sequence a buffer
  stands for, and what every operation does to it.
\<close>

subsection \<open>The bytes of a buffer\<close>

text \<open>
  The readable bytes of an extent are those the code regards as such: from the read offset to
  the end of the allocation.
\<close>

definition ext_bytes :: "InternalExtent \<Rightarrow> byte array" where
  "ext_bytes e = take (unat (readable e)) (drop (unat (read_offset e)) (ext_data e))"

definition chain_bytes :: "InternalExtent list \<Rightarrow> byte array" where
  "chain_bytes xs = concat (map ext_bytes xs)"

definition contents :: "BufferImpl \<Rightarrow> byte array" where
  "contents b = chain_bytes (extents b)"

definition ext_wf :: "InternalExtent \<Rightarrow> bool" where
  "ext_wf e \<longleftrightarrow>
     length (ext_data e) = unat (ext_size e) \<and> unat (ext_size e) < 2 ^ 63 \<and>
     read_offset e \<le> write_offset e \<and> write_offset e \<le> ext_size e \<and>
     None \<notin> set (take (unat (write_offset e)) (ext_data e))"

text \<open>Every byte of the allocation has been written: nothing is reserved.\<close>

definition ext_full :: "InternalExtent \<Rightarrow> bool" where
  "ext_full e \<longleftrightarrow> write_offset e = ext_size e"

definition ext_ok :: "InternalExtent \<Rightarrow> bool" where
  "ext_ok e \<longleftrightarrow> ext_wf e \<and> ext_full e"

definition buf_inv :: "BufferImpl \<Rightarrow> bool" where
  "buf_inv b \<longleftrightarrow>
     (\<forall>e \<in> set (extents b). ext_ok e) \<and> length (contents b) < 2 ^ 64 \<and>
     buf_size b = of_nat (length (contents b))"

text \<open>No allocation is larger than \<open>PTRDIFF_MAX\<close>.\<close>

definition alloc_bounded :: "(size_t \<Rightarrow> bool) \<Rightarrow> bool" where
  "alloc_bounded alloc \<longleftrightarrow> (\<forall>n. alloc n \<longrightarrow> unat n < 2 ^ 63)"

lemma chain_bytes_simps [simp]:
  "chain_bytes [] = []" "chain_bytes (e # xs) = ext_bytes e @ chain_bytes xs"
  "chain_bytes (xs @ ys) = chain_bytes xs @ chain_bytes ys"
  by (simp_all add: chain_bytes_def)

lemma ext_wf_read: "ext_wf e \<Longrightarrow> read_offset e \<le> ext_size e"
  by (auto simp: ext_wf_def)

lemma ext_bytes_wf:
  assumes "ext_wf e"
  shows "ext_bytes e = drop (unat (read_offset e)) (ext_data e)"
    and "length (ext_bytes e) = unat (readable e)"
    and "unat (readable e) = unat (ext_size e) - unat (read_offset e)"
  using assms ext_wf_read [OF assms]
  by (auto simp: ext_bytes_def ext_wf_def readable_def unat_sub)

lemma ext_ok_wf: "ext_ok e \<Longrightarrow> ext_wf e"
  by (simp add: ext_ok_def)

lemma length_ext_bytes: "ext_ok e \<Longrightarrow> length (ext_bytes e) = unat (readable e)"
  by (rule ext_bytes_wf(2) [OF ext_ok_wf])

lemma ext_ok_bytes_Some: "ext_ok e \<Longrightarrow> None \<notin> set (ext_bytes e)"
  by (auto simp: ext_ok_def ext_full_def ext_bytes_wf ext_wf_def dest: in_set_dropD)

lemma chain_bytes_Some: "\<forall>e \<in> set xs. ext_ok e \<Longrightarrow> None \<notin> set (chain_bytes xs)"
  by (auto simp: chain_bytes_def dest: ext_ok_bytes_Some)

lemma ext_ok_consume:
  assumes "ext_ok e" "unat n \<le> unat (readable e)"
  shows "ie_consume n e = (readable e - n, e\<lparr>read_offset := read_offset e + n\<rparr>)"
    and "ext_ok (e\<lparr>read_offset := read_offset e + n\<rparr>)"
    and "ext_bytes (e\<lparr>read_offset := read_offset e + n\<rparr>) = drop (unat n) (ext_bytes e)"
proof -
  note wf = assms(1) [unfolded ext_ok_def, THEN conjunct1]
  have rd: "read_offset e \<le> ext_size e" by (rule ext_wf_read [OF wf])
  have le: "unat (read_offset e) + unat n \<le> unat (ext_size e)"
    using assms(2) ext_bytes_wf(3) [OF wf] rd by (simp add: word_le_nat_alt)
  have plus: "unat (read_offset e + n) = unat (read_offset e) + unat n"
    using le unat_size_bound [of "ext_size e"] by (intro unat_plus_size) linarith
  show "ie_consume n e = (readable e - n, e\<lparr>read_offset := read_offset e + n\<rparr>)"
    by (simp add: ie_consume_def readable_def)
  show ok: "ext_ok (e\<lparr>read_offset := read_offset e + n\<rparr>)"
    using assms(1) plus le by (auto simp: ext_ok_def ext_full_def ext_wf_def word_le_nat_alt)
  then have "ext_wf (e\<lparr>read_offset := read_offset e + n\<rparr>)" by (simp add: ext_ok_def)
  from ext_bytes_wf(1) [OF this] show "ext_bytes (e\<lparr>read_offset := read_offset e + n\<rparr>) = drop (unat n) (ext_bytes e)"
    using ext_bytes_wf(1) [OF wf] plus by (simp add: add.commute)
qed

subsection \<open>Draining\<close>

abbreviation skip :: "size_t \<Rightarrow> InternalExtent \<Rightarrow> InternalExtent" where
  "skip n e \<equiv> e\<lparr>read_offset := read_offset e + n\<rparr>"

lemma drain_loop_Cons:
  "drain_loop r (cur # rest) =
     (if 0 < r \<and> readable cur \<le> r then drain_loop (r - readable cur) rest
      else (0, skip r cur # rest))"
  by (auto simp: drain_loop.simps(2) ie_consume_def readable_def Let_def min_def word_gt_0)

lemma drain_loop_ok:
  assumes "\<forall>e \<in> set xs. ext_ok e"
  shows "(\<forall>e \<in> set (snd (drain_loop r xs)). ext_ok e) \<and>
         chain_bytes (snd (drain_loop r xs)) = drop (unat r) (chain_bytes xs) \<and>
         unat (fst (drain_loop r xs)) = unat r - length (chain_bytes xs)"
  using assms
proof (induction xs arbitrary: r)
  case Nil
  then show ?case by simp
next
  case (Cons cur rest)
  then have ok: "ext_ok cur" by simp
  note len = length_ext_bytes [OF ok]
  show ?case
  proof (cases "0 < r \<and> readable cur \<le> r")
    case True
    then have "unat (r - readable cur) = unat r - unat (readable cur)"
      by (simp add: unat_sub)
    with True Cons len show ?thesis
      by (simp add: drain_loop_Cons word_le_nat_alt)
  next
    case False
    then have "r = 0 \<or> unat r < unat (readable cur)"
      by (auto simp: word_gt_0 word_le_nat_alt)
    then have le: "unat r \<le> unat (readable cur)" by auto
    have eq: "drain_loop r (cur # rest) = (0, skip r cur # rest)"
      unfolding drain_loop_Cons using False by (simp only: if_False)
    from ext_ok_consume(2,3) [OF ok le] le len Cons.prems show ?thesis
      unfolding eq by simp
  qed
qed

lemma buf_size_drop:
  assumes "buf_inv b"
  shows "buf_size b - of_nat (min k (length (contents b))) = of_nat (length (contents b) - k)"
proof -
  have "of_nat (length (contents b)) - of_nat (min k (length (contents b))) =
    (of_nat (length (contents b) - min k (length (contents b))) :: size_t)"
    by (simp add: of_nat_diff)
  with assms show ?thesis by (simp add: buf_inv_def min_def split: if_splits)
qed

lemma drain_ok:
  assumes "buf_inv b"
  shows "buf_inv (Buffer_drain n b)"
    and "contents (Buffer_drain n b) = drop (unat n) (contents b)"
proof -
  obtain r ys where d: "drain_loop n (extents b) = (r, ys)" by force
  with assms drain_loop_ok [of "extents b" n]
  have ok: "\<forall>e \<in> set ys. ext_ok e" and bys: "chain_bytes ys = drop (unat n) (contents b)"
    and r: "unat r = unat n - length (contents b)"
    by (auto simp: buf_inv_def contents_def)
  show c: "contents (Buffer_drain n b) = drop (unat n) (contents b)"
    by (simp add: Buffer_drain_def d bys contents_def [of "_\<lparr>extents := ys, buf_size := _\<rparr>"])
  have lc: "length (contents b) < 2 ^ 64" using assms by (simp add: buf_inv_def)
  have "r \<le> n" using r by (simp add: word_le_nat_alt)
  then have "unat (n - r) = min (unat n) (length (contents b))"
    using r by (simp add: unat_sub)
  then have "n - r = of_nat (min (unat n) (length (contents b)))"
    using lc by (simp add: size_t_eq_iff unat_of_nat_size)
  then have "buf_size b - (n - r) = of_nat (length (drop (unat n) (contents b)))"
    using buf_size_drop [OF assms, of "unat n"] by simp
  with ok c lc show "buf_inv (Buffer_drain n b)"
    by (simp add: buf_inv_def Buffer_drain_def d)
qed

subsection \<open>Appending\<close>

lemma new_extent_append:
  assumes "new_extent alloc n = Inr e" "alloc_bounded alloc" "unat n \<le> length buf"
  obtains e' where "ie_append buf n e = Inr (n, e')" "ext_ok e'"
    "ext_bytes e' = map Some (take (unat n) buf)"
proof -
  from assms(1,2) have e: "e = \<lparr>ext_size = n, ext_data = replicate (unat n) None,
      read_offset = 0, write_offset = 0\<rparr>" and bd: "unat n < 2 ^ 63"
    by (auto simp: new_extent_def alloc_bounded_def split: if_splits)
  let ?e' = "\<lparr>ext_size = n, ext_data = map Some (take (unat n) buf),
      read_offset = 0, write_offset = n\<rparr>"
  have ok: "ext_ok ?e'" using assms(3) bd
    by (auto simp: ext_ok_def ext_full_def ext_wf_def)
  moreover have "ext_bytes ?e' = map Some (take (unat n) buf)"
    by (simp add: ext_bytes_def readable_def)
  moreover have "ie_append buf n e = Inr (n, ?e')"
  proof (cases "n = 0")
    case True
    then show ?thesis by (simp add: e ie_append_def)
  next
    case False
    then have "unat (0 - n) = 2 ^ 64 - unat n"
      using unat_wrapped_minus [of 0 n] by (simp add: word_gt_0)
    then have "n \<le> 0 - n"
      using bd by (simp add: word_le_nat_alt)
    then have "min (0 - n) n = n"
      by (rule min_absorb2)
    with False assms(3) show ?thesis
      by (simp add: e ie_append_def memread_def memwrite_def)
  qed
  ultimately show thesis by (rule that [rotated 1])
qed

text \<open>
  Allocating a node is the only way \<open>append\<close> can fail on a buffer with no reserved space; when
  it succeeds the bytes are at the end.
\<close>

lemma append_loop_full:
  assumes "xs = [] \<or> ext_full (last xs)"
  shows "append_loop alloc buf n n xs =
    bindE (new_extent alloc n) (\<lambda>e. bindE (ie_append buf n e) (\<lambda>(k, e').
      if n - k > n then append_loop alloc buf n (n - k) (xs @ [e']) else Inr (xs @ [e'])))"
proof -
  have "append_node alloc n xs = bindE (new_extent alloc n) (\<lambda>cur. Inr (xs @ [cur]))"
    using assms by (auto simp: append_node_def ext_full_def appendable_def)
  then show ?thesis
    unfolding append_loop.simps [of alloc buf n n xs]
    by (simp add: bindE_assoc Let_def split_def cong: if_cong)
qed

lemma append_loop_ok:
  assumes "xs = [] \<or> ext_full (last xs)" "alloc n" "alloc_bounded alloc" "unat n \<le> length buf"
  obtains e where "append_loop alloc buf n n xs = Inr (xs @ [e])" "ext_ok e"
    "ext_bytes e = map Some (take (unat n) buf)"
proof -
  from assms(2) obtain e0 where e0: "new_extent alloc n = Inr e0"
    by (simp add: new_extent_def)
  from new_extent_append [OF e0 assms(3,4)] obtain e where
    e: "ie_append buf n e0 = Inr (n, e)" "ext_ok e" "ext_bytes e = map Some (take (unat n) buf)"
    by blast
  have "append_loop alloc buf n n xs = Inr (xs @ [e])"
    by (simp add: append_loop_full [OF assms(1)] e0 e(1))
  then show thesis using e(2,3) by (rule that)
qed

lemma buf_inv_last_full: "buf_inv b \<Longrightarrow> extents b = [] \<or> ext_full (last (extents b))"
  by (cases "extents b") (auto simp: buf_inv_def ext_ok_def)

lemma append_ok_extents:
  assumes "buf_inv b" "alloc n" "alloc_bounded alloc" "unat n \<le> length buf"
    "length (contents b) + unat n < 2 ^ 64"
  obtains b' e where "Buffer_append alloc buf n b = Inr b'" "buf_inv b'"
    "contents b' = contents b @ map Some (take (unat n) buf)" "extents b' = extents b @ [e]"
    "ext_bytes e = map Some (take (unat n) buf)"
proof -
  from append_loop_ok [OF buf_inv_last_full [OF assms(1)] assms(2-4)] obtain e where
    e: "append_loop alloc buf n n (extents b) = Inr (extents b @ [e])" "ext_ok e"
      "ext_bytes e = map Some (take (unat n) buf)" .
  let ?b = "b\<lparr>extents := extents b @ [e], buf_size := buf_size b + n\<rparr>"
  have c: "contents ?b = contents b @ map Some (take (unat n) buf)"
    by (simp add: contents_def e(3))
  have "buf_inv ?b"
    using assms c e(2) by (simp add: buf_inv_def min_def)
  with e(1,3) c show thesis
    by (intro that [of ?b e]) (simp_all add: Buffer_append_def)
qed

lemma append_ok:
  assumes "buf_inv b" "alloc n" "alloc_bounded alloc" "unat n \<le> length buf"
    "length (contents b) + unat n < 2 ^ 64"
  obtains b' where "Buffer_append alloc buf n b = Inr b'" "buf_inv b'"
    "contents b' = contents b @ map Some (take (unat n) buf)"
  using append_ok_extents [OF assms] by metis

lemma append_bad_alloc:
  "buf_inv b \<Longrightarrow> \<not> alloc n \<Longrightarrow> Buffer_append alloc buf n b = Inl Bad_Alloc"
  by (simp add: Buffer_append_def append_loop_full buf_inv_last_full new_extent_def)

lemma reset_ok [simp]: "buf_inv (reset b)" "contents (reset b) = []" "list_empty (reset b)"
  by (simp_all add: reset_def buf_inv_def contents_def list_empty_def)

lemma init_ok [simp]: "buf_inv BufferImpl_init" "contents BufferImpl_init = []"
  by (simp_all add: BufferImpl_init_def buf_inv_def contents_def)

lemma list_empty_contents: "list_empty b \<Longrightarrow> contents b = []"
  by (simp add: list_empty_def contents_def)

lemma splice_ok:
  assumes "buf_inv a" "buf_inv b" "length (contents a) + length (contents b) < 2 ^ 64"
    "extents c = extents a @ extents b" "buf_size c = buf_size a + buf_size b"
  shows "buf_inv c" "contents c = contents a @ contents b"
proof -
  show "contents c = contents a @ contents b" using assms(4) by (simp add: contents_def)
  with assms show "buf_inv c" by (auto simp: buf_inv_def)
qed

lemma append_buffer_ok:
  assumes "buf_inv b" "buf_inv o'" "length (contents b) + length (contents o') < 2 ^ 64"
    "Buffer_append_buffer b o' = (b', o'')"
  shows "buf_inv b'" "contents b' = contents b @ contents o'"
    "buf_inv o''" "contents o'' = []" "list_empty o''"
  using assms splice_ok [OF assms(1-3), of b']
  by (auto simp: Buffer_append_buffer_def list_empty_contents split: if_splits)

lemma prepend_buffer_ok:
  assumes "buf_inv b" "buf_inv o'" "length (contents b) + length (contents o') < 2 ^ 64"
    "Buffer_prepend_buffer b o' = (b', o'')"
  shows "buf_inv b'" "contents b' = contents o' @ contents b"
    "buf_inv o''" "contents o'' = []" "list_empty o''"
  using assms splice_ok [OF assms(2,1), of b']
  by (auto simp: Buffer_prepend_buffer_def list_empty_contents add.commute split: if_splits)

subsection \<open>Reserved space\<close>

text \<open>
  Writing into an extent that has reserved space left. The test of the free space subtracts in
  the wrong order, so the amount is never clamped: either the bytes fit or the copy runs past
  the allocation.
\<close>

lemma ie_append_reserved:
  assumes wf: "ext_wf e" and nf: "\<not> ext_full e" and n: "unat n < 2 ^ 63" "unat n \<le> length buf"
  shows "ie_append buf n e =
    (if unat n \<le> unat (appendable e)
     then Inr (n, e\<lparr>ext_data := take (unat (write_offset e)) (ext_data e) @
            map Some (take (unat n) buf) @ drop (unat (write_offset e) + unat n) (ext_data e),
          write_offset := write_offset e + n\<rparr>)
     else Inl Write_Overflow)"
proof -
  from wf nf have lt: "write_offset e < ext_size e"
    by (auto simp: ext_wf_def ext_full_def)
  then have ap: "unat (appendable e) = unat (ext_size e) - unat (write_offset e)"
    by (simp add: appendable_def unat_sub)
  have "unat (ext_size e) < 2 ^ 63" using wf by (simp add: ext_wf_def)
  with n(1) have "n \<le> write_offset e - ext_size e"
    by (simp add: word_le_nat_alt unat_wrapped_minus [OF lt])
  then have "min (write_offset e - ext_size e) n = n" by (rule min_absorb2)
  moreover have "write_offset e - ext_size e \<noteq> 0" using lt by simp
  moreover have "unat (write_offset e) < unat (ext_size e)" using lt by (simp add: word_less_nat_alt)
  ultimately show ?thesis
    using wf n(2) ap
    by (auto simp: ie_append_def memread_def memwrite_def ext_wf_def)
qed

lemma reserve_ok:
  assumes "buf_inv b" "alloc n" "n > 0"
  shows "Buffer_reserve alloc n b = Inr (b\<lparr>extents := extents b @ [\<lparr>ext_size = n,
    ext_data = replicate (unat n) None, read_offset = 0, write_offset = 0\<rparr>]\<rparr>)"
  using buf_inv_last_full [OF assms(1)] assms(2,3)
  by (auto simp: Buffer_reserve_def list_empty_def appendable_def ext_full_def new_extent_def)

lemma append_reserved:
  assumes "extents b = xs @ [e]" "ext_wf e" "\<not> ext_full e" "unat n < 2 ^ 63" "unat n \<le> length buf"
    "unat n > unat (appendable e)"
  shows "Buffer_append alloc buf n b = Inl Write_Overflow"
proof -
  have "appendable e \<noteq> 0" using assms(3) by (simp add: ext_full_def appendable_def)
  then have "append_node alloc n (extents b) = Inr (extents b)"
    using assms(1) by (simp add: append_node_def)
  then show ?thesis
    using assms by (simp add: Buffer_append_def append_loop.simps ie_append_reserved)
qed

lemma append_reserved_ok:
  assumes "extents b = xs @ [e]" "ext_wf e" "\<not> ext_full e" "unat n < 2 ^ 63" "unat n \<le> length buf"
    "unat n \<le> unat (appendable e)"
  shows "Buffer_append alloc buf n b =
    Inr (b\<lparr>extents := xs @ [e\<lparr>ext_data := take (unat (write_offset e)) (ext_data e) @
            map Some (take (unat n) buf) @ drop (unat (write_offset e) + unat n) (ext_data e),
          write_offset := write_offset e + n\<rparr>], buf_size := buf_size b + n\<rparr>)"
proof -
  have "appendable e \<noteq> 0" using assms(3) by (simp add: ext_full_def appendable_def)
  then have "append_node alloc n (extents b) = Inr (extents b)"
    using assms(1) by (simp add: append_node_def)
  then show ?thesis
    using assms by (simp add: Buffer_append_def append_loop.simps ie_append_reserved)
qed

text \<open>Reserving and then filling the reserved space is an append.\<close>

lemma reserve_append_ok:
  assumes "buf_inv b" "alloc n" "alloc_bounded alloc" "n > 0" "unat n \<le> length buf"
    "length (contents b) + unat n < 2 ^ 64"
  obtains b1 b2 where "Buffer_reserve alloc n b = Inr b1" "Buffer_append alloc buf n b1 = Inr b2"
    "buf_size b1 = buf_size b" "buf_inv b2"
    "contents b2 = contents b @ map Some (take (unat n) buf)"
proof -
  let ?e = "\<lparr>ext_size = n, ext_data = replicate (unat n) None, read_offset = 0, write_offset = 0\<rparr>"
  let ?e' = "\<lparr>ext_size = n, ext_data = map Some (take (unat n) buf), read_offset = 0, write_offset = n\<rparr>"
  let ?b = "b\<lparr>extents := extents b @ [?e]\<rparr>"
  let ?b' = "b\<lparr>extents := extents b @ [?e'], buf_size := buf_size b + n\<rparr>"
  have bd: "unat n < 2 ^ 63" using assms(2,3) by (simp add: alloc_bounded_def)
  have "ext_wf ?e" "\<not> ext_full ?e" "appendable ?e = n"
    using bd assms(4) by (auto simp: ext_wf_def ext_full_def appendable_def)
  then have "Buffer_append alloc buf n ?b = Inr ?b'"
    using append_reserved_ok [of ?b "extents b" ?e n buf alloc] bd assms(5) by simp
  moreover have ok: "ext_ok ?e'" "ext_bytes ?e' = map Some (take (unat n) buf)"
    using assms(5) bd by (auto simp: ext_ok_def ext_full_def ext_wf_def ext_bytes_def readable_def)
  moreover from ok(2) have "contents ?b' = contents b @ map Some (take (unat n) buf)"
    by (simp add: contents_def)
  moreover from this ok(1) have "buf_inv ?b'"
    using assms(1,5,6) by (simp add: buf_inv_def min_def)
  ultimately show thesis
    by (intro that [of ?b ?b']) (simp_all add: reserve_ok assms(1,2,4))
qed

text \<open>Asking for less than is already reserved wraps the request around.\<close>

lemma reserve_wraps:
  assumes "extents b = xs @ [e]" "ext_wf e" "n < appendable e" "alloc_bounded alloc"
  shows "Buffer_reserve alloc n b = Inl Bad_Alloc"
proof -
  have "unat (appendable e) < 2 ^ 63"
    using assms(2) by (auto simp: ext_wf_def appendable_def unat_sub)
  then have "unat (n - appendable e) \<ge> 2 ^ 63"
    using unat_wrapped_minus [OF assms(3)] by simp
  then have "\<not> alloc (n - appendable e)" "n - appendable e \<noteq> 0"
    using assms(3,4) by (auto simp: alloc_bounded_def not_less [symmetric])
  then show ?thesis
    using assms(1) by (simp add: Buffer_reserve_def list_empty_def new_extent_def word_gt_0)
qed

subsection \<open>Prepending\<close>

lemma prepend_loop_fresh:
  assumes "xs = [] \<or> read_offset (hd xs) = 0" "alloc n" "alloc_bounded alloc" "unat n \<le> length buf"
  obtains e where "prepend_loop alloc buf n xs = Inr (e # xs)" "ext_ok e"
    "ext_bytes e = map Some (take (unat n) buf)"
proof -
  from assms(2) obtain e0 where e0: "new_extent alloc n = Inr e0"
    by (simp add: new_extent_def)
  from new_extent_append [OF e0 assms(3,4)] obtain e where
    e: "ie_append buf n e0 = Inr (n, e)" "ext_ok e" "ext_bytes e = map Some (take (unat n) buf)"
    by blast
  have "prepend_step alloc buf n xs = Inr (0, e # xs)"
    using assms(1) e0 e(1) by (auto simp: prepend_step_def prependable_def)
  then have "prepend_loop alloc buf n xs = Inr (e # xs)"
    by (simp add: prepend_loop.simps)
  then show thesis using e(2,3) by (rule that)
qed

text \<open>
  When exactly \<open>n\<close> bytes have been consumed at the front, the bytes go in their place.
\<close>

lemma ie_prepend_exact:
  assumes "ext_ok e" "read_offset e = n" "n \<noteq> 0" "unat n \<le> length buf"
  obtains e' where "ie_prepend buf n e = Inr (n, e')" "ext_ok e'"
    "ext_bytes e' = map Some (take (unat n) buf) @ ext_bytes e"
proof -
  let ?e = "e\<lparr>ext_data := map Some (take (unat n) buf) @ drop (unat n) (ext_data e), read_offset := 0\<rparr>"
  have wf: "ext_wf e" and full: "write_offset e = ext_size e"
    using assms(1) by (simp_all add: ext_ok_def ext_full_def)
  have le: "unat n \<le> unat (ext_size e)" using ext_wf_read [OF wf] assms(2)
    by (simp add: word_le_nat_alt)
  have len: "length (ext_data e) = unat (ext_size e)" and nn: "None \<notin> set (ext_data e)"
    using wf full by (auto simp: ext_wf_def)
  have "ie_prepend buf n e = Inr (n, ?e)"
    using assms(2-4) le len by (simp add: ie_prepend_def memread_def memwrite_def)
  moreover have ok: "ext_ok ?e"
    using wf full len le nn assms(4)
    by (auto simp: ext_ok_def ext_full_def ext_wf_def dest: in_set_dropD)
  moreover have "ext_bytes ?e = map Some (take (unat n) buf) @ ext_bytes e"
    using ext_bytes_wf(1) [OF ext_ok_wf [OF ok]] ext_bytes_wf(1) [OF wf] assms(2) by simp
  ultimately show thesis by (rule that)
qed

lemma prepend_loop_exact:
  assumes "ext_ok e" "read_offset e = n" "n \<noteq> 0" "unat n \<le> length buf"
  obtains e' where "prepend_loop alloc buf n (e # xs) = Inr (e' # xs)" "ext_ok e'"
    "ext_bytes e' = map Some (take (unat n) buf) @ ext_bytes e"
proof -
  from ie_prepend_exact [OF assms] obtain e' where
    e': "ie_prepend buf n e = Inr (n, e')" "ext_ok e'"
      "ext_bytes e' = map Some (take (unat n) buf) @ ext_bytes e" .
  have "prepend_step alloc buf n (e # xs) = Inr (0, e' # xs)"
    using assms(2,3) e'(1) by (simp add: prepend_step_def prependable_def)
  then have "prepend_loop alloc buf n (e # xs) = Inr (e' # xs)"
    by (simp add: prepend_loop.simps)
  then show thesis using e'(2,3) by (rule that)
qed

text \<open>The two situations in which \<open>prepend\<close> puts the bytes in front.\<close>

definition prepend_room :: "size_t \<Rightarrow> BufferImpl \<Rightarrow> bool" where
  "prepend_room n b \<longleftrightarrow>
     extents b = [] \<or> read_offset (hd (extents b)) = 0 \<or> read_offset (hd (extents b)) = n"

lemma prepend_ok:
  assumes "buf_inv b" "prepend_room n b" "alloc n" "alloc_bounded alloc" "unat n \<le> length buf"
    "length (contents b) + unat n < 2 ^ 64"
  obtains b' where "Buffer_prepend alloc buf n b = Inr b'" "buf_inv b'"
    "contents b' = map Some (take (unat n) buf) @ contents b"
proof -
  obtain ys where ys: "prepend_loop alloc buf n (extents b) = Inr ys" "\<forall>e \<in> set ys. ext_ok e"
    "chain_bytes ys = map Some (take (unat n) buf) @ contents b"
  proof (cases "extents b = [] \<or> read_offset (hd (extents b)) = 0")
    case True
    from prepend_loop_fresh [OF True assms(3-5)] obtain e where
      "prepend_loop alloc buf n (extents b) = Inr (e # extents b)" "ext_ok e"
      "ext_bytes e = map Some (take (unat n) buf)" .
    with assms(1) show thesis
      by (intro that [of "e # extents b"]) (simp_all add: buf_inv_def contents_def)
  next
    case False
    then obtain e xs where x: "extents b = e # xs" "read_offset e = n" "n \<noteq> 0"
      using assms(2) by (cases "extents b") (auto simp: prepend_room_def)
    then have "ext_ok e" using assms(1) by (simp add: buf_inv_def)
    from prepend_loop_exact [OF this x(2,3) assms(5)] obtain e' where
      "prepend_loop alloc buf n (e # xs) = Inr (e' # xs)" "ext_ok e'"
      "ext_bytes e' = map Some (take (unat n) buf) @ ext_bytes e" .
    with assms(1) x(1) show thesis
      by (intro that [of "e' # xs"]) (simp_all add: buf_inv_def contents_def)
  qed
  let ?b = "b\<lparr>extents := ys, buf_size := buf_size b + n\<rparr>"
  have c: "contents ?b = map Some (take (unat n) buf) @ contents b"
    using ys(3) by (simp add: contents_def)
  have "buf_inv ?b"
    using assms(1,5,6) c ys(2) by (simp add: buf_inv_def min_def add.commute)
  with ys(1) c show thesis
    by (intro that [of ?b]) (simp_all add: Buffer_prepend_def)
qed

subsection \<open>Reading\<close>

lemma ie_copyout_ok:
  assumes "ext_ok e" "k = min (unat n) (unat (readable e))"
  shows "ie_copyout out pos n e =
    (if pos + k \<le> length out
     then Inr (min n (readable e), take pos out @ take k (ext_bytes e) @ drop (pos + k) out)
     else Inl Write_Overflow)"
proof -
  note wf = ext_ok_wf [OF assms(1)]
  have len: "length (ext_data e) = unat (ext_size e)" using wf by (simp add: ext_wf_def)
  have "unat (min n (readable e)) = k" by (simp add: assms(2) unat_min_size)
  moreover have "k \<le> unat (readable e)" by (simp add: assms(2))
  then have "unat (read_offset e) + k \<le> length (ext_data e)"
    using ext_bytes_wf(3) [OF wf] ext_wf_read [OF wf] len by (simp add: word_le_nat_alt)
  ultimately show ?thesis
    using len by (auto simp: ie_copyout_def readable_def [symmetric] memread_def memwrite_def
      ext_bytes_wf(1) [OF wf])
qed

lemma read_loop_stop: "\<not> tot < n \<Longrightarrow> read_loop c n out pos tot sz xs = Inr (out, tot, sz, xs)"
  by (cases xs) simp_all

text \<open>One turn of the loop on an extent that fits into what was asked for.\<close>

lemma read_loop_whole:
  assumes ok: "ext_ok cur" and lt: "tot < n" and le: "readable cur \<le> n"
    and fit: "pos + unat (readable cur) \<le> length out"
  shows "read_loop c n out pos tot sz (cur # rest) =
    (let out' = take pos out @ ext_bytes cur @ drop (pos + unat (readable cur)) out;
         tot' = tot + readable cur; pos' = pos + unat (readable cur)
     in if c then read_loop c n out' pos' tot' (sz - readable cur) rest
        else bindE (read_loop c n out' pos' tot' sz rest) (\<lambda>(o', t', s', xs). Inr (o', t', s', cur # xs)))"
proof -
  have "unat (readable cur) = min (unat n) (unat (readable cur))"
    using le by (simp add: word_le_nat_alt)
  from ie_copyout_ok [OF ok this, of out pos] fit le
  have copy: "ie_copyout out pos n cur = Inr (readable cur,
      take pos out @ ext_bytes cur @ drop (pos + unat (readable cur)) out)"
    by (simp add: min_absorb2 length_ext_bytes [OF ok, symmetric])
  have "ie_consume (readable cur) cur = (0, skip (readable cur) cur)"
    by (simp add: ie_consume_def readable_def)
  with lt copy show ?thesis by (simp add: Let_def)
qed

declare read_loop.simps(2) [simp del]

text \<open>Everything fits: each extent is copied out whole.\<close>

lemma read_loop_all:
  assumes "\<forall>e \<in> set xs. ext_ok e" "unat tot + length (chain_bytes xs) \<le> unat n"
    "pos + length (chain_bytes xs) \<le> length out"
  shows "\<exists>ys. read_loop c n out pos tot sz xs =
      Inr (take pos out @ chain_bytes xs @ drop (pos + length (chain_bytes xs)) out,
           tot + of_nat (length (chain_bytes xs)),
           (if c then sz - of_nat (length (chain_bytes xs)) else sz), ys) \<and>
    (if c then chain_bytes ys = [] \<and> (\<forall>e \<in> set ys. ext_ok e) else ys = xs)"
  using assms
proof (induction xs arbitrary: tot pos out sz)
  case Nil
  then show ?case by simp
next
  case (Cons cur rest)
  then have ok: "ext_ok cur" and okr: "\<forall>e \<in> set rest. ext_ok e" by simp_all
  let ?k = "unat (readable cur)"
  let ?out = "take pos out @ ext_bytes cur @ drop (pos + ?k) out"
  let ?sz = "if c then sz - readable cur else sz"
  note len = length_ext_bytes [OF ok]
  show ?case
  proof (cases "tot < n")
    case False
    with Cons.prems(2) have "length (chain_bytes (cur # rest)) = 0"
      unfolding word_less_nat_alt by linarith
    with Cons.prems(1) False show ?thesis by (simp add: read_loop_stop)
  next
    case True
    have le: "readable cur \<le> n" and fit: "pos + ?k \<le> length out"
      using Cons.prems len by (simp_all add: word_le_nat_alt)
    have "unat (tot + readable cur) = unat tot + ?k"
      using Cons.prems(2) len unat_size_bound [of n] by (intro unat_plus_size) simp
    then have room: "unat (tot + readable cur) + length (chain_bytes rest) \<le> unat n"
      "(pos + ?k) + length (chain_bytes rest) \<le> length ?out"
      using Cons.prems(2,3) len fit by simp_all
    have rb: "of_nat (length (ext_bytes cur)) = readable cur" by (simp add: len)
    from Cons.IH [OF okr room, of ?sz] read_loop_whole [OF ok True le fit, of c sz rest]
    show ?thesis
      using fit len Cons.prems(1) by (cases c) (auto simp: Let_def rb ac_simps diff_diff_eq)
  qed
qed

text \<open>The first extent holds all that was asked for.\<close>

lemma read_loop_first:
  assumes "ext_ok cur" "\<forall>e \<in> set rest. ext_ok e" "unat n \<le> unat (readable cur)" "unat n \<le> length out"
  shows "\<exists>ys. read_loop c n out 0 0 sz (cur # rest) =
      Inr (take (unat n) (ext_bytes cur) @ drop (unat n) out, n, (if c then sz - n else sz), ys) \<and>
    (if c then chain_bytes ys = drop (unat n) (chain_bytes (cur # rest)) \<and> (\<forall>e \<in> set ys. ext_ok e)
     else ys = cur # rest)"
proof (cases "n = 0")
  case True
  with assms(1,2) show ?thesis by (simp add: read_loop_stop)
next
  case False
  have le: "n \<le> readable cur" using assms(3) by (simp add: word_le_nat_alt)
  from assms(3) have "unat n = min (unat n) (unat (readable cur))" by simp
  from ie_copyout_ok [OF assms(1) this, of out 0] assms(4) le
  have copy: "ie_copyout out 0 n cur = Inr (n, take (unat n) (ext_bytes cur) @ drop (unat n) out)"
    by (simp add: min_absorb1)
  note cons = ext_ok_consume [OF assms(1,3)]
  note len = length_ext_bytes [OF assms(1)]
  have "readable cur - n = 0 \<Longrightarrow> drop (unat n) (ext_bytes cur) = []" using len by simp
  then show ?thesis
    using False copy cons assms(2,3) len
    by (cases c; cases "readable cur - n = 0") (simp_all add: word_gt_0 read_loop_stop read_loop.simps(2))
qed

text \<open>
  The requests that \<open>read\<close> and \<open>peek\<close> serve: all the buffered bytes, or no more than the first
  extent holds.
\<close>

definition read_fits :: "size_t \<Rightarrow> BufferImpl \<Rightarrow> bool" where
  "read_fits n b \<longleftrightarrow> length (contents b) \<le> unat n \<or>
     extents b \<noteq> [] \<and> unat n \<le> unat (readable (hd (extents b)))"

lemma contents_update [simp]: "contents (b\<lparr>extents := xs, buf_size := s\<rparr>) = chain_bytes xs"
  by (simp add: contents_def)

lemma read_internal_ok:
  assumes inv: "buf_inv b" and fits: "read_fits n b" and len: "unat n \<le> length out"
  shows "\<exists>b'. read_internal c out n b =
      Inr (take (unat n) (contents b) @ drop (min (unat n) (length (contents b))) out,
           of_nat (min (unat n) (length (contents b))), b') \<and>
    (if c then buf_inv b' \<and> contents b' = drop (unat n) (contents b) else b' = b)"
proof -
  let ?k = "min (unat n) (length (contents b))"
  have ok: "\<forall>e \<in> set (extents b). ext_ok e" and sz: "length (contents b) < 2 ^ 64"
    using inv by (simp_all add: buf_inv_def)
  have "\<exists>ys. read_loop c n out 0 0 (buf_size b) (extents b) =
      Inr (take (unat n) (contents b) @ drop ?k out, of_nat ?k,
        (if c then buf_size b - of_nat ?k else buf_size b), ys) \<and>
    (if c then chain_bytes ys = drop (unat n) (contents b) \<and> (\<forall>e \<in> set ys. ext_ok e)
     else ys = extents b)"
  proof (cases "length (contents b) \<le> unat n")
    case True
    then show ?thesis
      using read_loop_all [OF ok, of 0 n 0 out c "buf_size b"] len
      by (cases c) (simp_all add: contents_def min_absorb2)
  next
    case False
    then obtain cur rest where e: "extents b = cur # rest" "unat n \<le> unat (readable cur)"
      using fits by (cases "extents b") (auto simp: read_fits_def contents_def)
    with ok have "ext_ok cur" "\<forall>e \<in> set rest. ext_ok e" by simp_all
    from read_loop_first [OF this e(2) len, of c "buf_size b"] length_ext_bytes [OF this(1)] False e
    show ?thesis by (cases c) (simp_all add: contents_def min_absorb1)
  qed
  then obtain ys where ys: "read_loop c n out 0 0 (buf_size b) (extents b) =
      Inr (take (unat n) (contents b) @ drop ?k out, of_nat ?k,
        (if c then buf_size b - of_nat ?k else buf_size b), ys)"
    "if c then chain_bytes ys = drop (unat n) (contents b) \<and> (\<forall>e \<in> set ys. ext_ok e)
     else ys = extents b" by blast
  have "c \<Longrightarrow> buf_inv (b\<lparr>extents := ys, buf_size := buf_size b - of_nat ?k\<rparr>)"
    using ys(2) sz by (simp add: buf_inv_def [of "_\<lparr>extents := ys, buf_size := _\<rparr>"] buf_size_drop [OF inv])
  with ys show ?thesis
    by (cases c) (simp_all add: read_internal_def)
qed

text \<open>Any other request is served from two extents and overruns the caller's array.\<close>

lemma read_internal_overrun:
  assumes "extents b = e1 # e2 # rest" "ext_ok e1" "ext_ok e2" "length out = unat n"
    "0 < readable e1" "readable e1 < n" "unat n < unat (readable e1) + unat (readable e2)"
  shows "read_internal c out n b = Inl Write_Overflow"
proof -
  let ?k = "unat (readable e1)"
  let ?out = "take 0 out @ ext_bytes e1 @ drop (0 + ?k) out"
  have lt: "0 < n" and le: "readable e1 \<le> n" using assms(5,6) by auto
  have k: "?k < unat n" "0 < ?k" using assms(5,6) by (simp_all add: word_less_nat_alt)
  have lo: "length ?out = unat n" using assms(4) length_ext_bytes [OF assms(2)] k by simp
  have "ie_copyout ?out ?k n e2 = Inl Write_Overflow"
    using ie_copyout_ok [OF assms(3) refl, of ?out ?k n] lo assms(7) k by simp
  then have "read_loop c n ?out ?k (readable e1) s (e2 # rest) = Inl Write_Overflow" for s
    using assms(6) by (simp add: read_loop.simps(2))
  then show ?thesis
    using read_loop_whole [OF assms(2) lt le, of 0 out c "buf_size b" "e2 # rest"] assms(1,4) k
    by (cases c) (simp_all add: read_internal_def Let_def)
qed

definition Extent_bytes :: "Extent \<Rightarrow> byte array" where
  "Extent_bytes x = take (unat (Extent_size x)) (Extent_data x)"

lemma Extent_bytes_make [simp]:
  "Extent_bytes \<lparr>Extent_size = k, Extent_data = d\<rparr> = take (unat k) d"
  by (simp add: Extent_bytes_def)

lemma peek_loop_ok:
  assumes "\<forall>e \<in> set xs. ext_ok e" "unat tot + length (chain_bytes xs) < 2 ^ 64"
  shows "concat (map Extent_bytes (peek_loop n tot xs)) = take (unat n - unat tot) (chain_bytes xs) \<and>
    (\<forall>x \<in> set (peek_loop n tot xs). 0 < Extent_size x \<and> unat (Extent_size x) \<le> length (Extent_data x))"
  using assms
proof (induction xs arbitrary: tot)
  case Nil
  then show ?case by simp
next
  case (Cons cur rest)
  then have ok: "ext_ok cur" by simp
  note len = length_ext_bytes [OF ok] and by1 = ext_bytes_wf(1) [OF ext_ok_wf [OF ok]]
  have plus: "unat (tot + readable cur) = unat tot + unat (readable cur)"
    using Cons.prems(2) len by (intro unat_plus_size) simp
  show ?case
  proof (cases "tot < n")
    case False
    then show ?thesis by (simp add: word_less_nat_alt)
  next
    case True
    then have m: "unat (min (readable cur) (n - tot)) = min (unat (readable cur)) (unat n - unat tot)"
      by (simp add: unat_min_size unat_sub)
    have IH: "concat (map Extent_bytes (peek_loop n (tot + readable cur) rest)) =
        take (unat n - (unat tot + unat (readable cur))) (chain_bytes rest)"
      "\<forall>x \<in> set (peek_loop n (tot + readable cur) rest).
        0 < Extent_size x \<and> unat (Extent_size x) \<le> length (Extent_data x)"
      using Cons.IH [of "tot + readable cur"] Cons.prems plus len by simp_all
    have pos: "0 < readable cur \<Longrightarrow> 0 < min (readable cur) (n - tot)"
      using True by (simp add: word_gt_0)
    show ?thesis
      using True IH m len by1 pos
      by (auto simp: Let_def word_gt_0 min_def)
  qed
qed

lemma peek_extents_ok:
  assumes "buf_inv b"
  shows "concat (map Extent_bytes (Buffer_peek_extents n b [])) = take (unat n) (contents b)"
    and "\<forall>x \<in> set (Buffer_peek_extents n b []). 0 < Extent_size x \<and>
      unat (Extent_size x) \<le> length (Extent_data x)"
  using assms peek_loop_ok [of "extents b" 0 n]
  by (simp_all add: Buffer_peek_extents_def buf_inv_def contents_def)

end
