(* ===== verification/Byte_Queue.thy ===== *)
theory Byte_Queue
  imports Buffer_Correct
begin

text \<open>
  What the streams rely on when they use a \<open>Buffer\<close>, as a locale, with the client lemmas of the
  write path (present the bytes, hand some of them to the kernel, drain as many); its
  interpretation on the model of \<open>src/src/buffer.cc\<close>; and the properties of the buffer.
\<close>

subsection \<open>The contract of a byte queue\<close>

text \<open>
  \<open>put_all\<close> appends strings one after the other; \<open>pump\<close> is the life of a buffer on the write path:
  each turn presents all bytes, the kernel takes some of them and as many are drained.
\<close>

fun put_all :: "(byte list \<Rightarrow> 'b \<Rightarrow> fault + 'b) \<Rightarrow> byte list list \<Rightarrow> 'b \<Rightarrow> fault + 'b" where
  "put_all put [] b = Inr b"
| "put_all put (s # ss) b = bindE (put s b) (put_all put ss)"

fun pump :: "(size_t \<Rightarrow> 'b \<Rightarrow> Extent list) \<Rightarrow> (size_t \<Rightarrow> 'b \<Rightarrow> 'b) \<Rightarrow> size_t list \<Rightarrow> 'b \<Rightarrow>
    byte array \<times> 'b" where
  "pump view drain [] b = ([], b)"
| "pump view drain (k # ks) b =
     (let sent = take (unat k) (concat (map Extent_bytes (view (- 1) b)));
          (rest, b') = pump view drain ks (drain k b)
      in (sent @ rest, b'))"

locale byte_queue =
  fixes good :: "'b \<Rightarrow> bool"
    and bytes :: "'b \<Rightarrow> byte array"
    and put :: "(size_t \<Rightarrow> bool) \<Rightarrow> byte list \<Rightarrow> 'b \<Rightarrow> fault + 'b"
    and drain :: "size_t \<Rightarrow> 'b \<Rightarrow> 'b"
    and view :: "size_t \<Rightarrow> 'b \<Rightarrow> Extent list"
  assumes bytes_bound: "good b \<Longrightarrow> length (bytes b) < 2 ^ 64"
    and put_law: "good b \<Longrightarrow> alloc_bounded alloc \<Longrightarrow> alloc (of_nat (length s)) \<Longrightarrow>
      length (bytes b) + length s < 2 ^ 64 \<Longrightarrow>
      \<exists>b'. put alloc s b = Inr b' \<and> good b' \<and> bytes b' = bytes b @ map Some s"
    and drain_good: "good b \<Longrightarrow> good (drain k b)"
    and drain_bytes: "good b \<Longrightarrow> bytes (drain k b) = drop (unat k) (bytes b)"
    and view_bytes: "good b \<Longrightarrow> concat (map Extent_bytes (view n b)) = take (unat n) (bytes b)"
begin

lemma view_max: "good b \<Longrightarrow> concat (map Extent_bytes (view (- 1) b)) = bytes b"
  using bytes_bound [of b] view_bytes [of b "- 1"] by simp

lemma put_all_bytes:
  assumes "good b" "alloc_bounded alloc" "\<forall>s \<in> set ss. alloc (of_nat (length s))"
    "length (bytes b) + length (concat ss) < 2 ^ 64"
  shows "\<exists>b'. put_all (put alloc) ss b = Inr b' \<and> good b' \<and> bytes b' = bytes b @ map Some (concat ss)"
  using assms
proof (induction ss arbitrary: b)
  case (Cons s ss)
  from put_law [of b alloc s] Cons.prems obtain b1 where
    b1: "put alloc s b = Inr b1" "good b1" "bytes b1 = bytes b @ map Some s" by auto
  from Cons.IH [OF b1(2)] Cons.prems b1(3) obtain b' where
    "put_all (put alloc) ss b1 = Inr b'" "good b'" "bytes b' = bytes b1 @ map Some (concat ss)" by auto
  with b1 show ?case by simp
qed simp

text \<open>
  Whatever the kernel takes at each turn, the bytes that were sent followed by the bytes that are
  left are the bytes the buffer had.
\<close>

lemma pump_bytes:
  assumes "good b"
  shows "good (snd (pump view drain ks b)) \<and>
    fst (pump view drain ks b) @ bytes (snd (pump view drain ks b)) = bytes b \<and>
    length (fst (pump view drain ks b)) = min (sum_list (map unat ks)) (length (bytes b))"
  using assms
proof (induction ks arbitrary: b)
  case (Cons k ks)
  obtain out b' where p: "pump view drain ks (drain k b) = (out, b')" by force
  from Cons.IH [OF drain_good [OF Cons.prems, of k]] p
  have ih: "good b'" "out @ bytes b' = drop (unat k) (bytes b)"
    "length out = min (sum_list (map unat ks)) (length (bytes b) - unat k)"
    by (simp_all add: drain_bytes [OF Cons.prems])
  have "take (unat k) (bytes b) @ out @ bytes b' = bytes b"
    unfolding ih(2) by (rule append_take_drop_id)
  then show ?case using ih(1,3) p view_max [OF Cons.prems] by (auto simp: Let_def)
qed simp

end

lemma buf_inv_bound: "buf_inv b \<Longrightarrow> length (contents b) < 2 ^ 64"
  by (simp add: buf_inv_def)

lemma append_string_ok:
  assumes "buf_inv b" "alloc_bounded alloc" "alloc (of_nat (length s))"
    "length (contents b) + length s < 2 ^ 64"
  shows "\<exists>b'. Buffer_append_string alloc s b = Inr b' \<and> buf_inv b' \<and>
    contents b' = contents b @ map Some s"
proof -
  have len: "unat (of_nat (length s) :: size_t) = length s"
    using assms(4) by (intro unat_of_nat_size) simp
  obtain b' where "Buffer_append alloc s (of_nat (length s)) b = Inr b'" "buf_inv b'"
    "contents b' = contents b @ map Some (take (unat (of_nat (length s) :: size_t)) s)"
    by (rule append_ok [OF assms(1,3,2), of s]) (use assms(4) len in simp_all)
  then show ?thesis by (simp add: Buffer_append_string_def len)
qed

interpretation bq: byte_queue buf_inv contents Buffer_append_string Buffer_drain
  "\<lambda>n b. Buffer_peek_extents n b []"
  by unfold_locales (simp_all only: buf_inv_bound append_string_ok drain_ok peek_extents_ok(1))

subsection \<open>Sequences of operations\<close>

text \<open>
  A client's calls, their effect on the model of the code, and their effect on the byte sequence
  that the buffer stands for. Each call yields the bytes it hands to the client; a read or a peek
  passes an array of exactly the size it asks for.
\<close>

datatype buf_op =
    B_Append "byte list"
  | B_Prepend "byte list"
  | B_Drain size_t
  | B_Read size_t
  | B_Peek size_t
  | B_View size_t
  | B_Reset

definition fetched :: "fault + byte array \<times> size_t \<times> BufferImpl \<Rightarrow> fault + byte array \<times> BufferImpl" where
  "fetched r = bindE r (\<lambda>(out, k, b). Inr (take (unat k) out, b))"

fun buf_exec :: "(size_t \<Rightarrow> bool) \<Rightarrow> buf_op \<Rightarrow> BufferImpl \<Rightarrow> fault + byte array \<times> BufferImpl" where
  "buf_exec alloc (B_Append s) b = bindE (Buffer_append_string alloc s b) (\<lambda>b'. Inr ([], b'))"
| "buf_exec alloc (B_Prepend s) b = bindE (Buffer_prepend_string alloc s b) (\<lambda>b'. Inr ([], b'))"
| "buf_exec alloc (B_Drain n) b = Inr ([], Buffer_drain n b)"
| "buf_exec alloc (B_Read n) b = fetched (Buffer_read (replicate (unat n) None) n b)"
| "buf_exec alloc (B_Peek n) b = fetched (Buffer_peek (replicate (unat n) None) n b)"
| "buf_exec alloc (B_View n) b = Inr (concat (map Extent_bytes (Buffer_peek_extents n b [])), b)"
| "buf_exec alloc B_Reset b = Inr ([], reset b)"

fun spec_exec :: "buf_op \<Rightarrow> byte array \<Rightarrow> byte array \<times> byte array" where
  "spec_exec (B_Append s) bs = ([], bs @ map Some s)"
| "spec_exec (B_Prepend s) bs = ([], map Some s @ bs)"
| "spec_exec (B_Drain n) bs = ([], drop (unat n) bs)"
| "spec_exec (B_Read n) bs = (take (unat n) bs, drop (unat n) bs)"
| "spec_exec (B_Peek n) bs = (take (unat n) bs, bs)"
| "spec_exec (B_View n) bs = (take (unat n) bs, bs)"
| "spec_exec B_Reset bs = ([], [])"

text \<open>The calls that the code serves: memory is available and, for two of them, the layout fits.\<close>

fun served :: "(size_t \<Rightarrow> bool) \<Rightarrow> buf_op \<Rightarrow> BufferImpl \<Rightarrow> bool" where
  "served alloc (B_Append s) b \<longleftrightarrow>
     alloc (of_nat (length s)) \<and> length (contents b) + length s < 2 ^ 64"
| "served alloc (B_Prepend s) b \<longleftrightarrow>
     alloc (of_nat (length s)) \<and> length (contents b) + length s < 2 ^ 64 \<and>
     prepend_room (of_nat (length s)) b"
| "served alloc (B_Read n) b \<longleftrightarrow> read_fits n b"
| "served alloc (B_Peek n) b \<longleftrightarrow> read_fits n b"
| "served alloc _ b \<longleftrightarrow> True"

fun buf_run :: "(size_t \<Rightarrow> bool) \<Rightarrow> buf_op list \<Rightarrow> BufferImpl \<Rightarrow> fault + byte array list \<times> BufferImpl" where
  "buf_run alloc [] b = Inr ([], b)"
| "buf_run alloc (op # ops) b = bindE (buf_exec alloc op b) (\<lambda>(out, b').
     bindE (buf_run alloc ops b') (\<lambda>(outs, b''). Inr (out # outs, b'')))"

fun spec_run :: "buf_op list \<Rightarrow> byte array \<Rightarrow> byte array list \<times> byte array" where
  "spec_run [] bs = ([], bs)"
| "spec_run (op # ops) bs =
     (let (out, bs') = spec_exec op bs; (outs, bs'') = spec_run ops bs' in (out # outs, bs''))"

fun all_served :: "(size_t \<Rightarrow> bool) \<Rightarrow> buf_op list \<Rightarrow> BufferImpl \<Rightarrow> bool" where
  "all_served alloc [] b \<longleftrightarrow> True"
| "all_served alloc (op # ops) b \<longleftrightarrow> served alloc op b \<and>
     (case buf_exec alloc op b of Inl _ \<Rightarrow> True | Inr (out, b') \<Rightarrow> all_served alloc ops b')"

lemma prepend_string_ok:
  assumes "buf_inv b" "alloc_bounded alloc" "alloc (of_nat (length s))"
    "length (contents b) + length s < 2 ^ 64" "prepend_room (of_nat (length s)) b"
  shows "\<exists>b'. Buffer_prepend_string alloc s b = Inr b' \<and> buf_inv b' \<and>
    contents b' = map Some s @ contents b"
proof -
  have len: "unat (of_nat (length s) :: size_t) = length s"
    using assms(4) by (intro unat_of_nat_size) simp
  obtain b' where "Buffer_prepend alloc s (of_nat (length s)) b = Inr b'" "buf_inv b'"
    "contents b' = map Some (take (unat (of_nat (length s) :: size_t)) s) @ contents b"
    by (rule prepend_ok [OF assms(1,5,3,2), of s]) (use assms(4) len in simp_all)
  then show ?thesis by (simp add: Buffer_prepend_string_def len)
qed

lemma fetched_ok:
  assumes "buf_inv b" "read_fits n b"
  shows "\<exists>b'. fetched (read_internal c (replicate (unat n) None) n b) = Inr (take (unat n) (contents b), b') \<and>
    (if c then buf_inv b' \<and> contents b' = drop (unat n) (contents b) else b' = b)"
proof -
  have "unat (of_nat (min (unat n) (length (contents b))) :: size_t) = min (unat n) (length (contents b))"
    using unat_size_bound [of n] by (intro unat_of_nat_size) simp
  with read_internal_ok [OF assms, of "replicate (unat n) None" c] show ?thesis
    by (cases c) (auto simp: fetched_def min_def)
qed

lemma buf_exec_ok:
  assumes "buf_inv b" "alloc_bounded alloc" "served alloc op b"
  shows "\<exists>out b'. buf_exec alloc op b = Inr (out, b') \<and> buf_inv b' \<and>
    spec_exec op (contents b) = (out, contents b')"
proof (cases op)
  case (B_Append s)
  then show ?thesis using append_string_ok [OF assms(1,2), of s] assms(3) by auto
next
  case (B_Prepend s)
  then show ?thesis using prepend_string_ok [OF assms(1,2), of s] assms(3) by auto
next
  case (B_Read n)
  then show ?thesis
    using fetched_ok [OF assms(1), of n True] assms(3) by (auto simp: Buffer_read_def)
next
  case (B_Peek n)
  then show ?thesis
    using fetched_ok [OF assms(1), of n False] assms by (auto simp: Buffer_peek_def)
qed (use assms in \<open>auto simp: drain_ok peek_extents_ok\<close>)

lemma buf_run_ok:
  assumes "buf_inv b" "alloc_bounded alloc" "all_served alloc ops b"
  shows "\<exists>outs b'. buf_run alloc ops b = Inr (outs, b') \<and> buf_inv b' \<and>
    spec_run ops (contents b) = (outs, contents b')"
  using assms
proof (induction ops arbitrary: b)
  case (Cons op ops)
  then have sv: "served alloc op b" by simp
  from buf_exec_ok [OF Cons.prems(1,2) sv] obtain out b1 where
    e: "buf_exec alloc op b = Inr (out, b1)" "buf_inv b1" "spec_exec op (contents b) = (out, contents b1)"
    by blast
  from Cons.prems(3) e(1) have "all_served alloc ops b1" by simp
  from Cons.IH [OF e(2) Cons.prems(2) this] e show ?case by auto
qed simp

subsection \<open>Properties\<close>

text \<open>An allocator that refuses requests above \<open>PTRDIFF_MAX\<close> and a buffer of two extents.\<close>

definition malloc_model :: "size_t \<Rightarrow> bool" where
  "malloc_model n \<longleftrightarrow> n < 2 ^ 63"

definition two_extents :: BufferImpl where
  "two_extents = \<lparr>extents = [
     \<lparr>ext_size = 3, ext_data = map Some ''foo'', read_offset = 1, write_offset = 3\<rparr>,
     \<lparr>ext_size = 4, ext_data = map Some ''barb'', read_offset = 0, write_offset = 4\<rparr>], buf_size = 6\<rparr>"

lemma size_max_facts [simp]: "\<not> (- 1 :: size_t) \<le> 1" "0 < (- 1 :: size_t)"
  by (simp_all add: word_le_nat_alt word_less_nat_alt)

text \<open>Evaluation of the buffer operations on concrete buffers.\<close>

lemmas buf_eval = two_extents_def malloc_model_def
  Buffer_append_string_def Buffer_append_def append_loop.simps
  append_node_def new_extent_def BufferImpl_init_def ie_append_def memread_def memwrite_def
  Let_def ie_consume_def contents_def chain_bytes_def ext_bytes_def readable_def appendable_def
  Buffer_drain_def drain_loop.simps(2) Buffer_prepend_string_def Buffer_prepend_def
  prepend_loop.simps prepend_step_def prependable_def ie_prepend_def read_fits_def buf_inv_def
  ext_ok_def ext_full_def ext_wf_def min_def

lemma malloc_model_bounded: "alloc_bounded malloc_model"
  by (simp add: alloc_bounded_def malloc_model_def word_less_nat_alt)

lemma two_extents_ok: "buf_inv two_extents" "contents two_extents = map Some ''oobarb''"
  by (simp_all add: buf_eval)

text \<open>C10: The buffer refines a byte sequence. For every sequence of append, prepend, drain, read, peek,
  extent peek and reset calls that the buffer serves, started in any state that satisfies the
  invariant, no call faults, each hands out exactly the bytes that the specification on byte
  sequences hands out, and the buffer ends with the invariant and the specified contents.\<close>

theorem buffer_refines_bytes:
  assumes "buf_inv b" and "alloc_bounded alloc" and "all_served alloc ops b"
  shows "\<exists>outs b'. buf_run alloc ops b = Inr (outs, b') \<and> buf_inv b' \<and>
    spec_run ops (contents b) = (outs, contents b')"
  using assms by (rule buf_run_ok)

theorem buffer_refines_bytes_witness:
  "\<exists>outs b'. buf_run malloc_model [B_Drain 4, B_Append ''xy'', B_Read 9] two_extents = Inr (outs, b') \<and>
     buf_inv b' \<and> ([[], [], map Some ''rbxy''], []) = (outs, contents b')"
proof -
  let ?e = "\<lparr>ext_size = 4, ext_data = map Some ''barb'', read_offset = 2, write_offset = 4\<rparr>"
  let ?x = "\<lparr>ext_size = 2, ext_data = map Some ''xy'', read_offset = 0, write_offset = 2\<rparr>"
  have "buf_exec malloc_model (B_Drain 4) two_extents = Inr ([], \<lparr>extents = [?e], buf_size = 2\<rparr>)"
    by (simp add: buf_eval)
  moreover have "served malloc_model (B_Append ''xy'') \<lparr>extents = [?e], buf_size = 2\<rparr>" by (simp add: buf_eval)
  moreover have "buf_exec malloc_model (B_Append ''xy'') \<lparr>extents = [?e], buf_size = 2\<rparr> =
    Inr ([], \<lparr>extents = [?e, ?x], buf_size = 4\<rparr>)" by (simp add: buf_eval)
  moreover have "served malloc_model (B_Read 9) \<lparr>extents = [?e, ?x], buf_size = 4\<rparr>" by (simp add: buf_eval)
  ultimately have "all_served malloc_model [B_Drain 4, B_Append ''xy'', B_Read 9] two_extents"
    by (simp split: sum.split)
  from buffer_refines_bytes [OF two_extents_ok(1) malloc_model_bounded this] show ?thesis
    by (simp add: two_extents_ok(2) del: buf_run.simps)
qed

text \<open>C26: Whatever \<open>append\<close> puts in, \<open>peek\<close> shows and
  \<open>drain\<close> takes out, in order. When strings are appended to a buffer, and the bytes are
  then presented as extents, sent in portions of any size and drained portion by portion, the bytes
  sent followed by the bytes left over are the previous contents followed by the strings; nothing is
  sent twice or skipped.\<close>

theorem buffer_append_then_pump:
  assumes "buf_inv b" and "alloc_bounded alloc" and "\<forall>s \<in> set ss. alloc (of_nat (length s))"
    and "length (contents b) + length (concat ss) < 2 ^ 64"
  shows "\<exists>b' sent b''. put_all (Buffer_append_string alloc) ss b = Inr b' \<and>
    pump (\<lambda>n b. Buffer_peek_extents n b []) Buffer_drain ks b' = (sent, b'') \<and> buf_inv b'' \<and>
    sent @ contents b'' = contents b @ map Some (concat ss) \<and>
    length sent = min (sum_list (map unat ks)) (length (contents b) + length (concat ss))"
proof -
  from bq.put_all_bytes [OF assms] obtain b' where b': "put_all (Buffer_append_string alloc) ss b = Inr b'"
    "buf_inv b'" "contents b' = contents b @ map Some (concat ss)" by blast
  with bq.pump_bytes [OF b'(2), of ks] show ?thesis by (auto simp: prod_eq_iff)
qed

theorem buffer_append_then_pump_witness:
  "\<exists>b' sent b''. put_all (Buffer_append_string malloc_model) [''ab'', ''cde''] two_extents = Inr b' \<and>
    pump (\<lambda>n b. Buffer_peek_extents n b []) Buffer_drain [3, 0, 4] b' = (sent, b'') \<and> buf_inv b'' \<and>
    sent @ contents b'' = map Some ''oobarbabcde'' \<and> length sent = length ''oobarba''"
proof -
  have "\<forall>s \<in> set [''ab'', ''cde'']. malloc_model (of_nat (length s))" by (simp add: buf_eval)
  then show ?thesis
    using buffer_append_then_pump [OF two_extents_ok(1) malloc_model_bounded, of "[''ab'', ''cde'']" "[3, 0, 4]"]
    by (simp add: two_extents_ok(2) del: put_all.simps pump.simps)
qed

text \<open>C36: Splicing conserves bytes. \<open>append(Buffer*)\<close> and
  \<open>prepend(Buffer*)\<close> move all extents of the other buffer behind, respectively in front
  of, this buffer's bytes without copying, keep both invariants, and leave the other buffer empty
  and reusable.\<close>

theorem buffer_splice:
  assumes "buf_inv b" and "buf_inv x" and "length (contents b) + length (contents x) < 2 ^ 64"
  shows "(case Buffer_append_buffer b x of (b', x') \<Rightarrow>
      buf_inv b' \<and> contents b' = contents b @ contents x \<and> buf_inv x' \<and> list_empty x') \<and>
    (case Buffer_prepend_buffer b x of (b', x') \<Rightarrow>
      buf_inv b' \<and> contents b' = contents x @ contents b \<and> buf_inv x' \<and> list_empty x')"
  using append_buffer_ok [OF assms] prepend_buffer_ok [OF assms] by (auto split: prod.split)

theorem buffer_splice_witness:
  "(case Buffer_append_buffer two_extents two_extents of (b', x') \<Rightarrow>
      buf_inv b' \<and> contents b' = map Some ''oobarboobarb'' \<and> buf_inv x' \<and> list_empty x')"
  using buffer_splice [OF two_extents_ok(1) two_extents_ok(1)]
  by (simp add: two_extents_ok(2) split: prod.splits)

text \<open>An allocation failure is clean. When the allocator refuses the space for the appended
  bytes, \<open>append\<close> ends in \<open>std::bad_alloc\<close> before it has touched memory, and for a request the
  allocator grants it never faults.\<close>

theorem buffer_append_alloc:
  assumes "buf_inv b" and "alloc_bounded alloc" and "length (contents b) + length s < 2 ^ 64"
  shows "if alloc (of_nat (length s))
    then \<exists>b'. Buffer_append_string alloc s b = Inr b' \<and> buf_inv b' \<and> contents b' = contents b @ map Some s
    else Buffer_append_string alloc s b = Inl Bad_Alloc"
  using append_string_ok [OF assms(1,2) _ assms(3)] append_bad_alloc [OF assms(1)]
  by (simp add: Buffer_append_string_def)

theorem buffer_append_alloc_witness:
  "Buffer_append_string (\<lambda>n. n < 2) ''xyz'' two_extents = Inl Bad_Alloc"
proof -
  have "alloc_bounded (\<lambda>n. n < 2)" by (simp add: alloc_bounded_def word_less_nat_alt)
  from buffer_append_alloc [OF two_extents_ok(1) this, of "''xyz''"] show ?thesis
    by (simp add: two_extents_ok(2))
qed

text \<open>Reserving and filling. After \<open>reserve(n)\<close> the byte count is unchanged, and an \<open>append\<close> of exactly
  \<open>n\<close> bytes is then served from the reserved extent and restores the invariant.\<close>

theorem buffer_reserve_append:
  assumes "buf_inv b" and "alloc n" and "alloc_bounded alloc" and "0 < n" and "unat n \<le> length buf"
    and "length (contents b) + unat n < 2 ^ 64"
  shows "\<exists>b1 b2. Buffer_reserve alloc n b = Inr b1 \<and> buf_size b1 = buf_size b \<and>
    Buffer_append alloc buf n b1 = Inr b2 \<and> length (extents b2) = length (extents b1) \<and> buf_inv b2 \<and>
    contents b2 = contents b @ map Some (take (unat n) buf)"
proof -
  obtain b1 b2 where b: "Buffer_reserve alloc n b = Inr b1" "Buffer_append alloc buf n b1 = Inr b2"
    "buf_size b1 = buf_size b" "buf_inv b2" "contents b2 = contents b @ map Some (take (unat n) buf)"
    using reserve_append_ok [OF assms] .
  let ?e = "\<lparr>ext_size = n, ext_data = replicate (unat n) None, read_offset = 0, write_offset = 0\<rparr>"
  have "extents b1 = extents b @ [?e]" using b(1) reserve_ok [of b alloc n, OF assms(1,2,4)] by auto
  moreover have n: "unat n < 2 ^ 63" using assms(2,3) by (simp add: alloc_bounded_def)
  ultimately have "length (extents b2) = length (extents b1)"
    using b(2) append_reserved_ok [of b1 "extents b" ?e n buf alloc] assms(4,5)
    by (auto simp: ext_wf_def ext_full_def appendable_def)
  with b show ?thesis by blast
qed

theorem buffer_reserve_append_witness:
  "\<exists>b1 b2. Buffer_reserve malloc_model 5 two_extents = Inr b1 \<and>
    Buffer_append malloc_model ''12345'' 5 b1 = Inr b2 \<and> buf_inv b2 \<and>
    contents b2 = map Some ''oobarb12345''"
  using buffer_reserve_append [OF two_extents_ok(1), of malloc_model 5 "''12345''"] malloc_model_bounded
  by (auto simp: two_extents_ok(2) malloc_model_def)

text \<open>A read across extents overruns the caller's array. When the request is longer than the first
  extent and ends inside the second one, \<open>copyout\<close> is given the full request size again, copies
  the whole second extent, and \<open>read\<close> and \<open>peek\<close> write past the end of an array of the requested
  size.\<close>

theorem buffer_read_overrun:
  assumes "buf_inv b" and "extents b = e1 # e2 # rest" and "0 < readable e1" and "readable e1 < n"
    and "unat n < unat (readable e1) + unat (readable e2)" and "length out = unat n"
  shows "Buffer_read out n b = Inl Write_Overflow \<and> Buffer_peek out n b = Inl Write_Overflow"
  using assms read_internal_overrun [of b e1 e2 rest out n]
  by (simp add: Buffer_read_def Buffer_peek_def buf_inv_def)

theorem buffer_read_overrun_witness:
  "Buffer_read (replicate 5 None) 5 two_extents = Inl Write_Overflow"
  using buffer_read_overrun [OF two_extents_ok(1), of "hd (extents two_extents)"
    "extents two_extents ! 1" "[]" 5 "replicate 5 None"]
  by (simp add: two_extents_def readable_def)

text \<open>Appending more than was reserved overruns the extent. When the last extent has reserved
  space left and the appended string is longer than it, the reversed subtraction in
  \<open>InternalExtent::append\<close> makes the space look huge, and the copy runs past the allocation.\<close>

theorem buffer_append_past_reserve:
  assumes "buf_inv b" and "alloc n" and "alloc_bounded alloc" and "0 < n"
    and "n < of_nat (length s)" and "length s < 2 ^ 63"
  shows "\<exists>b'. Buffer_reserve alloc n b = Inr b' \<and> Buffer_append_string alloc s b' = Inl Write_Overflow"
proof -
  let ?e = "\<lparr>ext_size = n, ext_data = replicate (unat n) None, read_offset = 0, write_offset = 0\<rparr>"
  let ?b = "b\<lparr>extents := extents b @ [?e]\<rparr>"
  have len: "unat (of_nat (length s) :: size_t) = length s"
    using assms(6) by (intro unat_of_nat_size) simp
  have n: "unat n < 2 ^ 63" using assms(2,3) by (simp add: alloc_bounded_def)
  have "unat n < length s" using assms(5) len by (simp add: word_less_nat_alt)
  then have "Buffer_append alloc s (of_nat (length s)) ?b = Inl Write_Overflow"
    using assms(4,6) n len by (intro append_reserved) (auto simp: ext_wf_def ext_full_def appendable_def)
  with reserve_ok [of b alloc n, OF assms(1,2,4)] show ?thesis by (auto simp: Buffer_append_string_def)
qed

theorem buffer_append_past_reserve_witness:
  "\<exists>b'. Buffer_reserve malloc_model 2 two_extents = Inr b' \<and>
    Buffer_append_string malloc_model ''xyz'' b' = Inl Write_Overflow"
  using buffer_append_past_reserve [OF two_extents_ok(1), of malloc_model 2 "''xyz''"] malloc_model_bounded
  by (simp add: malloc_model_def)

text \<open>Reserving less than is already reserved fails. The size that \<open>reserve\<close> still needs is
  computed by an unsigned subtraction that wraps around, so the request ends in
  \<open>std::bad_alloc\<close> although the space is there.\<close>

theorem buffer_reserve_less_fails:
  assumes "buf_inv b" and "alloc m" and "alloc_bounded alloc" and "n < m"
  shows "\<exists>b'. Buffer_reserve alloc m b = Inr b' \<and> Buffer_reserve alloc n b' = Inl Bad_Alloc"
proof -
  let ?e = "\<lparr>ext_size = m, ext_data = replicate (unat m) None, read_offset = 0, write_offset = 0\<rparr>"
  let ?b = "b\<lparr>extents := extents b @ [?e]\<rparr>"
  have "0 < m" using assms(4) by (metis word_gt_0 not_less_zero word_neq_0_conv word_not_simps(1))
  moreover have "unat m < 2 ^ 63" using assms(2,3) by (simp add: alloc_bounded_def)
  then have "Buffer_reserve alloc n ?b = Inl Bad_Alloc"
    using assms(3,4) by (intro reserve_wraps [of _ "extents b" ?e]) (auto simp: ext_wf_def appendable_def)
  ultimately show ?thesis using reserve_ok [of b alloc m, OF assms(1,2)] by auto
qed

theorem buffer_reserve_less_fails_witness:
  "\<exists>b'. Buffer_reserve malloc_model 8 two_extents = Inr b' \<and> Buffer_reserve malloc_model 4 b' = Inl Bad_Alloc"
  using buffer_reserve_less_fails [OF two_extents_ok(1), of malloc_model 8 4] malloc_model_bounded
  by (simp add: malloc_model_def)

text \<open>Prepending into a partly drained extent scrambles the bytes. With one byte drained from
  \<open>foo\<close>, prepending \<open>xy\<close> yields \<open>xxoo\<close> where \<open>xyoo\<close> was asked for: the part that does not fit
  into the freed space is taken from the start of the string again.\<close>

theorem buffer_prepend_scrambles:
  "bindE (Buffer_append_string malloc_model ''foo'' BufferImpl_init) (\<lambda>b.
   bindE (Buffer_prepend_string malloc_model ''xy'' (Buffer_drain 1 b)) (\<lambda>b'.
   Inr (contents b'))) = Inr (map Some ''xxoo'')"
proof -
  let ?b = "\<lparr>extents = [\<lparr>ext_size = 3, ext_data = map Some ''foo'', read_offset = 1, write_offset = 3\<rparr>], buf_size = 2\<rparr>"
  have "bindE (Buffer_append_string malloc_model ''foo'' BufferImpl_init) (\<lambda>b. Inr (Buffer_drain 1 b)) = Inr ?b"
    by (simp add: buf_eval)
  moreover have "bindE (Buffer_prepend_string malloc_model ''xy'' ?b) (\<lambda>b'. Inr (contents b')) = Inr (map Some ''xxoo'')"
    by (simp add: buf_eval)
  ultimately show ?thesis by (auto simp: fault_simps)
qed

end
