(* ===== verification/Buffer_Types.thy ===== *)
theory Buffer_Types
  imports Byte_Queue
begin

text \<open>
  A type invariant of the buffers of \<open>src/src/buffer.cc\<close> that holds without the conditions of
  \<open>Buffer_Correct\<close>: with reserved space, for every argument, on the paths that overrun an array too.
\<close>

subsection \<open>Typed extents and permitted faults\<close>

text \<open>The offsets of an extent stay inside its allocation.\<close>

definition ext_typed :: "InternalExtent \<Rightarrow> bool" where
  "ext_typed e \<longleftrightarrow> length (ext_data e) = unat (ext_size e) \<and> read_offset e \<le> ext_size e \<and> write_offset e \<le> ext_size e"

definition buf_typed :: "BufferImpl \<Rightarrow> bool" where
  "buf_typed b \<longleftrightarrow> (\<forall>e \<in> set (extents b). ext_typed e)"

text \<open>A result that satisfies \<open>P\<close>, or a fault other than a read outside an allocation.\<close>

definition sound :: "('a \<Rightarrow> bool) \<Rightarrow> fault + 'a \<Rightarrow> bool" where
  "sound P m \<longleftrightarrow> (case m of Inl f \<Rightarrow> f = Bad_Alloc \<or> f = Write_Overflow | Inr x \<Rightarrow> P x)"

lemma sound_simps [simp]: "sound P (Inr x) = P x" "sound P (Inl f) \<longleftrightarrow> f = Bad_Alloc \<or> f = Write_Overflow"
  by (simp_all add: sound_def)

lemma sound_bind: "sound P m \<Longrightarrow> (\<And>x. m = Inr x \<Longrightarrow> P x \<Longrightarrow> sound Q (f x)) \<Longrightarrow> sound Q (bindE m f)"
  by (cases m) simp_all

lemma sound_mono: "sound P m \<Longrightarrow> (\<And>x. P x \<Longrightarrow> Q x) \<Longrightarrow> sound Q m"
  by (cases m) simp_all

lemma sound_read: "off + n \<le> length a \<Longrightarrow> sound (\<lambda>xs. length xs = n) (memread a off n)"
  by (simp add: memread_def)

lemma sound_write: "sound (\<lambda>d. length d = length a \<and> off + length xs \<le> length a) (memwrite a off xs)"
  by (simp add: memwrite_def)

subsection \<open>The operations on an extent\<close>

lemma new_extent_typed: "sound ext_typed (new_extent alloc n)"
  by (simp add: new_extent_def ext_typed_def)

lemma ie_append_typed:
  assumes "ext_typed e" "unat n \<le> length buf"
  shows "sound (\<lambda>(k, e'). ext_typed e' \<and> k \<le> n) (ie_append buf n e)"
proof -
  let ?k = "min (write_offset e - ext_size e) n"
  have k: "unat ?k \<le> length buf" using assms(2) by (simp add: unat_min_size)
  have "sound (\<lambda>(k, e'). ext_typed e' \<and> k \<le> n)
    (bindE (memread buf 0 (unat ?k)) (\<lambda>src. bindE (memwrite (ext_data e) (unat (write_offset e)) (map Some src)) (\<lambda>d.
      Inr (?k, e\<lparr>ext_data := d, write_offset := write_offset e + ?k\<rparr>))))"
  proof (rule sound_bind [OF sound_read], use k in simp, rule sound_bind [OF sound_write])
    fix src :: "byte list" and d :: "byte array"
    assume l: "length src = unat ?k" and d: "length d = length (ext_data e) \<and>
      unat (write_offset e) + length (map Some src) \<le> length (ext_data e)"
    then have w: "unat (write_offset e) + unat ?k \<le> unat (ext_size e)" using assms(1) by (simp add: ext_typed_def)
    then have "unat (write_offset e + ?k) = unat (write_offset e) + unat ?k"
      using unat_size_bound [of "ext_size e"] by (intro unat_plus_size) simp
    then have "write_offset e + ?k \<le> ext_size e" using w by (simp only: word_le_nat_alt)
    then show "sound (\<lambda>(k, e'). ext_typed e' \<and> k \<le> n) (Inr (?k, e\<lparr>ext_data := d, write_offset := write_offset e + ?k\<rparr>))"
      using assms(1) d by (simp add: ext_typed_def)
  qed
  then show ?thesis using assms(1) by (simp add: ie_append_def Let_def)
qed

lemma ie_prepend_typed:
  assumes "ext_typed e" "unat n \<le> length buf"
  shows "sound (\<lambda>(k, e'). ext_typed e' \<and> k \<le> n) (ie_prepend buf n e)"
proof -
  let ?k = "min (read_offset e) n"
  have k: "unat ?k \<le> length buf" using assms(2) by (simp add: unat_min_size)
  have "unat (read_offset e - ?k) = unat (read_offset e) - unat ?k" by (rule unat_sub) simp
  then have le: "read_offset e - ?k \<le> ext_size e" using assms(1) unfolding ext_typed_def word_le_nat_alt by linarith
  have "sound (\<lambda>(k, e'). ext_typed e' \<and> k \<le> n)
    (bindE (memread buf 0 (unat ?k)) (\<lambda>src. bindE (memwrite (ext_data e) 0 (map Some src)) (\<lambda>d.
      Inr (?k, e\<lparr>ext_data := d, read_offset := read_offset e - ?k\<rparr>))))"
    by (rule sound_bind [OF sound_read], use k in simp, rule sound_bind [OF sound_write])
      (use assms(1) le in \<open>simp add: ext_typed_def\<close>)
  then show ?thesis using assms(1) by (simp add: ie_prepend_def Let_def)
qed

lemma ie_copyout_typed:
  assumes "ext_typed e"
  shows "sound (\<lambda>(k, out'). k \<le> readable e \<and> k \<le> n) (ie_copyout out pos n e)"
proof -
  let ?k = "min n (ext_size e - read_offset e)"
  have "unat (ext_size e - read_offset e) = unat (ext_size e) - unat (read_offset e)"
    using assms by (simp add: ext_typed_def unat_sub)
  moreover have "unat ?k \<le> unat (ext_size e - read_offset e)" by (simp only: unat_min_size min.cobounded2)
  ultimately have "unat (read_offset e) + unat ?k \<le> length (ext_data e)"
    using assms unfolding ext_typed_def word_le_nat_alt by linarith
  note rd = sound_read [OF this]
  show ?thesis
    unfolding ie_copyout_def Let_def
    by (rule sound_bind [OF rd], rule sound_bind [OF sound_write]) (simp add: readable_def)
qed

lemma ie_consume_typed:
  assumes "ext_typed e" "n \<le> readable e"
  shows "ext_typed (snd (ie_consume n e))"
proof -
  have r: "unat (ext_size e - read_offset e) = unat (ext_size e) - unat (read_offset e)" "unat (read_offset e) \<le> unat (ext_size e)"
    using assms(1) by (simp_all add: ext_typed_def unat_sub word_le_nat_alt)
  then have s: "unat (read_offset e) + unat n \<le> unat (ext_size e)" using assms(2) by (simp add: readable_def word_le_nat_alt)
  then have "unat (read_offset e + n) = unat (read_offset e) + unat n"
    using unat_size_bound [of "ext_size e"] by (intro unat_plus_size) simp
  then show ?thesis using assms(1) s by (simp add: ie_consume_def ext_typed_def word_le_nat_alt)
qed

subsection \<open>The operations on a buffer\<close>

abbreviation chain_typed :: "InternalExtent list \<Rightarrow> bool" where
  "chain_typed xs \<equiv> \<forall>e \<in> set xs. ext_typed e"

lemma drain_loop_typed: "chain_typed xs \<Longrightarrow> chain_typed (snd (drain_loop n xs))"
proof (induction n xs rule: drain_loop.induct)
  case (2 remain cur rest)
  let ?c = "min remain (readable cur)"
  have t: "ext_typed (snd (ie_consume ?c cur))" using 2(3) by (intro ie_consume_typed) simp_all
  obtain r e where ce: "ie_consume ?c cur = (r, e)" by (cases "ie_consume ?c cur")
  have e: "ext_typed e" "chain_typed rest" "ext_typed cur" using t ce 2(3) by simp_all
  have ih1: "0 < remain \<Longrightarrow> r = 0 \<Longrightarrow> chain_typed (snd (drain_loop (remain - ?c) rest))"
    using 2(1) [OF _ refl ce [symmetric] refl _ e(2)] by blast
  have ih2: "0 < remain \<Longrightarrow> r \<noteq> 0 \<Longrightarrow> chain_typed (snd (drain_loop (remain - ?c) (e # rest)))"
    using 2(2) [OF _ refl ce [symmetric] refl] e by simp
  show ?case
  proof (cases "0 < remain")
    case True
    then have "drain_loop remain (cur # rest) =
        (if r = 0 then drain_loop (remain - ?c) rest else drain_loop (remain - ?c) (e # rest))"
      by (simp add: drain_loop.simps(2) ce Let_def)
    then show ?thesis using ih1 ih2 True by (cases "r = 0") simp_all
  next
    case False
    then show ?thesis using 2(3) by (simp add: drain_loop.simps(2))
  qed
qed simp

lemma append_loop_typed:
  "chain_typed xs \<Longrightarrow> unat remain \<le> length buf \<Longrightarrow> sound chain_typed (append_loop alloc buf n remain xs)"
proof (induction alloc buf n remain xs rule: append_loop.induct)
  case (1 alloc buf n remain xs)
  have node: "sound (\<lambda>ys. chain_typed ys \<and> ys \<noteq> []) (append_node alloc remain xs)"
    unfolding append_node_def using 1(2) new_extent_typed [of alloc remain]
    by (auto intro!: sound_bind [OF new_extent_typed])
  show ?case
  proof (subst append_loop.simps, rule sound_bind [OF node])
    fix ys
    assume y: "append_node alloc remain xs = Inr ys" "chain_typed ys \<and> ys \<noteq> []"
    then have ap: "sound (\<lambda>(k, e'). ext_typed e' \<and> k \<le> remain) (ie_append buf remain (last ys))"
      using 1(3) by (intro ie_append_typed) simp_all
    show "sound chain_typed (bindE (ie_append buf remain (last ys)) (\<lambda>(nwrite, cur).
       let zs = butlast ys @ [cur]; remain' = remain - nwrite in
       if remain' > n then append_loop alloc buf n remain' zs else Inr zs))"
    proof (rule sound_bind [OF ap])
      fix p
      assume p: "ie_append buf remain (last ys) = Inr p" "case p of (k, e') \<Rightarrow> ext_typed e' \<and> k \<le> remain"
      obtain k e where pe: "p = (k, e)" by (cases p)
      have zs: "chain_typed (butlast ys @ [e])" using y(2) p(2) pe by (auto dest: in_set_butlastD)
      have "unat (remain - k) \<le> unat remain" using p(2) pe by (simp add: unat_sub)
      then have "unat (remain - k) \<le> length buf" using 1(3) by simp
      with 1(1) [OF y(1) p(1) pe [symmetric] refl refl] zs
      show "sound chain_typed (case p of (nwrite, cur) \<Rightarrow> let zs = butlast ys @ [cur]; remain' = remain - nwrite in
         if remain' > n then append_loop alloc buf n remain' zs else Inr zs)"
        using pe by (simp add: Let_def)
    qed
  qed
qed

lemma prepend_step_typed:
  assumes "chain_typed xs" "unat remain \<le> length buf"
  shows "sound (\<lambda>(r, ys). chain_typed ys \<and> r \<le> remain) (prepend_step alloc buf remain xs)"
proof (cases "xs = [] \<or> prependable (hd xs) = 0")
  case True
  have "sound (\<lambda>(r, ys). chain_typed ys \<and> r \<le> remain) (bindE (ie_append buf remain cur) (\<lambda>(nwrite, cur').
      Inr (remain - nwrite, cur' # xs)))" if "ext_typed cur" for cur
    by (rule sound_bind [OF ie_append_typed [OF that assms(2)]]) (use assms(1) in \<open>auto simp: word_sub_le\<close>)
  then show ?thesis using True by (auto simp: prepend_step_def intro!: sound_bind [OF new_extent_typed])
next
  case False
  then have "ext_typed (hd xs)" using assms(1) by simp
  then show ?thesis using False
    by (auto simp: prepend_step_def word_sub_le dest: set_tl intro!: sound_bind [OF ie_prepend_typed [OF _ assms(2)]])
      (use assms(1) in \<open>auto dest: set_tl\<close>)
qed

lemma prepend_loop_typed:
  "chain_typed xs \<Longrightarrow> unat remain \<le> length buf \<Longrightarrow> sound chain_typed (prepend_loop alloc buf remain xs)"
proof (induction alloc buf remain xs rule: prepend_loop.induct)
  case (1 alloc buf remain xs)
  show ?case
  proof (subst prepend_loop.simps, rule sound_bind [OF prepend_step_typed [OF 1(2,3)]])
    fix p
    assume p: "prepend_step alloc buf remain xs = Inr p" "case p of (r, ys) \<Rightarrow> chain_typed ys \<and> r \<le> remain"
    obtain r ys where pe: "p = (r, ys)" by (cases p)
    have "unat r \<le> length buf" using p(2) pe 1(3) by (simp add: word_le_nat_alt)
    with 1(1) [OF p(1) pe [symmetric]] p(2) pe
    show "sound chain_typed (case p of (remain', ys) \<Rightarrow> if remain' > 0 then prepend_loop alloc buf remain' ys else Inr ys)"
      by simp
  qed
qed

lemma read_loop_typed:
  "chain_typed xs \<Longrightarrow> sound (\<lambda>(out, tot, sz, ys). chain_typed ys) (read_loop c n out pos tot sz xs)"
proof (induction c n out pos tot sz xs rule: read_loop.induct)
  case (2 consume n out pos tot sz cur rest)
  have cp: "sound (\<lambda>(k, out'). k \<le> readable cur \<and> k \<le> n) (ie_copyout out pos n cur)"
    using 2(3) by (intro ie_copyout_typed) simp
  show ?case
  proof (cases "tot < n")
    case True
    have "sound (\<lambda>(out, tot, sz, ys). chain_typed ys) (bindE (ie_copyout out pos n cur) (\<lambda>(tmpread, out').
          let tot' = tot + tmpread; pos' = pos + unat tmpread in
          if \<not> consume then
            bindE (read_loop consume n out' pos' tot' sz rest) (\<lambda>(o', t', s', xs).
              Inr (o', t', s', cur # xs))
          else
            let sz' = sz - tmpread; (remain, cur') = ie_consume tmpread cur in
            if remain = 0 then read_loop consume n out' pos' tot' sz' rest
            else Inr (out', tot', sz', cur' # rest)))"
    proof (rule sound_bind [OF cp], goal_cases)
      case (1 p)
      obtain k out' where p: "p = (k, out')" by (cases p)
      obtain r e where ce: "ie_consume k cur = (r, e)" by (cases "ie_consume k cur")
      have e: "ext_typed e" using ie_consume_typed [of cur k] 1(2) 2(3) p ce by simp
      have rest: "chain_typed rest" "ext_typed cur" using 2(3) by simp_all
      have ih1: "\<not> consume \<Longrightarrow> sound (\<lambda>(out, tot, sz, ys). chain_typed ys) (read_loop consume n out' (pos + unat k) (tot + k) sz rest)"
        using 2(1) [OF True 1(1) p [symmetric] refl refl _ rest(1)] by simp
      have ih2: "consume \<Longrightarrow> r = 0 \<Longrightarrow>
          sound (\<lambda>(out, tot, sz, ys). chain_typed ys) (read_loop consume n out' (pos + unat k) (tot + k) (sz - k) rest)"
        using 2(2) [OF True 1(1) p [symmetric] refl refl _ refl refl ce [symmetric] _ rest(1)] by simp
      have ih3: "\<not> consume \<Longrightarrow> sound (\<lambda>(out, tot, sz, ys). chain_typed ys)
          (bindE (read_loop consume n out' (pos + unat k) (tot + k) sz rest) (\<lambda>(o', t', s', xs). Inr (o', t', s', cur # xs)))"
        by (rule sound_bind [OF ih1]) (use rest in auto)
      show ?case using p ce e rest ih2 ih3 by (auto simp: Let_def)
    qed
    then show ?thesis by (simp only: read_loop.simps True if_True)
  qed (use 2(3) in \<open>simp add: read_loop.simps\<close>)
qed (simp add: read_loop.simps)

subsection \<open>Property\<close>

text \<open>All calls: those of \<open>buf_op\<close>, the two forms of \<open>reserve\<close>, and splicing another buffer.\<close>

datatype any_op =
    Call buf_op
  | Reserve size_t
  | Reserve_Extents size_t
  | Append_Buffer BufferImpl
  | Prepend_Buffer BufferImpl

fun any_exec :: "(size_t \<Rightarrow> bool) \<Rightarrow> any_op \<Rightarrow> BufferImpl \<Rightarrow> fault + BufferImpl" where
  "any_exec alloc (Call op) b = bindE (buf_exec alloc op b) (\<lambda>(out, b). Inr b)"
| "any_exec alloc (Reserve n) b = Buffer_reserve alloc n b"
| "any_exec alloc (Reserve_Extents n) b = bindE (Buffer_reserve_extents alloc n b []) (\<lambda>(b, es). Inr b)"
| "any_exec alloc (Append_Buffer b') b = Inr (fst (Buffer_append_buffer b b'))"
| "any_exec alloc (Prepend_Buffer b') b = Inr (fst (Buffer_prepend_buffer b b'))"

fun any_run :: "(size_t \<Rightarrow> bool) \<Rightarrow> any_op list \<Rightarrow> BufferImpl \<Rightarrow> fault + BufferImpl" where
  "any_run alloc [] b = Inr b"
| "any_run alloc (op # ops) b = bindE (any_exec alloc op b) (any_run alloc ops)"

fun op_typed :: "any_op \<Rightarrow> bool" where
  "op_typed (Append_Buffer b') = buf_typed b'"
| "op_typed (Prepend_Buffer b') = buf_typed b'"
| "op_typed op = True"

lemma unat_of_nat_le: "unat (of_nat n :: size_t) \<le> n"
  by (simp add: unat_of_nat)

lemma append_typed:
  "buf_typed b \<Longrightarrow> unat n \<le> length buf \<Longrightarrow> sound buf_typed (Buffer_append alloc buf n b)"
  unfolding Buffer_append_def buf_typed_def by (rule sound_bind [OF append_loop_typed]) simp_all

lemma prepend_typed:
  "buf_typed b \<Longrightarrow> unat n \<le> length buf \<Longrightarrow> sound buf_typed (Buffer_prepend alloc buf n b)"
  unfolding Buffer_prepend_def buf_typed_def by (rule sound_bind [OF prepend_loop_typed]) simp_all

lemma read_typed: "buf_typed b \<Longrightarrow> sound (\<lambda>(out, b). buf_typed b) (fetched (read_internal c out n b))"
  unfolding fetched_def read_internal_def bindE_assoc buf_typed_def
  by (rule sound_bind [OF read_loop_typed]) auto

lemma exec_typed: "buf_typed b \<Longrightarrow> sound (\<lambda>(out, b). buf_typed b) (buf_exec alloc op b)"
proof (cases op)
  case (B_Append s)
  assume "buf_typed b"
  show ?thesis unfolding B_Append buf_exec.simps Buffer_append_string_def
    by (rule sound_bind [OF append_typed [OF \<open>buf_typed b\<close> unat_of_nat_le]]) simp
next
  case (B_Prepend s)
  assume "buf_typed b"
  show ?thesis unfolding B_Prepend buf_exec.simps Buffer_prepend_string_def
    by (rule sound_bind [OF prepend_typed [OF \<open>buf_typed b\<close> unat_of_nat_le]]) simp
next
  case (B_Drain n)
  assume "buf_typed b"
  then show ?thesis using B_Drain drain_loop_typed [of "extents b" n]
    by (simp add: buf_typed_def Buffer_drain_def split: prod.split)
next
  case (B_Read n)
  assume "buf_typed b"
  then show ?thesis using B_Read read_typed by (simp add: Buffer_read_def)
next
  case (B_Peek n)
  assume "buf_typed b"
  then show ?thesis using B_Peek read_typed by (simp add: Buffer_peek_def)
qed (simp_all add: buf_typed_def reset_def)

lemma reserve_typed:
  assumes "buf_typed b"
  shows "sound buf_typed (Buffer_reserve alloc n b)" "sound (\<lambda>(b, es). buf_typed b) (Buffer_reserve_extents alloc n b vec)"
proof -
  have "sound buf_typed (bindE (new_extent alloc r) (\<lambda>cur. Inr (b\<lparr>extents := extents b @ [cur]\<rparr>)))" for r
    by (rule sound_bind [OF new_extent_typed]) (use assms in \<open>auto simp: buf_typed_def\<close>)
  then show "sound buf_typed (Buffer_reserve alloc n b)" using assms by (simp add: Buffer_reserve_def Let_def)
  have "sound (\<lambda>(b, es). buf_typed b) (bindE (new_extent alloc r) (\<lambda>cur. Inr (b\<lparr>extents := extents b @ [cur]\<rparr>,
      v cur)))" for r and v :: "InternalExtent \<Rightarrow> Extent list"
    by (rule sound_bind [OF new_extent_typed]) (use assms in \<open>auto simp: buf_typed_def\<close>)
  then show "sound (\<lambda>(b, es). buf_typed b) (Buffer_reserve_extents alloc n b vec)"
    using assms by (simp add: Buffer_reserve_extents_def Let_def split: prod.split)
qed

lemma any_exec_typed: "buf_typed b \<Longrightarrow> op_typed op \<Longrightarrow> sound buf_typed (any_exec alloc op b)"
proof (cases op)
  case (Call x)
  assume "buf_typed b"
  show ?thesis unfolding Call any_exec.simps by (rule sound_bind [OF exec_typed [OF \<open>buf_typed b\<close>]]) auto
next
  case (Reserve_Extents n)
  assume "buf_typed b"
  show ?thesis unfolding Reserve_Extents any_exec.simps
    by (rule sound_bind [OF reserve_typed(2) [OF \<open>buf_typed b\<close>]]) auto
qed (auto simp: reserve_typed buf_typed_def Buffer_append_buffer_def Buffer_prepend_buffer_def)

text \<open>C11: Buffers are type safe, except for one kind of fault. For every sequence of calls,
  with any arguments, on any buffer whose offsets are inside their allocations (a new buffer, or
  what any calls have made of one): each call leaves such a buffer, or throws
  \<open>std::bad_alloc\<close>, or writes past the end of an array; no call reads outside an
  allocation, and every call ends.\<close>

theorem buffer_type_sound:
  assumes "buf_typed b" and "\<forall>op \<in> set ops. op_typed op"
  shows "case any_run alloc ops b of Inl f \<Rightarrow> f = Bad_Alloc \<or> f = Write_Overflow | Inr b' \<Rightarrow> buf_typed b'"
proof -
  have "sound buf_typed (any_run alloc ops b)"
    using assms
  proof (induction ops arbitrary: b)
    case (Cons op ops)
    then show ?case by (auto intro!: sound_bind [OF any_exec_typed])
  qed simp
  then show ?thesis by (simp add: sound_def)
qed

theorem buffer_type_sound_witness:
  "case any_run malloc_model [Call (B_Append ''abc''), Reserve 9, Call (B_Append ''de''), Append_Buffer two_extents,
      Call (B_Drain 1), Call (B_Prepend ''x'')] BufferImpl_init of
     Inl f \<Rightarrow> f = Bad_Alloc \<or> f = Write_Overflow | Inr b' \<Rightarrow> buf_typed b'"
  by (rule buffer_type_sound)
    (auto simp: buf_typed_def BufferImpl_init_def two_extents_def ext_typed_def)

end
