(* ===== verification/Extent_List.thy ===== *)
theory Extent_List
  imports Buffer_Model
begin

text \<open>
  The circular doubly linked list of extents of \<open>src/src/buffer.cc\<close> at the level of its pointers:
  \<open>listAppend\<close>, \<open>listPrepend\<close>, the unlinking of \<open>drain\<close>, \<open>list_empty\<close> and \<open>reset\<close>. The
  sentinel \<open>head_\<close> is a node like the others. \<open>ring\<close> relates a heap of nodes to the list that
  \<open>Buffer_Model\<close> uses in its place, and the property says that the pointer operations do what the
  operations on that list do.
\<close>

type_synonym node = nat

record link =
  link_prev :: node
  link_next :: node

type_synonym links = "node \<rightharpoonup> link"

definition get_prev :: "node \<Rightarrow> links \<Rightarrow> fault + node" where
  "get_prev a m = (case m a of None \<Rightarrow> Inl Use_After_Free | Some l \<Rightarrow> Inr (link_prev l))"

definition get_next :: "node \<Rightarrow> links \<Rightarrow> fault + node" where
  "get_next a m = (case m a of None \<Rightarrow> Inl Use_After_Free | Some l \<Rightarrow> Inr (link_next l))"

definition set_prev :: "node \<Rightarrow> node \<Rightarrow> links \<Rightarrow> fault + links" where
  "set_prev a b m = (case m a of None \<Rightarrow> Inl Use_After_Free | Some l \<Rightarrow> Inr (m(a \<mapsto> l\<lparr>link_prev := b\<rparr>)))"

definition set_next :: "node \<Rightarrow> node \<Rightarrow> links \<Rightarrow> fault + links" where
  "set_next a b m = (case m a of None \<Rightarrow> Inl Use_After_Free | Some l \<Rightarrow> Inr (m(a \<mapsto> l\<lparr>link_next := b\<rparr>)))"

subsection \<open>The operations\<close>

definition listAppend :: "node \<Rightarrow> node \<Rightarrow> node \<Rightarrow> links \<Rightarrow> fault + links" where
  "listAppend head head2 tail m =
     bindE (get_prev head m) (\<lambda>p.
     bindE (set_prev head2 p m) (\<lambda>m.
     bindE (get_prev head2 m) (\<lambda>p.
     bindE (set_next p head2 m) (\<lambda>m.
     bindE (set_next tail head m) (\<lambda>m.
     bindE (get_next tail m) (\<lambda>n. set_prev n tail m))))))"

definition listPrepend :: "node \<Rightarrow> node \<Rightarrow> node \<Rightarrow> links \<Rightarrow> fault + links" where
  "listPrepend head head2 tail m =
     bindE (get_next head m) (\<lambda>n.
     bindE (set_next tail n m) (\<lambda>m.
     bindE (get_next tail m) (\<lambda>n.
     bindE (set_prev n tail m) (\<lambda>m.
     bindE (set_prev head2 head m) (\<lambda>m.
     bindE (get_prev head2 m) (\<lambda>p. set_next p head2 m))))))"

text \<open>\<open>list_empty\<close> reads \<open>head_.prev\<close>; \<open>reset\<close> writes both fields of \<open>head_\<close>.\<close>

definition head_empty :: "node \<Rightarrow> links \<Rightarrow> fault + bool" where
  "head_empty head m = bindE (get_prev head m) (\<lambda>p. Inr (p = head))"

definition head_reset :: "node \<Rightarrow> links \<Rightarrow> fault + links" where
  "head_reset head m = bindE (set_prev head head m) (\<lambda>m. set_next head head m)"

text \<open>\<open>drain\<close> removes a node and deletes it.\<close>

definition unlink :: "node \<Rightarrow> links \<Rightarrow> fault + links" where
  "unlink cur m =
     bindE (get_prev cur m) (\<lambda>p.
     bindE (get_next cur m) (\<lambda>n.
     bindE (set_next p n m) (\<lambda>m.
     bindE (get_next cur m) (\<lambda>n.
     bindE (get_prev cur m) (\<lambda>p.
     bindE (set_prev n p m) (\<lambda>m. Inr (m(cur := None))))))))"

text \<open>\<open>append(Buffer*)\<close> and \<open>prepend(Buffer*)\<close> on the lists of two buffers.\<close>

definition append_list :: "node \<Rightarrow> node \<Rightarrow> links \<Rightarrow> fault + links" where
  "append_list head o_head m =
     bindE (head_empty o_head m) (\<lambda>e.
     if e then Inr m
     else
       bindE (get_next o_head m) (\<lambda>n.
       bindE (get_prev o_head m) (\<lambda>p.
       bindE (listAppend head n p m) (\<lambda>m. head_reset o_head m))))"

definition prepend_list :: "node \<Rightarrow> node \<Rightarrow> links \<Rightarrow> fault + links" where
  "prepend_list head o_head m =
     bindE (head_empty o_head m) (\<lambda>e.
     if e then Inr m
     else
       bindE (get_next o_head m) (\<lambda>n.
       bindE (get_prev o_head m) (\<lambda>p.
       bindE (listPrepend head n p m) (\<lambda>m. head_reset o_head m))))"

subsection \<open>Rings\<close>

definition nx :: "links \<Rightarrow> node \<Rightarrow> node option" where
  "nx m a = map_option link_next (m a)"

definition pv :: "links \<Rightarrow> node \<Rightarrow> node option" where
  "pv m a = map_option link_prev (m a)"

fun linked_list :: "links \<Rightarrow> node list \<Rightarrow> bool" where
  "linked_list m [] \<longleftrightarrow> True"
| "linked_list m [a] \<longleftrightarrow> a \<in> dom m"
| "linked_list m (a # b # xs) \<longleftrightarrow> nx m a = Some b \<and> pv m b = Some a \<and> linked_list m (b # xs)"

definition ring :: "links \<Rightarrow> node \<Rightarrow> node list \<Rightarrow> bool" where
  "ring m h xs \<longleftrightarrow> distinct (h # xs) \<and> linked_list m (h # xs @ [h])"

lemma get_ok: "nx m a = Some b \<Longrightarrow> get_next a m = Inr b" "pv m a = Some b \<Longrightarrow> get_prev a m = Inr b"
  by (auto simp: get_next_def get_prev_def nx_def pv_def)

lemma nx_dom: "nx m a = Some b \<Longrightarrow> a \<in> dom m" "pv m a = Some b \<Longrightarrow> a \<in> dom m"
  by (auto simp: nx_def pv_def)

lemma set_next_ok:
  assumes "a \<in> dom m"
  shows "\<exists>m'. set_next a b m = Inr m' \<and> nx m' = (nx m)(a \<mapsto> b) \<and> pv m' = pv m \<and> dom m' = dom m"
proof -
  obtain l where l: "m a = Some l" using assms by auto
  let ?m = "m(a \<mapsto> l\<lparr>link_next := b\<rparr>)"
  have "set_next a b m = Inr ?m" "nx ?m = (nx m)(a \<mapsto> b)" "pv ?m = pv m" "dom ?m = dom m"
    using l by (auto simp: set_next_def nx_def pv_def fun_eq_iff)
  then show ?thesis by blast
qed

lemma set_prev_ok:
  assumes "a \<in> dom m"
  shows "\<exists>m'. set_prev a b m = Inr m' \<and> pv m' = (pv m)(a \<mapsto> b) \<and> nx m' = nx m \<and> dom m' = dom m"
proof -
  obtain l where l: "m a = Some l" using assms by auto
  let ?m = "m(a \<mapsto> l\<lparr>link_prev := b\<rparr>)"
  have "set_prev a b m = Inr ?m" "pv ?m = (pv m)(a \<mapsto> b)" "nx ?m = nx m" "dom ?m = dom m"
    using l by (auto simp: set_prev_def nx_def pv_def fun_eq_iff)
  then show ?thesis by blast
qed

lemma linked_append: "linked_list m (xs @ a # ys) \<longleftrightarrow> linked_list m (xs @ [a]) \<and> linked_list m (a # ys)"
proof (induction xs)
  case Nil
  then show ?case by (cases ys) (auto dest: nx_dom)
next
  case (Cons x xs)
  then show ?case by (cases xs) (auto dest: nx_dom)
qed

lemma linked_dom: "linked_list m xs \<Longrightarrow> set xs \<subseteq> dom m"
  by (induction m xs rule: linked_list.induct) (auto dest: nx_dom)

lemma linked_frame:
  "linked_list m xs \<Longrightarrow> (\<And>a. a \<in> set (butlast xs) \<Longrightarrow> nx m' a = nx m a) \<Longrightarrow>
   (\<And>a. a \<in> set (tl xs) \<Longrightarrow> pv m' a = pv m a) \<Longrightarrow> set xs \<subseteq> dom m' \<Longrightarrow> linked_list m' xs"
proof (induction m xs rule: linked_list.induct)
  case (3 m b c xs)
  then show ?case by (cases xs) auto
qed auto

text \<open>The chain \<open>y # ys @ [z]\<close> goes in between the neighbours \<open>a\<close> and \<open>b\<close>.\<close>

lemma linked_insert:
  assumes "linked_list m (us @ [a])" "linked_list m (b # vs)" "linked_list m ys" "ys \<noteq> []" "distinct ys"
    and "a \<notin> set us" "a \<notin> set (butlast (b # vs))" "b \<notin> set (tl (us @ [a]))" "b \<notin> set vs"
    and nx': "nx m' = (nx m)(a \<mapsto> hd ys, last ys \<mapsto> b)" and pv': "pv m' = (pv m)(hd ys \<mapsto> a, b \<mapsto> last ys)"
    and dom: "dom m' = dom m" and disj: "set (us @ [a]) \<inter> set ys = {}" "set (b # vs) \<inter> set ys = {}"
  shows "linked_list m' (us @ a # ys @ b # vs)"
proof -
  have d: "dom m \<subseteq> dom m'" using dom by simp
  obtain y0 ys' where y0: "ys = y0 # ys'" using assms(4) by (cases ys) auto
  obtain ws w where w: "ys = ws @ [w]" using assms(4) by (cases ys rule: rev_cases) auto
  have hd: "hd ys = y0" "last ys = w" by (simp add: y0, simp add: w)
  have in_ys: "y0 \<in> set ys" "w \<in> set ys" by (simp add: y0, simp add: w)
  have ne: "y0 \<noteq> a" "w \<noteq> a" "y0 \<noteq> b" "w \<noteq> b" using in_ys disj by auto
  have 1: "linked_list m' (us @ [a])"
  proof (rule linked_frame [OF assms(1) _ _ subset_trans [OF linked_dom [OF assms(1)] d]])
    fix x
    show "x \<in> set (butlast (us @ [a])) \<Longrightarrow> nx m' x = nx m x"
      using assms(6) disj(1) in_ys by (auto simp: nx' hd)
    show "x \<in> set (tl (us @ [a])) \<Longrightarrow> pv m' x = pv m x"
      using assms(8) disj(1) in_ys set_tl [of x "us @ [a]"] by (auto simp: pv' hd)
  qed
  have 2: "linked_list m' (b # vs)"
  proof (rule linked_frame [OF assms(2) _ _ subset_trans [OF linked_dom [OF assms(2)] d]])
    fix x
    show "x \<in> set (butlast (b # vs)) \<Longrightarrow> nx m' x = nx m x"
      using assms(7) disj(2) in_ys in_set_butlastD [of x "b # vs"] by (auto simp: nx' hd)
    show "x \<in> set (tl (b # vs)) \<Longrightarrow> pv m' x = pv m x"
      using assms(9) disj(2) in_ys by (auto simp: pv' hd)
  qed
  have 3: "linked_list m' (ws @ [w])"
    unfolding w [symmetric]
  proof (rule linked_frame [OF assms(3) _ _ subset_trans [OF linked_dom [OF assms(3)] d]])
    fix x
    show "x \<in> set (butlast ys) \<Longrightarrow> nx m' x = nx m x" using assms(5) disj(1) in_set_butlastD [of x ys] w by (auto simp: nx' hd)
    show "x \<in> set (tl ys) \<Longrightarrow> pv m' x = pv m x" using assms(5) disj(2) set_tl [of x ys] y0 by (auto simp: pv' hd)
  qed
  have j: "nx m' a = Some y0" "pv m' y0 = Some a" "nx m' w = Some b" "pv m' b = Some w"
    using ne by (simp_all add: nx' pv' hd)
  have "linked_list m' (w # b # vs)" using j(3,4) 2 by simp
  with 3 linked_append [of m' ws w "b # vs"] have "linked_list m' (ys @ b # vs)" by (simp add: w)
  then have "linked_list m' (a # ys @ b # vs)" using j(1,2) by (simp add: y0)
  with 1 linked_append [of m' us a "ys @ b # vs"] show ?thesis by simp
qed

lemma ring_dom: "ring m h xs \<Longrightarrow> set (h # xs) \<subseteq> dom m"
  using linked_dom [of m "h # xs @ [h]"] by (auto simp: ring_def)

lemma ring_first: "ring m h xs \<Longrightarrow> nx m h = Some (hd (xs @ [h])) \<and> pv m (hd (xs @ [h])) = Some h"
  by (cases xs) (auto simp: ring_def)

lemma ring_split:
  assumes "ring m h xs" "h # xs = us @ [z]"
  shows "linked_list m (us @ [z])" "pv m h = Some z" "nx m z = Some h"
proof -
  have "h # xs @ [h] = us @ z # [h]" using assms(2) by (metis append.assoc append_Cons append_Nil)
  moreover have "linked_list m (h # xs @ [h])" using assms(1) by (simp add: ring_def)
  ultimately have "linked_list m (us @ z # [h])" by metis
  then show "linked_list m (us @ [z])" "pv m h = Some z" "nx m z = Some h" using linked_append [of m us z "[h]"] by auto
qed

text \<open>What \<open>listAppend\<close> and \<open>listPrepend\<close> do to the pointers.\<close>

lemma listAppend_ok:
  assumes "pv m h = Some p" "p \<in> dom m" "a \<in> dom m" "z \<in> dom m" "p \<noteq> z" "h \<noteq> a"
  shows "\<exists>m'. listAppend h a z m = Inr m' \<and> nx m' = (nx m)(p \<mapsto> a, z \<mapsto> h) \<and> pv m' = (pv m)(a \<mapsto> p, h \<mapsto> z) \<and>
    dom m' = dom m"
proof -
  from set_prev_ok [OF assms(3)] obtain m1 where
    m1: "set_prev a p m = Inr m1" "pv m1 = (pv m)(a \<mapsto> p)" "nx m1 = nx m" "dom m1 = dom m" by blast
  have "p \<in> dom m1" using m1(4) assms(2) by simp
  from set_next_ok [OF this] obtain m2 where
    m2: "set_next p a m1 = Inr m2" "nx m2 = (nx m1)(p \<mapsto> a)" "pv m2 = pv m1" "dom m2 = dom m1" by blast
  have "z \<in> dom m2" using m1(4) m2(4) assms(4) by simp
  from set_next_ok [OF this] obtain m3 where
    m3: "set_next z h m2 = Inr m3" "nx m3 = (nx m2)(z \<mapsto> h)" "pv m3 = pv m2" "dom m3 = dom m2" by blast
  have "h \<in> dom m3" using m1(4) m2(4) m3(4) nx_dom(2) [OF assms(1)] by simp
  from set_prev_ok [OF this] obtain m4 where
    m4: "set_prev h z m3 = Inr m4" "pv m4 = (pv m3)(h \<mapsto> z)" "nx m4 = nx m3" "dom m4 = dom m3" by blast
  have "get_prev h m = Inr p" "get_prev a m1 = Inr p" "get_next z m3 = Inr h"
    using assms(1) m1(2) m3(2) get_ok by simp_all
  then have "listAppend h a z m = Inr m4" by (simp add: listAppend_def m1(1) m2(1) m3(1) m4(1))
  then show ?thesis using m1(2-4) m2(2-4) m3(2-4) m4(2-4) by simp
qed

lemma listPrepend_ok:
  assumes "nx m h = Some n" "n \<in> dom m" "a \<in> dom m" "z \<in> dom m" "n \<noteq> a" "h \<noteq> z"
  shows "\<exists>m'. listPrepend h a z m = Inr m' \<and> nx m' = (nx m)(h \<mapsto> a, z \<mapsto> n) \<and> pv m' = (pv m)(a \<mapsto> h, n \<mapsto> z) \<and>
    dom m' = dom m"
proof -
  from set_next_ok [OF assms(4)] obtain m1 where
    m1: "set_next z n m = Inr m1" "nx m1 = (nx m)(z \<mapsto> n)" "pv m1 = pv m" "dom m1 = dom m" by blast
  have "n \<in> dom m1" using m1(4) assms(2) by simp
  from set_prev_ok [OF this] obtain m2 where
    m2: "set_prev n z m1 = Inr m2" "pv m2 = (pv m1)(n \<mapsto> z)" "nx m2 = nx m1" "dom m2 = dom m1" by blast
  have "a \<in> dom m2" using m1(4) m2(4) assms(3) by simp
  from set_prev_ok [OF this] obtain m3 where
    m3: "set_prev a h m2 = Inr m3" "pv m3 = (pv m2)(a \<mapsto> h)" "nx m3 = nx m2" "dom m3 = dom m2" by blast
  have "h \<in> dom m3" using m1(4) m2(4) m3(4) nx_dom(1) [OF assms(1)] by simp
  from set_next_ok [OF this] obtain m4 where
    m4: "set_next h a m3 = Inr m4" "nx m4 = (nx m3)(h \<mapsto> a)" "pv m4 = pv m3" "dom m4 = dom m3" by blast
  have "get_next h m = Inr n" "get_next z m1 = Inr n" "get_prev a m3 = Inr h"
    using assms(1) m1(2) m3(2) get_ok by simp_all
  then have "listPrepend h a z m = Inr m4" by (simp add: listPrepend_def m1(1) m2(1) m3(1) m4(1))
  moreover have "(nx m)(z \<mapsto> n, h \<mapsto> a) = (nx m)(h \<mapsto> a, z \<mapsto> n)" "(pv m)(n \<mapsto> z, a \<mapsto> h) = (pv m)(a \<mapsto> h, n \<mapsto> z)"
    using assms(5,6) by (auto simp: fun_upd_twist)
  ultimately show ?thesis using m1(2-4) m2(2-4) m3(2-4) m4(2-4) by simp
qed

lemma append_chain:
  assumes "ring m h xs" "linked_list m ys" "ys \<noteq> []" "distinct ys" "set (h # xs) \<inter> set ys = {}"
    and "h # xs = us @ [z]"
  shows "\<exists>m'. listAppend h (hd ys) (last ys) m = Inr m' \<and> ring m' h (xs @ ys) \<and>
    nx m' = (nx m)(z \<mapsto> hd ys, last ys \<mapsto> h) \<and> pv m' = (pv m)(hd ys \<mapsto> z, h \<mapsto> last ys) \<and> dom m' = dom m"
proof -
  have y: "hd ys \<in> set ys" "last ys \<in> set ys" using assms(3) by simp_all
  have z: "z \<in> set (h # xs)" unfolding assms(6) by simp
  have ne: "z \<noteq> last ys" "h \<noteq> hd ys" using assms(5) y z by auto
  have dm: "z \<in> dom m" "hd ys \<in> dom m" "last ys \<in> dom m"
    using z y ring_dom [OF assms(1)] linked_dom [OF assms(2)] by blast+
  note sp = ring_split [OF assms(1,6)]
  from listAppend_ok [OF sp(2) dm ne] obtain m' where
    m': "listAppend h (hd ys) (last ys) m = Inr m'" "nx m' = (nx m)(z \<mapsto> hd ys, last ys \<mapsto> h)"
    "pv m' = (pv m)(hd ys \<mapsto> z, h \<mapsto> last ys)" "dom m' = dom m" by blast
  have di: "distinct (us @ [z])" using assms(1) unfolding ring_def assms(6) [symmetric] by simp
  have tl: "tl (us @ [z]) = xs" unfolding assms(6) [symmetric] by simp
  have hy: "h \<notin> set ys" using assms(5) by simp
  have "linked_list m [h]" using ring_dom [OF assms(1)] by simp
  from linked_insert [OF sp(1) this assms(2-4) _ _ _ _ m'(2-4)] have "linked_list m' (us @ z # ys @ [h])"
    using di tl hy assms(1,5) unfolding assms(6) by (simp add: ring_def)
  moreover have "us @ z # ys @ [h] = h # (xs @ ys) @ [h]" using assms(6) by (metis append.assoc append_Cons append_Nil)
  moreover have "distinct (h # xs @ ys)" using assms(1,4,5) by (auto simp: ring_def)
  ultimately have "ring m' h (xs @ ys)" by (simp add: ring_def)
  then show ?thesis using m' by blast
qed

lemma prepend_chain:
  assumes "ring m h xs" "linked_list m ys" "ys \<noteq> []" "distinct ys" "set (h # xs) \<inter> set ys = {}"
    and "xs @ [h] = n # vs"
  shows "\<exists>m'. listPrepend h (hd ys) (last ys) m = Inr m' \<and> ring m' h (ys @ xs) \<and>
    nx m' = (nx m)(h \<mapsto> hd ys, last ys \<mapsto> n) \<and> pv m' = (pv m)(hd ys \<mapsto> h, n \<mapsto> last ys) \<and> dom m' = dom m"
proof -
  have y: "hd ys \<in> set ys" "last ys \<in> set ys" using assms(3) by simp_all
  have n: "n \<in> set (xs @ [h])" unfolding assms(6) by simp
  have ne: "n \<noteq> hd ys" "h \<noteq> last ys" using assms(5) y n by auto
  have dm: "n \<in> dom m" "hd ys \<in> dom m" "last ys \<in> dom m"
    using n y ring_dom [OF assms(1)] linked_dom [OF assms(2)] by auto
  have ll: "linked_list m (h # n # vs)" using assms(1) unfolding ring_def assms(6) [symmetric] by simp
  from listPrepend_ok [of m h n, OF _ dm ne] ll obtain m' where
    m': "listPrepend h (hd ys) (last ys) m = Inr m'" "nx m' = (nx m)(h \<mapsto> hd ys, last ys \<mapsto> n)"
    "pv m' = (pv m)(hd ys \<mapsto> h, n \<mapsto> last ys)" "dom m' = dom m" by auto
  have "distinct (n # vs)" using assms(1) unfolding ring_def assms(6) [symmetric] by auto
  then have di: "n \<notin> set vs" by simp
  have bl: "butlast (n # vs) = xs" unfolding assms(6) [symmetric] by simp
  have "linked_list m ([] @ [h])" "linked_list m (n # vs)" using ring_dom [OF assms(1)] ll by simp_all
  from linked_insert [OF this assms(2-4) _ _ _ _ m'(2-4)] have "linked_list m' (h # ys @ n # vs)"
    using di bl assms(1,5) di unfolding assms(6) [symmetric] by (simp add: ring_def)
  then have "linked_list m' (h # ys @ xs @ [h])" unfolding assms(6) .
  moreover have "distinct (h # ys @ xs)" using assms(1,4,5) by (auto simp: ring_def)
  ultimately have "ring m' h (ys @ xs)" by (simp add: ring_def)
  then show ?thesis using m' by blast
qed

lemma ring_frame:
  assumes "ring m h xs" "\<And>a. a \<in> set (h # xs) \<Longrightarrow> nx m' a = nx m a \<and> pv m' a = pv m a" "set (h # xs) \<subseteq> dom m'"
  shows "ring m' h xs"
proof -
  have "linked_list m' (h # xs @ [h])"
  proof (rule linked_frame)
    show "linked_list m (h # xs @ [h])" using assms(1) by (simp add: ring_def)
  qed (use assms(2,3) in \<open>auto simp: butlast_append split: if_splits\<close>)
  then show ?thesis using assms(1) by (simp add: ring_def)
qed

lemma linked_delete:
  assumes "linked_list m xs" "x \<notin> set xs"
  shows "linked_list (m(x := None)) xs"
proof (rule linked_frame [OF assms(1)])
  show "set xs \<subseteq> dom (m(x := None))" using linked_dom [OF assms(1)] assms(2) by auto
qed (use assms(2) in \<open>auto simp: nx_def pv_def dest: in_set_butlastD set_tl\<close>)

lemma unlink_ok:
  assumes "ring m h (x # xs)" "xs @ [h] = n # vs"
  shows "\<exists>m'. unlink x m = Inr m' \<and> ring m' h xs \<and> nx m' = (nx m)(h \<mapsto> n, x := None) \<and>
    pv m' = (pv m)(n \<mapsto> h, x := None) \<and> dom m' = dom m - {x}"
proof -
  have r: "pv m x = Some h" "nx m x = Some n" "linked_list m (n # vs)" "h \<noteq> x" "x \<notin> set xs" "distinct (h # xs)"
    using assms(1) unfolding assms(2) [symmetric] by (auto simp: ring_def assms(2))
  have n: "n \<in> set (xs @ [h])" unfolding assms(2) by simp
  then have "n \<noteq> x" using r(4,5) by auto
  have dm: "h \<in> dom m" "n \<in> dom m" using ring_dom [OF assms(1)] n by auto
  from set_next_ok [OF dm(1)] obtain m1 where
    m1: "set_next h n m = Inr m1" "nx m1 = (nx m)(h \<mapsto> n)" "pv m1 = pv m" "dom m1 = dom m" by blast
  have "n \<in> dom m1" using m1(4) dm(2) by simp
  from set_prev_ok [OF this] obtain m2 where
    m2: "set_prev n h m1 = Inr m2" "pv m2 = (pv m1)(n \<mapsto> h)" "nx m2 = nx m1" "dom m2 = dom m1" by blast
  have "get_prev x m = Inr h" "get_next x m = Inr n" "get_next x m1 = Inr n" "get_prev x m1 = Inr h"
    using r(1,2,4) m1(2,3) get_ok by simp_all
  then have u: "unlink x m = Inr (m2(x := None))" by (simp add: unlink_def m1(1) m2(1))
  have bl: "butlast (n # vs) = xs" unfolding assms(2) [symmetric] by simp
  have nv: "n \<notin> set vs \<or> vs = []"
  proof -
    have "distinct (xs @ [h])" using r(6) by auto
    then show ?thesis unfolding assms(2) by simp
  qed
  have "linked_list m2 (n # vs)"
  proof (rule linked_frame [OF r(3)])
    show "a \<in> set (butlast (n # vs)) \<Longrightarrow> nx m2 a = nx m a" for a
      using r(6) unfolding bl by (auto simp: m1(2) m2(3))
    show "a \<in> set (tl (n # vs)) \<Longrightarrow> pv m2 a = pv m a" for a using nv by (auto simp: m1(3) m2(2))
    show "set (n # vs) \<subseteq> dom m2" using linked_dom [OF r(3)] by (simp add: m1(4) m2(4))
  qed
  then have "linked_list m2 (h # n # vs)" by (simp add: m1(2) m2(2,3))
  then have "linked_list m2 (h # xs @ [h])" unfolding assms(2) .
  then have "linked_list (m2(x := None)) (h # xs @ [h])" using r(4,5) by (intro linked_delete) auto
  then have "ring (m2(x := None)) h xs" using r(6) by (simp add: ring_def)
  moreover have "nx (m2(x := None)) = (nx m)(h \<mapsto> n, x := None)" "pv (m2(x := None)) = (pv m)(n \<mapsto> h, x := None)"
    using m1 m2 by (auto simp: nx_def pv_def fun_eq_iff)
  ultimately show ?thesis using u m1(4) m2(4) by auto
qed

subsection \<open>The lists of two buffers\<close>

text \<open>
  The operations of a buffer on its list, with the new node where there is one; \<open>b\<close> chooses the
  buffer. \<open>new\<close> leaves the pointers null.
\<close>

datatype list_op =
    Push_Back bool node
  | Push_Front bool node
  | Pop_Front bool
  | Splice_Back bool
  | Splice_Front bool

definition new_node :: "node \<Rightarrow> links \<Rightarrow> links" where
  "new_node a m = m(a \<mapsto> \<lparr>link_prev = 0, link_next = 0\<rparr>)"

fun link_op :: "(bool \<Rightarrow> node) \<Rightarrow> list_op \<Rightarrow> links \<Rightarrow> fault + links" where
  "link_op h (Push_Back b a) m = listAppend (h b) a a (new_node a m)"
| "link_op h (Push_Front b a) m = listPrepend (h b) a a (new_node a m)"
| "link_op h (Pop_Front b) m = bindE (head_empty (h b) m) (\<lambda>e.
     if e then Inr m else bindE (get_next (h b) m) (\<lambda>cur. unlink cur m))"
| "link_op h (Splice_Back b) m = append_list (h b) (h (\<not> b)) m"
| "link_op h (Splice_Front b) m = prepend_list (h b) (h (\<not> b)) m"

fun seq_op :: "list_op \<Rightarrow> (bool \<Rightarrow> node list) \<Rightarrow> (bool \<Rightarrow> node list)" where
  "seq_op (Push_Back b a) L = L(b := L b @ [a])"
| "seq_op (Push_Front b a) L = L(b := a # L b)"
| "seq_op (Pop_Front b) L = L(b := tl (L b))"
| "seq_op (Splice_Back b) L = L(b := L b @ L (\<not> b), (\<not> b) := [])"
| "seq_op (Splice_Front b) L = L(b := L (\<not> b) @ L b, (\<not> b) := [])"

fun op_fresh :: "links \<Rightarrow> list_op \<Rightarrow> bool" where
  "op_fresh m (Push_Back b a) = (a \<notin> dom m)"
| "op_fresh m (Push_Front b a) = (a \<notin> dom m)"
| "op_fresh m op = True"

definition rings :: "(bool \<Rightarrow> node) \<Rightarrow> links \<Rightarrow> (bool \<Rightarrow> node list) \<Rightarrow> bool" where
  "rings h m L \<longleftrightarrow> (\<forall>b. ring m (h b) (L b) \<and> set (h b # L b) \<inter> set (h (\<not> b) # L (\<not> b)) = {})"

lemma ringsD:
  assumes "rings h m L"
  shows "ring m (h b) (L b)" "ring m (h (\<not> b)) (L (\<not> b))" "set (h b # L b) \<inter> set (h (\<not> b) # L (\<not> b)) = {}"
  using assms unfolding rings_def by blast+

lemma ringsI:
  assumes "ring m (h b) (L b)" "ring m (h (\<not> b)) (L (\<not> b))" "set (h b # L b) \<inter> set (h (\<not> b) # L (\<not> b)) = {}"
  shows "rings h m L"
  unfolding rings_def
proof
  fix c
  show "ring m (h c) (L c) \<and> set (h c # L c) \<inter> set (h (\<not> c) # L (\<not> c)) = {}"
  proof (cases "c = b")
    case True
    show ?thesis unfolding True using assms by blast
  next
    case False
    then have c: "c = (\<not> b)" "(\<not> c) = b" by auto
    show ?thesis unfolding c(2) unfolding c(1) using assms by (simp only: Int_commute conj_absorb simp_thms)
  qed
qed

lemma head_empty_ring: "ring m h xs \<Longrightarrow> head_empty h m = Inr (xs = [])"
proof -
  assume r: "ring m h xs"
  obtain us z where z: "h # xs = us @ [z]" by (metis list.distinct(1) rev_exhaust)
  have "h \<notin> set xs" using r by (simp add: ring_def)
  then have "(z = h) = (xs = [])" using z by (cases us) auto
  then show ?thesis using get_ok(2) [OF ring_split(2) [OF r z]] by (simp add: head_empty_def)
qed

lemma head_reset_ring:
  assumes "g \<in> dom m"
  shows "\<exists>m'. head_reset g m = Inr m' \<and> ring m' g [] \<and> nx m' = (nx m)(g \<mapsto> g) \<and> pv m' = (pv m)(g \<mapsto> g) \<and> dom m' = dom m"
proof -
  from set_prev_ok [OF assms] obtain m1 where
    m1: "set_prev g g m = Inr m1" "pv m1 = (pv m)(g \<mapsto> g)" "nx m1 = nx m" "dom m1 = dom m" by blast
  have "g \<in> dom m1" using m1(4) assms by simp
  from set_next_ok [OF this] obtain m2 where
    m2: "set_next g g m1 = Inr m2" "nx m2 = (nx m1)(g \<mapsto> g)" "pv m2 = pv m1" "dom m2 = dom m1" by blast
  have "ring m2 g []" using m1 m2 assms by (auto simp: ring_def)
  then show ?thesis using m1 m2 by (simp add: head_reset_def)
qed

lemma new_node_ring:
  assumes "ring m h xs" "a \<notin> dom m"
  shows "ring (new_node a m) h xs" "a \<notin> set (h # xs)"
proof -
  show a: "a \<notin> set (h # xs)" using ring_dom [OF assms(1)] assms(2) by blast
  show "ring (new_node a m) h xs"
    using ring_dom [OF assms(1)] a by (intro ring_frame [OF assms(1)]) (auto simp: new_node_def nx_def pv_def)
qed

lemma push_rings:
  assumes "rings h m L" "a \<notin> dom m"
  shows "\<exists>m'. listAppend (h b) a a (new_node a m) = Inr m' \<and> rings h m' (L(b := L b @ [a]))"
    and "\<exists>m'. listPrepend (h b) a a (new_node a m) = Inr m' \<and> rings h m' (L(b := a # L b))"
proof -
  let ?m = "new_node a m" and ?g = "h (\<not> b)"
  note r = ringsD [OF assms(1), of b]
  note n = new_node_ring [OF r(1) assms(2)] and n' = new_node_ring [OF r(2) assms(2)]
  have a: "linked_list ?m [a]" "[a] \<noteq> []" "distinct [a]" "set (h b # L b) \<inter> set [a] = {}"
    using n(2) by (auto simp: new_node_def)
  obtain us z where z: "h b # L b = us @ [z]" by (metis list.distinct(1) rev_exhaust)
  obtain y vs where v: "L b @ [h b] = y # vs" by (cases "L b @ [h b]") auto
  have zy: "z \<in> set (h b # L b)" "y \<in> set (h b # L b)" unfolding z using v by (simp, metis in_set_conv_decomp list.set_intros(1) rotate1.simps(2) set_rotate1 z)
  from append_chain [OF n(1) a z] obtain m' where
    m': "listAppend (h b) a a ?m = Inr m'" "ring m' (h b) (L b @ [a])" "nx m' = (nx ?m)(z \<mapsto> a, a \<mapsto> h b)"
    "pv m' = (pv ?m)(a \<mapsto> z, h b \<mapsto> a)" "dom m' = dom ?m" by auto
  have "ring m' ?g (L (\<not> b))"
    using r(3) zy n'(2) ring_dom [OF n'(1)] by (intro ring_frame [OF n'(1)]) (auto simp: m'(3-5))
  then have "rings h m' (L(b := L b @ [a]))" using m'(2) r(3) n(2) n'(2) by (intro ringsI [of m' h b]) auto
  with m'(1) show "\<exists>m'. listAppend (h b) a a ?m = Inr m' \<and> rings h m' (L(b := L b @ [a]))" by blast
  from prepend_chain [OF n(1) a v] obtain m' where
    m': "listPrepend (h b) a a ?m = Inr m'" "ring m' (h b) (a # L b)" "nx m' = (nx ?m)(h b \<mapsto> a, a \<mapsto> y)"
    "pv m' = (pv ?m)(a \<mapsto> h b, y \<mapsto> a)" "dom m' = dom ?m" by auto
  have "ring m' ?g (L (\<not> b))"
    using r(3) zy n'(2) ring_dom [OF n'(1)] by (intro ring_frame [OF n'(1)]) (auto simp: m'(3-5))
  then have "rings h m' (L(b := a # L b))" using m'(2) r(3) n(2) n'(2) by (intro ringsI [of m' h b]) auto
  with m'(1) show "\<exists>m'. listPrepend (h b) a a ?m = Inr m' \<and> rings h m' (L(b := a # L b))" by blast
qed

lemma pop_rings:
  assumes "rings h m L"
  shows "\<exists>m'. link_op h (Pop_Front b) m = Inr m' \<and> rings h m' (L(b := tl (L b))) \<and>
    dom m' = dom m - set (take 1 (L b))"
proof (cases "L b")
  case Nil
  then have "L(b := tl (L b)) = L" by auto
  then show ?thesis using head_empty_ring [OF ringsD(1) [OF assms, of b]] Nil assms by auto
next
  case (Cons x xs)
  note r = ringsD [OF assms, of b]
  have rx: "ring m (h b) (x # xs)" using r(1) Cons by simp
  obtain n vs where v: "xs @ [h b] = n # vs" by (cases "xs @ [h b]") auto
  from unlink_ok [OF rx v] obtain m' where
    m': "unlink x m = Inr m'" "ring m' (h b) xs" "nx m' = (nx m)(h b \<mapsto> n, x := None)"
    "pv m' = (pv m)(n \<mapsto> h b, x := None)" "dom m' = dom m - {x}" by blast
  have "n \<in> set (xs @ [h b])" unfolding v by simp
  then have o: "n \<notin> set (h (\<not> b) # L (\<not> b))" "h b \<notin> set (h (\<not> b) # L (\<not> b))" "x \<notin> set (h (\<not> b) # L (\<not> b))"
    using r(3) Cons by auto
  have "ring m' (h (\<not> b)) (L (\<not> b))"
  proof (rule ring_frame [OF r(2)])
    show "set (h (\<not> b) # L (\<not> b)) \<subseteq> dom m'" using ring_dom [OF r(2)] o(3) unfolding m'(5) by blast
  qed (use o in \<open>auto simp: m'(3,4)\<close>)
  then have "rings h m' (L(b := tl (L b)))" using m'(2) r(3) Cons by (intro ringsI [of m' h b]) auto
  moreover have "get_next (h b) m = Inr x" using rx by (intro get_ok) (simp add: ring_def)
  ultimately show ?thesis using m'(1,5) head_empty_ring [OF r(1)] Cons by simp
qed

lemma ring_chain:
  assumes "ring m g ys" "ys \<noteq> []"
  shows "linked_list m ys" "get_next g m = Inr (hd ys)" "get_prev g m = Inr (last ys)" "distinct ys" "g \<in> dom m"
proof -
  obtain ws w where w: "ys = ws @ [w]" using assms(2) by (cases ys rule: rev_cases) auto
  have z: "g # ys = (g # ws) @ [w]" by (simp add: w)
  note sp = ring_split [OF assms(1) z]
  obtain y zs where y: "ys = y # zs" using assms(2) by (cases ys) auto
  have "linked_list m (g # ys)" using sp(1) by (simp add: w)
  then show "linked_list m ys" by (simp add: y)
  show "get_prev g m = Inr (last ys)" using get_ok(2) [OF sp(2)] by (simp add: w)
  show "get_next g m = Inr (hd ys)" using ring_first [OF assms(1)] assms(2) by (intro get_ok) simp
  show "distinct ys" "g \<in> dom m" using assms(1) ring_dom [OF assms(1)] by (auto simp: ring_def)
qed

lemma reset_rings:
  assumes "ring m1 (h b) zs" "set (h b # zs) \<inter> {h (\<not> b)} = {}" "h (\<not> b) \<in> dom m1"
  shows "\<exists>m'. head_reset (h (\<not> b)) m1 = Inr m' \<and> rings h m' (L(b := zs, (\<not> b) := []))"
proof -
  from head_reset_ring [OF assms(3)] obtain m' where
    m': "head_reset (h (\<not> b)) m1 = Inr m'" "ring m' (h (\<not> b)) []" "nx m' = (nx m1)(h (\<not> b) \<mapsto> h (\<not> b))"
    "pv m' = (pv m1)(h (\<not> b) \<mapsto> h (\<not> b))" "dom m' = dom m1" by blast
  have "ring m' (h b) zs"
    using assms(2) ring_dom [OF assms(1)] by (intro ring_frame [OF assms(1)]) (auto simp: m'(3-5))
  then have "rings h m' (L(b := zs, (\<not> b) := []))" using m'(2) assms(2) by (intro ringsI [of m' h b]) auto
  with m'(1) show ?thesis by blast
qed

lemma splice_rings:
  assumes "rings h m L"
  shows "\<exists>m'. append_list (h b) (h (\<not> b)) m = Inr m' \<and> rings h m' (L(b := L b @ L (\<not> b), (\<not> b) := []))"
    and "\<exists>m'. prepend_list (h b) (h (\<not> b)) m = Inr m' \<and> rings h m' (L(b := L (\<not> b) @ L b, (\<not> b) := []))"
proof -
  let ?g = "h (\<not> b)" and ?ys = "L (\<not> b)"
  note r = ringsD [OF assms, of b]
  have e: "head_empty ?g m = Inr (?ys = [])" by (rule head_empty_ring [OF r(2)])
  have nil: "L(b := L b, (\<not> b) := []) = L" if "?ys = []" using that by (auto simp: fun_eq_iff)
  show "\<exists>m'. append_list (h b) ?g m = Inr m' \<and> rings h m' (L(b := L b @ ?ys, (\<not> b) := []))"
  proof (cases "?ys = []")
    case True
    then show ?thesis using e assms nil by (auto simp: append_list_def)
  next
    case False
    note c = ring_chain [OF r(2) False]
    have d: "set (h b # L b) \<inter> set ?ys = {}" using r(3) by auto
    obtain us z where z: "h b # L b = us @ [z]" by (metis list.distinct(1) rev_exhaust)
    from append_chain [OF r(1) c(1) False c(4) d z] obtain m1 where
      m1: "listAppend (h b) (hd ?ys) (last ?ys) m = Inr m1" "ring m1 (h b) (L b @ ?ys)" "dom m1 = dom m" by blast
    have "set (h b # L b @ ?ys) \<inter> {?g} = {}" using r(2,3) by (auto simp: ring_def)
    with reset_rings [OF m1(2) this] c(5) m1(3) obtain m' where
      "head_reset ?g m1 = Inr m'" "rings h m' (L(b := L b @ ?ys, (\<not> b) := []))" by auto
    then show ?thesis using e False c(2,3) m1(1) by (simp add: append_list_def)
  qed
  show "\<exists>m'. prepend_list (h b) ?g m = Inr m' \<and> rings h m' (L(b := ?ys @ L b, (\<not> b) := []))"
  proof (cases "?ys = []")
    case True
    then show ?thesis using e assms nil by (auto simp: prepend_list_def)
  next
    case False
    note c = ring_chain [OF r(2) False]
    have d: "set (h b # L b) \<inter> set ?ys = {}" using r(3) by auto
    obtain n vs where v: "L b @ [h b] = n # vs" by (cases "L b @ [h b]") auto
    from prepend_chain [OF r(1) c(1) False c(4) d v] obtain m1 where
      m1: "listPrepend (h b) (hd ?ys) (last ?ys) m = Inr m1" "ring m1 (h b) (?ys @ L b)" "dom m1 = dom m" by blast
    have "set (h b # ?ys @ L b) \<inter> {?g} = {}" using r(2,3) by (auto simp: ring_def)
    with reset_rings [OF m1(2) this] c(5) m1(3) obtain m' where
      "head_reset ?g m1 = Inr m'" "rings h m' (L(b := ?ys @ L b, (\<not> b) := []))" by auto
    then show ?thesis using e False c(2,3) m1(1) by (simp add: prepend_list_def)
  qed
qed

subsection \<open>Property\<close>

text \<open>C24: The pointer operations implement the list operations. On the nodes of two buffers, appending or
  prepending a new node, removing the first node, and moving all nodes of one buffer to the end or
  the front of the other never follow a dangling pointer, and leave well-formed circular lists that
  hold exactly the nodes, in the order, that the operations on HOL lists of the buffer model give.\<close>

theorem extent_list_refines:
  assumes "rings h m L" and "op_fresh m op"
  shows "\<exists>m'. link_op h op m = Inr m' \<and> rings h m' (seq_op op L)"
proof (cases op)
  case (Push_Back b a)
  then show ?thesis using push_rings(1) [OF assms(1)] assms(2) by simp
next
  case (Push_Front b a)
  then show ?thesis using push_rings(2) [OF assms(1)] assms(2) by simp
next
  case (Pop_Front b)
  then show ?thesis using pop_rings [OF assms(1), of b] by auto
next
  case (Splice_Back b)
  then show ?thesis using splice_rings(1) [OF assms(1)] by simp
next
  case (Splice_Front b)
  then show ?thesis using splice_rings(2) [OF assms(1)] by simp
qed

text \<open>Two new buffers, with the sentinels 1 and 2.\<close>

definition two_heads :: "bool \<Rightarrow> node" where
  "two_heads b = (if b then 1 else 2)"

definition two_empty :: links where
  "two_empty = [1 \<mapsto> \<lparr>link_prev = 1, link_next = 1\<rparr>, 2 \<mapsto> \<lparr>link_prev = 2, link_next = 2\<rparr>]"

theorem extent_list_refines_witness:
  "\<exists>m1 m2 m3. link_op two_heads (Push_Back True 3) two_empty = Inr m1 \<and>
    link_op two_heads (Splice_Front False) m1 = Inr m2 \<and> rings two_heads m2 ((\<lambda>_. [])(False := [3])) \<and>
    link_op two_heads (Pop_Front False) m2 = Inr m3 \<and> rings two_heads m3 (\<lambda>_. [])"
proof -
  have r: "rings two_heads two_empty (\<lambda>_. [])"
    by (intro ringsI [of _ _ True]) (simp_all add: two_heads_def two_empty_def ring_def nx_def pv_def)
  have f: "op_fresh two_empty (Push_Back True 3)" by (simp add: two_empty_def)
  from extent_list_refines [OF r f] obtain m1 where
    m1: "link_op two_heads (Push_Back True 3) two_empty = Inr m1" "rings two_heads m1 ((\<lambda>_. [])(True := [3]))" by auto
  from extent_list_refines [OF m1(2), of "Splice_Front False"] obtain m2 where
    m2: "link_op two_heads (Splice_Front False) m1 = Inr m2"
    "rings two_heads m2 (((\<lambda>_. [])(True := [3]))(False := [3], True := []))" by auto
  have e: "((\<lambda>_. [])(True := [3 :: node]))(False := [3], True := []) = (\<lambda>_. [])(False := [3])"
    "((\<lambda>_. [])(False := [3 :: node]))(False := []) = (\<lambda>_. [])" by (auto simp: fun_eq_iff)
  have "rings two_heads m2 ((\<lambda>_. [])(False := [3]))" using m2(2) unfolding e .
  from extent_list_refines [OF this, of "Pop_Front False"] obtain m3 where
    "link_op two_heads (Pop_Front False) m2 = Inr m3" "rings two_heads m3 (((\<lambda>_. [])(False := [3]))(False := []))" by auto
  then show ?thesis using m1(1) m2(1) \<open>rings two_heads m2 ((\<lambda>_. [])(False := [3]))\<close> unfolding e by blast
qed

end
