(* ===== verification/Mpsc_Queue.thy ===== *)
theory Mpsc_Queue
  imports WTE_Prelude
begin

text \<open>
  The multi-producer, single-consumer queue of \<open>src/src/mpsc_queue.h\<close>, at the level of its atomic
  accesses, and the hand-off protocol that \<open>src/src/libevent_event_base.cc\<close> builds on it.

  \<^item> The shared memory is a heap of nodes and the two atomic pointers \<open>head_\<close> and \<open>tail_\<close>.
    A freed node is absent from the heap, so that an access through a dangling pointer is a
    \<open>fault\<close>. Addresses of freed nodes may be handed out again.
  \<^item> \<open>push_step\<close> and \<open>pop_step\<close> execute one atomic access of \<open>push\<close> and \<open>pop\<close>; the program
    counters carry the local variables. \<open>mpsc_push\<close> and \<open>mpsc_pop\<close> run them to the end.
  \<^item> \<open>sys_step\<close> interleaves any number of producers, each executing \<open>runOnEventLoop\<close>, with the
    loop thread, which alternates between \<open>runOpsInQueue\<close> and waiting for the notification
    descriptor. The stores of the queue have release order and its loads acquire order at most, so that
    a load may be carried out before an earlier store of the same thread is visible to the others: such
    stores go through a store buffer (total store order). A thread may see its own store at any time;
    the others see it when the buffer has been written back. An exchange and a system call find the
    buffer of their thread empty.
\<close>

type_synonym addr = nat

subsection \<open>Nodes and the shared memory\<close>

record 'a Node =
  node_data :: 'a
  node_next :: "addr option"

record 'a mpsc =
  nodes :: "addr \<rightharpoonup> 'a Node"
  q_head :: addr
  q_tail :: addr

text \<open>The constructor allocates a dummy node; \<open>T\<close> is default-constructible.\<close>

definition mpsc_init :: "'a \<Rightarrow> addr \<Rightarrow> 'a mpsc" where
  "mpsc_init dflt a =
     \<lparr>nodes = [a \<mapsto> \<lparr>node_data = dflt, node_next = None\<rparr>], q_head = a, q_tail = a\<rparr>"

definition load_next :: "'a mpsc \<Rightarrow> addr \<Rightarrow> fault + addr option" where
  "load_next m a = (case nodes m a of None \<Rightarrow> Inl Use_After_Free | Some nd \<Rightarrow> Inr (node_next nd))"

definition store_next :: "addr \<Rightarrow> addr \<Rightarrow> 'a mpsc \<Rightarrow> fault + 'a mpsc" where
  "store_next a b m = (case nodes m a of
       None \<Rightarrow> Inl Use_After_Free
     | Some nd \<Rightarrow> Inr (m\<lparr>nodes := (nodes m)(a \<mapsto> nd\<lparr>node_next := Some b\<rparr>)\<rparr>))"

definition load_data :: "'a mpsc \<Rightarrow> addr \<Rightarrow> fault + 'a" where
  "load_data m a = (case nodes m a of None \<Rightarrow> Inl Use_After_Free | Some nd \<Rightarrow> Inr (node_data nd))"

text \<open>\<open>freeAligned\<close>: a node that is not allocated cannot be freed.\<close>

definition free_node :: "addr \<Rightarrow> 'a mpsc \<Rightarrow> fault + 'a mpsc" where
  "free_node a m = (case nodes m a of
       None \<Rightarrow> Inl Use_After_Free
     | Some nd \<Rightarrow> Inr (m\<lparr>nodes := (nodes m)(a := None)\<rparr>))"

subsection \<open>push\<close>

datatype 'a push_pc =
    PushStart 'a
  | PushAllocated addr
  | PushSwapped addr addr
  | PushChecked addr addr bool
  | PushPublished addr bool
  | PushDone bool

text \<open>\<open>a\<close> is the address that the allocator returns for the new node.\<close>

fun push_step :: "addr \<Rightarrow> 'a push_pc \<Rightarrow> 'a mpsc \<Rightarrow> fault + 'a push_pc \<times> 'a mpsc" where
  "push_step a (PushStart item) m =
     Inr (PushAllocated a, m\<lparr>nodes := (nodes m)(a \<mapsto> \<lparr>node_data = item, node_next = None\<rparr>)\<rparr>)"
| "push_step a (PushAllocated cur) m = Inr (PushSwapped cur (q_head m), m\<lparr>q_head := cur\<rparr>)"
| "push_step a (PushSwapped cur prev) m = Inr (PushChecked cur prev (prev = q_tail m), m)"
| "push_step a (PushChecked cur prev emptyAtInit) m =
     bindE (store_next prev cur m) (\<lambda>m'. Inr (PushPublished prev emptyAtInit, m'))"
| "push_step a (PushPublished prev emptyAtInit) m =
     Inr (PushDone (emptyAtInit \<or> q_tail m = prev), m)"
| "push_step a (PushDone r) m = Inr (PushDone r, m)"

subsection \<open>pop\<close>

datatype 'a pop_pc =
    PopStart
  | PopTail addr
  | PopNext addr "addr option"
  | PopStored addr addr
  | PopFreed addr
  | PopDone "'a option"

fun pop_step :: "'a pop_pc \<Rightarrow> 'a mpsc \<Rightarrow> fault + 'a pop_pc \<times> 'a mpsc" where
  "pop_step PopStart m = Inr (PopTail (q_tail m), m)"
| "pop_step (PopTail t) m = bindE (load_next m t) (\<lambda>nx. Inr (PopNext t nx, m))"
| "pop_step (PopNext t None) m = Inr (PopDone None, m)"
| "pop_step (PopNext t (Some n)) m = Inr (PopStored t n, m\<lparr>q_tail := n\<rparr>)"
| "pop_step (PopStored t n) m = bindE (free_node t m) (\<lambda>m'. Inr (PopFreed n, m'))"
| "pop_step (PopFreed n) m = bindE (load_data m n) (\<lambda>x. Inr (PopDone (Some x), m))"
| "pop_step (PopDone r) m = Inr (PopDone r, m)"

text \<open>Whole operations, run without interference: a push is five accesses, a pop at most five.\<close>

fun push_run :: "nat \<Rightarrow> addr \<Rightarrow> 'a push_pc \<Rightarrow> 'a mpsc \<Rightarrow> fault + 'a push_pc \<times> 'a mpsc" where
  "push_run 0 a pc m = Inr (pc, m)"
| "push_run (Suc k) a pc m = bindE (push_step a pc m) (\<lambda>(pc', m'). push_run k a pc' m')"

definition mpsc_push :: "addr \<Rightarrow> 'a \<Rightarrow> 'a mpsc \<Rightarrow> fault + bool \<times> 'a mpsc" where
  "mpsc_push a item m =
     bindE (push_run 5 a (PushStart item) m) (\<lambda>(pc, m').
       case pc of PushDone r \<Rightarrow> Inr (r, m') | _ \<Rightarrow> Inl (Assert_Failed ''push''))"

fun pop_run :: "nat \<Rightarrow> 'a pop_pc \<Rightarrow> 'a mpsc \<Rightarrow> fault + 'a pop_pc \<times> 'a mpsc" where
  "pop_run 0 pc m = Inr (pc, m)"
| "pop_run (Suc k) pc m = bindE (pop_step pc m) (\<lambda>(pc', m'). pop_run k pc' m')"

definition mpsc_pop :: "'a mpsc \<Rightarrow> fault + 'a option \<times> 'a mpsc" where
  "mpsc_pop m =
     bindE (pop_run 5 PopStart m) (\<lambda>(pc, m').
       case pc of PopDone r \<Rightarrow> Inr (r, m') | _ \<Rightarrow> Inl (Assert_Failed ''pop''))"

text \<open>
  The destructor pops until the queue is empty; each turn frees one node, so the number of nodes
  bounds the turns.
\<close>

fun mpsc_clear :: "nat \<Rightarrow> 'a mpsc \<Rightarrow> fault + 'a mpsc" where
  "mpsc_clear 0 m = Inl Out_Of_Fuel"
| "mpsc_clear (Suc k) m =
     bindE (mpsc_pop m) (\<lambda>(r, m'). case r of None \<Rightarrow> Inr m' | Some x \<Rightarrow> mpsc_clear k m')"

definition mpsc_destroy :: "nat \<Rightarrow> 'a mpsc \<Rightarrow> fault + 'a mpsc" where
  "mpsc_destroy k m =
     bindE (mpsc_clear k m) (\<lambda>m'. free_node (q_head m') m')"

subsection \<open>Producers and the loop thread\<close>

datatype 'a producer = P_Idle | P_Push "'a push_pc" | P_Signal
datatype 'a consumer = C_Wait | C_Pop "'a pop_pc"

text \<open>
  \<^item> \<open>mem\<close> is the memory as the loop thread sees it, its own stores to \<open>tail_\<close> included; \<open>old_tails\<close> are
    the values that \<open>tail_\<close> had before each of its stores that is still in its buffer. The
    other threads see the first of them (\<open>shown\<close>).
  \<^item> \<open>st_buf p\<close> is the store to \<open>next\<close> that is in the buffer of the producer \<open>p\<close>. There is one at most:
    before it stores to \<open>next\<close> again a producer exchanges \<open>head_\<close>.
  \<^item> \<open>pipe\<close> counts the bytes in the notification descriptor. \<open>refused\<close> records that \<open>signalNotifyQueue\<close>,
    and so \<open>runOnEventLoop\<close>, has returned false.
  \<^item> \<open>nchain\<close>, \<open>enq\<close> and \<open>deq\<close> are history variables: the nodes from the one \<open>tail_\<close> points to, in the
    order their producers swapped them in, the operations in that order, and the operations that have
    been run. \<open>overtook\<close> records that a load has overtaken a store where the protocol relies on their
    order: \<open>push\<close> returns false on a value of \<open>tail_\<close> loaded with its store to \<open>next\<close> still in
    the buffer, or \<open>pop\<close> finds the queue empty with its store to \<open>tail_\<close> still in the buffer.
\<close>

record 'a sys =
  mem :: "'a mpsc"
  old_tails :: "addr list"
  prods :: "nat \<Rightarrow> 'a producer"
  st_buf :: "nat \<Rightarrow> (addr \<times> addr) option"
  looper :: "'a consumer"
  pipe :: nat
  refused :: bool
  nchain :: "addr list"
  enq :: "'a list"
  deq :: "'a list"
  overtook :: bool

definition sys_init :: "'a \<Rightarrow> addr \<Rightarrow> 'a sys" where
  "sys_init dflt a = \<lparr>mem = mpsc_init dflt a, old_tails = [], prods = (\<lambda>_. P_Idle), st_buf = (\<lambda>_. None),
     looper = C_Pop PopStart, pipe = 0, refused = False, nchain = [a], enq = [], deq = [], overtook = False\<rparr>"

definition shown :: "'a sys \<Rightarrow> 'a mpsc" where
  "shown s = (mem s)\<lparr>q_tail := hd (old_tails s @ [q_tail (mem s)])\<rparr>"

text \<open>The accesses of \<open>push\<close> that have an effect, \<open>m'\<close> being the memory after the access by the producer \<open>p\<close>.\<close>

fun push_effect :: "nat \<Rightarrow> 'a push_pc \<Rightarrow> 'a mpsc \<Rightarrow> 'a sys \<Rightarrow> 'a sys" where
  "push_effect p (PushStart x) m' s = s\<lparr>mem := m'\<lparr>q_tail := q_tail (mem s)\<rparr>\<rparr>"
| "push_effect p (PushAllocated cur) m' s = s\<lparr>mem := m'\<lparr>q_tail := q_tail (mem s)\<rparr>,
     nchain := nchain s @ [cur], enq := enq s @ [node_data (the (nodes (mem s) cur))]\<rparr>"
| "push_effect p (PushChecked cur prev e) m' s = s\<lparr>st_buf := (st_buf s)(p \<mapsto> (prev, cur))\<rparr>"
| "push_effect p (PushPublished prev e) m' s =
     s\<lparr>overtook := overtook s \<or> st_buf s p \<noteq> None \<and> \<not> e \<and> q_tail m' \<noteq> prev\<rparr>"
| "push_effect p pc m' s = s"

fun pop_effect :: "'a pop_pc \<Rightarrow> 'a mpsc \<Rightarrow> 'a sys \<Rightarrow> 'a sys" where
  "pop_effect (PopTail t) m' s =
     s\<lparr>overtook := overtook s \<or> old_tails s \<noteq> [] \<and> node_next (the (nodes m' t)) = None\<rparr>"
| "pop_effect (PopNext t (Some n)) m' s = s\<lparr>mem := m', old_tails := old_tails s @ [t], nchain := tl (nchain s)\<rparr>"
| "pop_effect pc m' s = s\<lparr>mem := m'\<rparr>"

text \<open>The exchange waits for the store buffer to be written back.\<close>

fun may_push :: "'a push_pc \<Rightarrow> (addr \<times> addr) option \<Rightarrow> bool" where
  "may_push (PushAllocated cur) b \<longleftrightarrow> b = None"
| "may_push _ b \<longleftrightarrow> True"

text \<open>
  \<^item> \<open>call\<close> is the call of \<open>runOnEventLoop\<close>; \<open>no_memory\<close> is the exception of \<open>mkAligned\<close> in \<open>push\<close>.
  \<^item> A producer that \<open>push\<close> told to do so writes one byte, and the write may fail; the loop thread reads
    at most eight.
  \<^item> \<open>poll\<close>: \<open>event_base_loop\<close> returns for some other event, and the next turn of \<open>loop\<close> runs the
    operations in the queue.
  \<^item> \<open>drain\<close> and \<open>drain_tail\<close> write back the oldest store in the buffer of a producer and of the loop thread.
\<close>

inductive sys_step :: "'a sys \<Rightarrow> 'a sys \<Rightarrow> bool" where
  call: "prods s p = P_Idle \<Longrightarrow>
    sys_step s (s\<lparr>prods := (prods s)(p := P_Push (PushStart x))\<rparr>)"
| no_memory: "prods s p = P_Push (PushStart x) \<Longrightarrow>
    sys_step s (s\<lparr>prods := (prods s)(p := P_Idle)\<rparr>)"
| push: "prods s p = P_Push pc \<Longrightarrow> nodes (mem s) a = None \<Longrightarrow>
    may_push pc (st_buf s p) \<Longrightarrow>
    push_step a pc (shown s) = Inr (pc', m') \<Longrightarrow>
    sys_step s (push_effect p pc m' (s\<lparr>prods := (prods s)(p := P_Push pc')\<rparr>))"
| kick: "prods s p = P_Push (PushDone True) \<Longrightarrow>
    sys_step s (s\<lparr>prods := (prods s)(p := P_Signal)\<rparr>)"
| quiet: "prods s p = P_Push (PushDone False) \<Longrightarrow>
    sys_step s (s\<lparr>prods := (prods s)(p := P_Idle)\<rparr>)"
| signal: "prods s p = P_Signal \<Longrightarrow> st_buf s p = None \<Longrightarrow>
    sys_step s (s\<lparr>prods := (prods s)(p := P_Idle), pipe := Suc (pipe s)\<rparr>)"
| signal_fails: "prods s p = P_Signal \<Longrightarrow> st_buf s p = None \<Longrightarrow>
    sys_step s (s\<lparr>prods := (prods s)(p := P_Idle), refused := True\<rparr>)"
| pop: "looper s = C_Pop pc \<Longrightarrow> pop_step pc (mem s) = Inr (pc', m') \<Longrightarrow>
    sys_step s (pop_effect pc m' (s\<lparr>looper := C_Pop pc'\<rparr>))"
| run: "looper s = C_Pop (PopDone (Some x)) \<Longrightarrow>
    sys_step s (s\<lparr>looper := C_Pop PopStart, deq := deq s @ [x]\<rparr>)"
| wait: "looper s = C_Pop (PopDone None) \<Longrightarrow> old_tails s = [] \<Longrightarrow> sys_step s (s\<lparr>looper := C_Wait\<rparr>)"
| wake: "looper s = C_Wait \<Longrightarrow> pipe s > 0 \<Longrightarrow>
    sys_step s (s\<lparr>looper := C_Pop PopStart, pipe := pipe s - min 8 (pipe s)\<rparr>)"
| poll: "looper s = C_Wait \<Longrightarrow> sys_step s (s\<lparr>looper := C_Pop PopStart\<rparr>)"
| drain: "st_buf s p = Some (prev, cur) \<Longrightarrow> store_next prev cur (mem s) = Inr m' \<Longrightarrow>
    sys_step s (s\<lparr>mem := m', st_buf := (st_buf s)(p := None)\<rparr>)"
| drain_tail: "old_tails s = t # ts \<Longrightarrow> sys_step s (s\<lparr>old_tails := ts\<rparr>)"

inductive sys_reach :: "'a \<Rightarrow> addr \<Rightarrow> 'a sys \<Rightarrow> bool" for dflt a where
  start: "sys_reach dflt a (sys_init dflt a)"
| step: "sys_reach dflt a s \<Longrightarrow> sys_step s t \<Longrightarrow> sys_reach dflt a t"

end
