(* ===== verification/Mpsc_Correct.thy ===== *)
theory Mpsc_Correct
  imports Mpsc_Queue
begin

text \<open>
  Correctness of the queue and of the hand-off: memory safety, first-in first-out order and the
  absence of lost notifications, in every interleaving.
\<close>

subsection \<open>Consecutive nodes\<close>

definition links :: "'a list \<Rightarrow> ('a \<times> 'a) set" where
  "links xs = set (zip xs (tl xs))"

lemma links_Cons: "links (x # xs) = (if xs = [] then {} else insert (x, hd xs) (links xs))"
  by (cases xs) (simp_all add: links_def)

lemma links_Nil [simp]: "links [] = {}"
  by (simp add: links_def)

lemma links_snoc: "xs \<noteq> [] \<Longrightarrow> links (xs @ [c]) = insert (last xs, c) (links xs)"
  by (induction xs) (auto simp: links_Cons)

lemma links_set: "(a, b) \<in> links xs \<Longrightarrow> a \<in> set xs \<and> b \<in> set (tl xs)"
  by (auto simp: links_def dest: set_zip_leftD set_zip_rightD)

lemma links_tl: "links (tl xs) \<subseteq> links xs"
  by (cases xs) (auto simp: links_Cons)

lemma links_hd: "distinct xs \<Longrightarrow> (hd xs, b) \<in> links xs \<Longrightarrow> tl xs \<noteq> [] \<and> b = hd (tl xs)"
  by (cases xs) (auto simp: links_Cons dest: links_set split: if_splits)

lemma links_not_hd: "distinct xs \<Longrightarrow> (a, b) \<in> links xs \<Longrightarrow> a \<noteq> hd xs \<Longrightarrow> (a, b) \<in> links (tl xs)"
  by (cases xs) (auto simp: links_Cons split: if_splits)

lemma links_fun:
  "distinct xs \<Longrightarrow> (a, b) \<in> links xs \<Longrightarrow> (a, c) \<in> links xs \<Longrightarrow> b = c"
  by (induction xs) (auto simp: links_Cons dest: links_set split: if_splits)

lemma links_last: "distinct xs \<Longrightarrow> (last xs, b) \<notin> links xs"
proof (induction xs)
  case (Cons x xs)
  then show ?case by (auto simp: links_Cons dest: links_set split: if_splits)
qed simp

subsection \<open>The invariant\<close>

text \<open>The link a producer has swapped in but not yet published, or not yet written back.\<close>

fun pending :: "'a producer \<Rightarrow> (addr \<times> addr) option" where
  "pending (P_Push (PushSwapped cur prev)) = Some (prev, cur)"
| "pending (P_Push (PushChecked cur prev e)) = Some (prev, cur)"
| "pending _ = None"

primrec or_else :: "'b option \<Rightarrow> 'b option \<Rightarrow> 'b option" where
  "or_else None y = y"
| "or_else (Some x) y = Some x"

definition pend :: "'a sys \<Rightarrow> nat \<Rightarrow> (addr \<times> addr) option" where
  "pend s p = or_else (st_buf s p) (pending (prods s p))"

fun owned :: "'a producer \<Rightarrow> addr option" where
  "owned (P_Push (PushAllocated cur)) = Some cur"
| "owned _ = None"

text \<open>The node the loop thread has unlinked but not yet freed.\<close>

fun limbo :: "'a consumer \<Rightarrow> addr option" where
  "limbo (C_Pop (PopStored t n)) = Some t"
| "limbo _ = None"

abbreviation nexts :: "'a sys \<Rightarrow> addr \<Rightarrow> addr option" where
  "nexts s a \<equiv> node_next (the (nodes (mem s) a))"

abbreviation datum :: "'a sys \<Rightarrow> addr \<Rightarrow> 'a" where
  "datum s a \<equiv> node_data (the (nodes (mem s) a))"

definition inv_chain :: "'a sys \<Rightarrow> bool" where
  "inv_chain s \<longleftrightarrow> nchain s \<noteq> [] \<and> distinct (nchain s) \<and>
     q_tail (mem s) = hd (nchain s) \<and> q_head (mem s) = last (nchain s) \<and>
     (\<forall>a \<in> set (nchain s). nodes (mem s) a \<noteq> None)"

definition inv_links :: "'a sys \<Rightarrow> bool" where
  "inv_links s \<longleftrightarrow> nexts s (last (nchain s)) = None \<and>
     (\<forall>(a, b) \<in> links (nchain s).
        nexts s a = Some b \<or> nexts s a = None \<and> (\<exists>p. pend s p = Some (a, b))) \<and>
     (\<forall>p a b. pend s p = Some (a, b) \<longrightarrow> (a, b) \<in> links (nchain s) \<and> nexts s a = None) \<and>
     (\<forall>p q a b c. pend s p = Some (a, b) \<longrightarrow> pend s q = Some (a, c) \<longrightarrow> p = q)"

definition inv_owned :: "'a sys \<Rightarrow> bool" where
  "inv_owned s \<longleftrightarrow>
     (\<forall>p a. owned (prods s p) = Some a \<longrightarrow>
        nodes (mem s) a \<noteq> None \<and> nexts s a = None \<and> a \<notin> set (nchain s) \<and> limbo (looper s) \<noteq> Some a) \<and>
     (\<forall>p q a. owned (prods s p) = Some a \<longrightarrow> owned (prods s q) = Some a \<longrightarrow> p = q)"

fun looper_ok :: "'a sys \<Rightarrow> 'a consumer \<Rightarrow> bool" where
  "looper_ok s (C_Pop (PopTail t)) \<longleftrightarrow> t = q_tail (mem s)"
| "looper_ok s (C_Pop (PopNext t nx)) \<longleftrightarrow>
     t = q_tail (mem s) \<and> (nx \<noteq> None \<longrightarrow> nexts s t = nx)"
| "looper_ok s (C_Pop (PopStored t n)) \<longleftrightarrow>
     n = q_tail (mem s) \<and> t \<notin> set (nchain s) \<and> nodes (mem s) t \<noteq> None"
| "looper_ok s (C_Pop (PopFreed n)) \<longleftrightarrow> n = q_tail (mem s)"
| "looper_ok s _ \<longleftrightarrow> True"

fun in_flight :: "'a sys \<Rightarrow> 'a consumer \<Rightarrow> 'a list" where
  "in_flight s (C_Pop (PopStored t n)) = [datum s n]"
| "in_flight s (C_Pop (PopFreed n)) = [datum s n]"
| "in_flight s (C_Pop (PopDone (Some x))) = [x]"
| "in_flight s _ = []"

definition inv_fifo :: "'a sys \<Rightarrow> bool" where
  "inv_fifo s \<longleftrightarrow> enq s = deq s @ in_flight s (looper s) @ map (datum s) (tl (nchain s))"

text \<open>
  The loop thread has seen an empty queue and has not looked again; a producer is about to
  notify it.
\<close>

fun asleep :: "'a consumer \<Rightarrow> bool" where
  "asleep C_Wait \<longleftrightarrow> True"
| "asleep (C_Pop (PopNext t None)) \<longleftrightarrow> True"
| "asleep (C_Pop (PopDone None)) \<longleftrightarrow> True"
| "asleep _ \<longleftrightarrow> False"

fun will_signal :: "addr \<Rightarrow> 'a producer \<Rightarrow> bool" where
  "will_signal t (P_Push (PushPublished prev e)) \<longleftrightarrow> e \<or> prev = t"
| "will_signal t (P_Push (PushDone r)) \<longleftrightarrow> r"
| "will_signal t P_Signal \<longleftrightarrow> True"
| "will_signal t _ \<longleftrightarrow> False"

definition inv_wake :: "'a sys \<Rightarrow> bool" where
  "inv_wake s \<longleftrightarrow>
     (asleep (looper s) \<and> nexts s (q_tail (mem s)) \<noteq> None \<and> \<not> overtook s \<and> \<not> refused s \<longrightarrow>
        pipe s > 0 \<or> (\<exists>p. will_signal (q_tail (mem s)) (prods s p)))"

text \<open>The producer that has stored \<open>a\<close>'s link and has not yet read \<open>tail_\<close>, or will notify the loop thread.\<close>

fun loaded_late :: "addr \<Rightarrow> 'a producer \<Rightarrow> bool" where
  "loaded_late a (P_Push (PushPublished prev e)) \<longleftrightarrow> prev = a"
| "loaded_late a (P_Push (PushDone r)) \<longleftrightarrow> r"
| "loaded_late a P_Signal \<longleftrightarrow> True"
| "loaded_late a _ \<longleftrightarrow> False"

definition inv_buf :: "'a sys \<Rightarrow> bool" where
  "inv_buf s \<longleftrightarrow> (\<forall>p. st_buf s p \<noteq> None \<longrightarrow> pending (prods s p) = None) \<and>
     (\<forall>p a b. st_buf s p = Some (a, b) \<and> \<not> overtook s \<longrightarrow> loaded_late a (prods s p)) \<and>
     (asleep (looper s) \<and> \<not> overtook s \<longrightarrow> old_tails s = [])"

definition sys_inv :: "'a sys \<Rightarrow> bool" where
  "sys_inv s \<longleftrightarrow> inv_chain s \<and> inv_links s \<and> inv_owned s \<and> looper_ok s (looper s) \<and>
     inv_fifo s \<and> inv_wake s \<and> inv_buf s"

lemmas sys_inv_defs = inv_chain_def inv_links_def inv_owned_def inv_fifo_def inv_wake_def inv_buf_def pend_def

lemma sys_inv_init: "sys_inv (sys_init dflt a)"
  by (simp add: sys_inv_def sys_inv_defs sys_init_def mpsc_init_def links_Cons)

text \<open>The invariant, clause by clause.\<close>

lemma chain_facts:
  assumes inv: "sys_inv s"
  shows "nchain s \<noteq> []" "distinct (nchain s)" "q_tail (mem s) = hd (nchain s)"
  "q_head (mem s) = last (nchain s)" "nexts s (last (nchain s)) = None"
  using inv by (simp_all add: sys_inv_def inv_chain_def inv_links_def)

lemma chain_node:
  assumes inv: "sys_inv s"
  shows "a \<in> set (nchain s) \<Longrightarrow> nodes (mem s) a \<noteq> None"
  using inv by (simp add: sys_inv_def inv_chain_def)

lemma link_cases:
  assumes inv: "sys_inv s"
  shows "(a, b) \<in> links (nchain s) \<Longrightarrow>
    nexts s a = Some b \<or> nexts s a = None \<and> (\<exists>p. pend s p = Some (a, b))"
  using inv by (auto simp: sys_inv_def inv_links_def)

lemma pending_facts:
  assumes inv: "sys_inv s"
  shows "pend s p = Some (a, b) \<Longrightarrow> (a, b) \<in> links (nchain s)"
  "pend s p = Some (a, b) \<Longrightarrow> nexts s a = None"
  "pend s p = Some (a, b) \<Longrightarrow> pend s q = Some (a, c) \<Longrightarrow> p = q"
  using inv unfolding sys_inv_def inv_links_def by blast+

lemma owned_facts:
  assumes inv: "sys_inv s"
  shows "owned (prods s p) = Some a \<Longrightarrow> nodes (mem s) a \<noteq> None"
  "owned (prods s p) = Some a \<Longrightarrow> nexts s a = None"
  "owned (prods s p) = Some a \<Longrightarrow> a \<notin> set (nchain s)"
  "owned (prods s p) = Some a \<Longrightarrow> limbo (looper s) \<noteq> Some a"
  "owned (prods s p) = Some a \<Longrightarrow> owned (prods s q) = Some a \<Longrightarrow> p = q"
  using inv unfolding sys_inv_def inv_owned_def by blast+

lemma limbo_facts:
  assumes inv: "sys_inv s"
  shows "limbo (looper s) = Some a \<Longrightarrow> nodes (mem s) a \<noteq> None"
  "limbo (looper s) = Some a \<Longrightarrow> a \<notin> set (nchain s)"
  using inv by (cases "looper s" rule: limbo.cases; simp add: sys_inv_def)+

lemma looper_facts:
  assumes inv: "sys_inv s"
  shows "looper_ok s (looper s)"
  using inv by (simp add: sys_inv_def)

lemma fifo_fact:
  assumes inv: "sys_inv s"
  shows "enq s = deq s @ in_flight s (looper s) @ map (datum s) (tl (nchain s))"
  using inv by (simp add: sys_inv_def inv_fifo_def)

lemma wake_fact:
  assumes inv: "sys_inv s"
  shows "asleep (looper s) \<Longrightarrow> nexts s (q_tail (mem s)) \<noteq> None \<Longrightarrow> \<not> overtook s \<Longrightarrow> \<not> refused s \<Longrightarrow>
    pipe s > 0 \<or> (\<exists>p. will_signal (q_tail (mem s)) (prods s p))"
  using inv by (simp add: sys_inv_def inv_wake_def)

lemma buf_facts:
  assumes inv: "sys_inv s"
  shows "st_buf s p \<noteq> None \<Longrightarrow> pending (prods s p) = None"
  "st_buf s p = Some (a, b) \<Longrightarrow> \<not> overtook s \<Longrightarrow> loaded_late a (prods s p)"
  "asleep (looper s) \<Longrightarrow> \<not> overtook s \<Longrightarrow> old_tails s = []"
  using inv unfolding sys_inv_def inv_buf_def by blast+

lemma pend_pc: "pending (prods s p) = Some l \<Longrightarrow> sys_inv s \<Longrightarrow> pend s p = Some l"
  using buf_facts(1) [of s p] by (cases "st_buf s p") (simp_all add: pend_def)

lemma other_pend:
  assumes "\<exists>r. pend s r = Some l" "pend s p \<noteq> Some l" "\<And>r. r \<noteq> p \<Longrightarrow> pend s' r = pend s r"
  shows "\<exists>r. pend s' r = Some l"
  using assms by metis

lemma inv_linksI:
  assumes "nexts s (last (nchain s)) = None"
    "\<And>a b. (a, b) \<in> links (nchain s) \<Longrightarrow>
      nexts s a = Some b \<or> nexts s a = None \<and> (\<exists>p. pend s p = Some (a, b))"
    "\<And>p a b. pend s p = Some (a, b) \<Longrightarrow> (a, b) \<in> links (nchain s) \<and> nexts s a = None"
    "\<And>p q a b c. pend s p = Some (a, b) \<Longrightarrow> pend s q = Some (a, c) \<Longrightarrow> p = q"
  shows "inv_links s"
  unfolding inv_links_def using assms by blast

lemma inv_links_frame:
  assumes inv: "sys_inv s" and eq: "nchain s' = nchain s" "\<And>r. pend s' r = pend s r"
    "\<And>b. b \<in> set (nchain s) \<Longrightarrow> nexts s' b = nexts s b"
  shows "inv_links s'"
proof (rule inv_linksI)
  show "nexts s' (last (nchain s')) = None"
    using chain_facts(1,5) [OF inv] eq by simp
  show "nexts s' b = Some c \<or> nexts s' b = None \<and> (\<exists>r. pend s' r = Some (b, c))"
    if "(b, c) \<in> links (nchain s')" for b c
    using link_cases [OF inv, of b c] that links_set [of b c "nchain s"] eq by simp
  show "(b, c) \<in> links (nchain s') \<and> nexts s' b = None"
    if "pend s' r = Some (b, c)" for r b c
    using pending_facts(1,2) [OF inv that [unfolded eq]] links_set [of b c "nchain s"] eq by simp
  show "q = r" if "pend s' q = Some (b, c)" "pend s' r = Some (b, d)" for q r b c d
    using pending_facts(3) [OF inv that [unfolded eq]] .
qed

lemma inv_wake_frame:
  assumes inv: "sys_inv s" and "asleep (looper s') \<Longrightarrow> asleep (looper s)"
    "q_tail (mem s') = q_tail (mem s)" "nexts s' (q_tail (mem s)) = nexts s (q_tail (mem s))"
    "pipe s \<le> pipe s'" "overtook s \<Longrightarrow> overtook s'" "refused s \<Longrightarrow> refused s'"
    "\<And>r. asleep (looper s) \<Longrightarrow> \<not> overtook s' \<Longrightarrow> \<not> refused s' \<Longrightarrow> will_signal (q_tail (mem s)) (prods s r) \<Longrightarrow>
       will_signal (q_tail (mem s)) (prods s' r) \<or> pipe s' > 0"
  shows "inv_wake s'"
  unfolding inv_wake_def using wake_fact [OF inv] assms(2-)
  by (metis gr_zeroI le_zero_eq)

lemma inv_bufI:
  assumes "\<And>p. st_buf s p \<noteq> None \<Longrightarrow> pending (prods s p) = None"
    "\<And>p a b. st_buf s p = Some (a, b) \<Longrightarrow> \<not> overtook s \<Longrightarrow> loaded_late a (prods s p)"
    "asleep (looper s) \<Longrightarrow> \<not> overtook s \<Longrightarrow> old_tails s = []"
  shows "inv_buf s"
  unfolding inv_buf_def using assms by blast

lemma inv_buf_frame:
  assumes inv: "sys_inv s" and "st_buf s' = st_buf s" "prods s' = prods s" "overtook s \<Longrightarrow> overtook s'"
    "asleep (looper s') \<Longrightarrow> \<not> overtook s' \<Longrightarrow> old_tails s' = []"
  shows "inv_buf s'"
  using buf_facts [OF inv] assms(2-) by (intro inv_bufI) auto

lemma inv_ownedI:
  assumes "\<And>p a. owned (prods s p) = Some a \<Longrightarrow>
      nodes (mem s) a \<noteq> None \<and> nexts s a = None \<and> a \<notin> set (nchain s) \<and> limbo (looper s) \<noteq> Some a"
    "\<And>p q a. owned (prods s p) = Some a \<Longrightarrow> owned (prods s q) = Some a \<Longrightarrow> p = q"
  shows "inv_owned s"
  unfolding inv_owned_def using assms by blast

subsection \<open>Every step keeps the invariant\<close>

text \<open>Steps of a producer that touch neither the nodes nor its links.\<close>

lemma looper_ok_cong:
  "mem s' = mem s \<Longrightarrow> nchain s' = nchain s \<Longrightarrow> looper_ok s' c = looper_ok s c"
  by (cases "(s, c)" rule: looper_ok.cases) simp_all

lemma in_flight_cong: "mem s' = mem s \<Longrightarrow> in_flight s' c = in_flight s c"
  by (cases "(s, c)" rule: in_flight.cases) simp_all

lemma sys_inv_producer:
  assumes inv: "sys_inv s" and q': "pending (prods s p) = pending q'" "owned q' = None \<or> owned q' = owned (prods s p)"
    and mono: "pipe s \<le> n" "overtook s \<Longrightarrow> ov" "refused s \<Longrightarrow> rf"
    and sig: "asleep (looper s) \<Longrightarrow> \<not> ov \<Longrightarrow> \<not> rf \<Longrightarrow> will_signal (q_tail (mem s)) (prods s p) \<Longrightarrow>
      will_signal (q_tail (mem s)) q' \<or> n > 0"
    and buf: "\<And>a b. st_buf s p = Some (a, b) \<Longrightarrow> \<not> ov \<Longrightarrow> loaded_late a (prods s p) \<Longrightarrow> loaded_late a q'"
  shows "sys_inv (s\<lparr>prods := (prods s)(p := q'), pipe := n, refused := rf, overtook := ov\<rparr>)"
proof -
  let ?s = "s\<lparr>prods := (prods s)(p := q'), pipe := n, refused := rf, overtook := ov\<rparr>"
  have own: "owned (((prods s)(p := q')) r) = Some a \<Longrightarrow> owned (prods s r) = Some a" for r a
    using q'(2) by (auto split: if_splits)
  have "inv_links ?s" using q'(1) by (intro inv_links_frame [OF inv]) (simp_all add: pend_def)
  moreover have "inv_owned ?s"
    using inv by (simp add: sys_inv_def inv_owned_def del: fun_upd_apply) (blast dest: own)
  moreover have "inv_wake ?s"
    using mono sig by (intro inv_wake_frame [OF inv]) auto
  moreover have "inv_buf ?s"
  proof (rule inv_bufI)
    show "pending (prods ?s r) = None" if "st_buf ?s r \<noteq> None" for r
      using buf_facts(1) [OF inv, of r] that q'(1) by (cases "r = p") auto
    show "loaded_late a (prods ?s r)" if "st_buf ?s r = Some (a, b)" "\<not> overtook ?s" for r a b
      using buf_facts(2) [OF inv, of r a b] buf [of a b] mono(2) that by (cases "r = p") auto
    show "old_tails ?s = []" if "asleep (looper ?s)" "\<not> overtook ?s"
      using buf_facts(3) [OF inv] mono(2) that by auto
  qed
  ultimately show ?thesis
    using inv looper_ok_cong [of ?s s] in_flight_cong [of ?s s]
    by (simp add: sys_inv_def inv_chain_def inv_fifo_def)
qed

text \<open>The store of a link into the buffer.\<close>

lemma sys_inv_buffer:
  assumes inv: "sys_inv s" and pc: "prods s p = P_Push (PushChecked cur prev e)"
  shows "sys_inv (s\<lparr>prods := (prods s)(p := P_Push (PushPublished prev e)), st_buf := (st_buf s)(p \<mapsto> (prev, cur))\<rparr>)"
    (is "sys_inv ?s")
proof -
  have "pend s p = Some (prev, cur)" using pend_pc [OF _ inv, of p] pc by simp
  then have "inv_links ?s" by (intro inv_links_frame [OF inv]) (simp_all add: pend_def)
  moreover have "inv_owned ?s"
    using owned_facts [OF inv] by (intro inv_ownedI) (auto split: if_splits)
  moreover have "inv_wake ?s" using pc by (intro inv_wake_frame [OF inv]) auto
  moreover have "inv_buf ?s"
    using buf_facts [OF inv] by (intro inv_bufI) (auto split: if_splits)
  ultimately show ?thesis
    using inv looper_ok_cong [of ?s s] in_flight_cong [of ?s s]
    by (simp add: sys_inv_def inv_chain_def inv_fifo_def)
qed

text \<open>A new node is none of those in use.\<close>

lemma sys_inv_alloc:
  assumes inv: "sys_inv s" and pc: "prods s p = P_Push (PushStart x)" and fresh: "nodes (mem s) a = None"
  shows "sys_inv (s\<lparr>prods := (prods s)(p := P_Push (PushAllocated a)),
    mem := (mem s)\<lparr>nodes := (nodes (mem s))(a \<mapsto> \<lparr>node_data = x, node_next = None\<rparr>)\<rparr>\<rparr>)" (is "sys_inv ?s")
proof -
  have ch: "b \<in> set (nchain s) \<Longrightarrow> b \<noteq> a" for b
    using chain_node [OF inv] fresh by blast
  have tl: "b \<in> set (tl (nchain s)) \<Longrightarrow> b \<noteq> a" for b
    by (rule ch) (rule set_tl)
  have hd: "hd (nchain s) \<noteq> a" "last (nchain s) \<noteq> a"
    using chain_facts(1) [OF inv] by (simp_all add: ch)
  have qt: "q_tail (mem s) \<noteq> a" using hd chain_facts(3) [OF inv] by simp
  have ow: "owned (prods s r) \<noteq> Some a" for r
    using owned_facts(1) [OF inv] fresh by blast
  have lb: "limbo (looper s) \<noteq> Some a"
    using limbo_facts(1) [OF inv] fresh by blast
  have "inv_chain ?s" using inv by (simp add: sys_inv_def inv_chain_def)
  moreover have "inv_links ?s"
    using pc ch by (intro inv_links_frame [OF inv]) (simp_all add: pend_def)
  moreover have "inv_owned ?s"
    using ow lb ch owned_facts [OF inv] by (intro inv_ownedI) (auto split: if_splits)
  moreover have "looper_ok ?s (looper ?s)"
    using inv qt by (cases "(s, looper s)" rule: looper_ok.cases) (auto simp: sys_inv_def)
  moreover have "inv_fifo ?s"
    using inv qt tl by (cases "(s, looper s)" rule: in_flight.cases)
      (auto simp: sys_inv_def inv_fifo_def)
  moreover have "inv_wake ?s"
    using qt pc by (intro inv_wake_frame [OF inv]) auto
  moreover have "st_buf s p = None \<or> overtook s"
    using buf_facts(2) [OF inv, of p] pc by (cases "st_buf s p") auto
  then have "inv_buf ?s"
    using buf_facts [OF inv] by (intro inv_bufI) (auto split: if_splits)
  ultimately show ?thesis by (simp add: sys_inv_def)
qed

text \<open>The exchange on \<open>head_\<close>: the node joins the chain, its link is still to be published.\<close>

lemma sys_inv_swap:
  assumes inv: "sys_inv s" and pc: "prods s p = P_Push (PushAllocated cur)" and buf: "st_buf s p = None"
  shows "sys_inv (s\<lparr>prods := (prods s)(p := P_Push (PushSwapped cur (q_head (mem s)))),
    mem := (mem s)\<lparr>q_head := cur\<rparr>, nchain := nchain s @ [cur], enq := enq s @ [datum s cur]\<rparr>)" (is "sys_inv ?s")
proof -
  have "owned (prods s p) = Some cur" using pc by simp
  note cur = owned_facts [OF inv this] and ch = chain_facts [OF inv]
  have nl: "(last (nchain s), c) \<notin> links (nchain s)" for c by (rule links_last [OF ch(2)])
  have lk: "links (nchain ?s) = insert (last (nchain s), cur) (links (nchain s))"
    using links_snoc [OF ch(1)] by simp
  have pp: "pend ?s p = Some (last (nchain s), cur)" using ch(4) buf by (simp add: pend_def)
  have po: "pend ?s r = pend s r" if "r \<noteq> p" for r using that by (simp add: pend_def)
  have pn: "pend s p = None" using pc buf by (simp add: pend_def)
  have "inv_chain ?s" using inv cur ch by (auto simp: sys_inv_def inv_chain_def)
  moreover have "inv_links ?s"
  proof (rule inv_linksI)
    show "nexts ?s (last (nchain ?s)) = None" using cur(2) by simp
    show "nexts ?s b = Some c \<or> nexts ?s b = None \<and> (\<exists>r. pend ?s r = Some (b, c))"
      if "(b, c) \<in> links (nchain ?s)" for b c
    proof (cases "(b, c) = (last (nchain s), cur)")
      case True
      then show ?thesis using pp ch(5) by auto
    next
      case False
      then have "(b, c) \<in> links (nchain s)" using that lk by blast
      from link_cases [OF inv this] pn other_pend [of s "(b, c)" p ?s] po show ?thesis by auto
    qed
    show "(b, c) \<in> links (nchain ?s) \<and> nexts ?s b = None"
      if "pend ?s r = Some (b, c)" for r b c
      using that pending_facts(1,2) [OF inv, of r b c] pp po [of r] ch(5) unfolding lk
      by (cases "r = p") auto
    show "q = r" if "pend ?s q = Some (b, c)" "pend ?s r = Some (b, d)" for q r b c d
      using that pending_facts(1) [OF inv, of q b c] pending_facts(1) [OF inv, of r b d]
        pending_facts(3) [OF inv, of q b c r d] nl pp po [of q] po [of r]
      by (cases "q = p"; cases "r = p") auto
  qed
  moreover have "inv_owned ?s"
    using cur owned_facts [OF inv] by (intro inv_ownedI) (auto split: if_splits)
  moreover have "looper_ok ?s (looper ?s)"
    using looper_facts [OF inv] cur(4) by (cases "(s, looper s)" rule: looper_ok.cases) auto
  moreover have "inv_fifo ?s"
    using fifo_fact [OF inv] ch(1) by (cases "(s, looper s)" rule: in_flight.cases)
      (auto simp: inv_fifo_def)
  moreover have "inv_wake ?s"
    using pc by (intro inv_wake_frame [OF inv]) auto
  moreover have "inv_buf ?s"
    using buf_facts [OF inv] buf by (intro inv_bufI) (auto split: if_splits)
  ultimately show ?thesis by (simp add: sys_inv_def)
qed

text \<open>Publication: the link becomes visible to the loop thread.\<close>

lemma sys_inv_publish:
  assumes inv: "sys_inv s" and buf: "st_buf s p = Some (prev, cur)"
    and m: "store_next prev cur (mem s) = Inr m'"
  shows "sys_inv (s\<lparr>mem := m', st_buf := (st_buf s)(p := None)\<rparr>)"
    (is "sys_inv ?s")
proof -
  have p: "pend s p = Some (prev, cur)" using buf by (simp add: pend_def)
  note pf = pending_facts [OF inv p] and ch = chain_facts [OF inv]
  have prev: "prev \<in> set (nchain s)" using links_set [OF pf(1)] by simp
  obtain nd where nd: "nodes (mem s) prev = Some nd"
    and m': "m' = (mem s)\<lparr>nodes := (nodes (mem s))(prev \<mapsto> nd\<lparr>node_next := Some cur\<rparr>)\<rparr>"
    using m by (auto simp: store_next_def split: option.splits)
  have nx: "nexts ?s b = (if b = prev then Some cur else nexts s b)" for b by (simp add: m')
  have dt: "datum ?s b = datum s b" for b by (simp add: m' nd)
  have po: "pend ?s r = (if r = p then None else pend s r)" for r using buf_facts(1) [OF inv, of p] buf by (simp add: pend_def)
  have "inv_chain ?s" using inv by (auto simp: sys_inv_def inv_chain_def m')
  moreover have "inv_links ?s"
  proof (rule inv_linksI)
    show "nexts ?s (last (nchain ?s)) = None"
      using links_last [OF ch(2)] pf(1) ch(5) unfolding nx by auto
    show "nexts ?s b = Some c \<or> nexts ?s b = None \<and> (\<exists>r. pend ?s r = Some (b, c))"
      if "(b, c) \<in> links (nchain ?s)" for b c
    proof (cases "b = prev")
      case True
      then show ?thesis using that links_fun [OF ch(2) pf(1)] unfolding nx by auto
    next
      case False
      then have "pend s p \<noteq> Some (b, c)" using p by simp
      then have "\<exists>r. pend ?s r = Some (b, c)" if "\<exists>r. pend s r = Some (b, c)"
        by (rule other_pend [OF that]) (simp add: po)
      with that False show ?thesis unfolding nx using link_cases [OF inv, of b c] by auto
    qed
    show "(b, c) \<in> links (nchain ?s) \<and> nexts ?s b = None"
      if "pend ?s r = Some (b, c)" for r b c
      using that pending_facts(1,2) [OF inv, of r b c] pf(3) unfolding nx po
      by (auto split: if_splits)
    show "q = r" if "pend ?s q = Some (b, c)" "pend ?s r = Some (b, d)" for q r b c d
      using that pending_facts(3) [OF inv, of q b c r d] unfolding po by (auto split: if_splits)
  qed
  moreover have "inv_owned ?s"
    using prev owned_facts [OF inv] by (intro inv_ownedI) (auto simp: m' split: if_splits)
  moreover have "looper_ok ?s (looper ?s)"
    using looper_facts [OF inv] pf(2) nd by (cases "(s, looper s)" rule: looper_ok.cases) (auto simp: m')
  moreover have "inv_fifo ?s"
    using fifo_fact [OF inv] dt by (cases "(s, looper s)" rule: in_flight.cases)
      (simp_all add: inv_fifo_def)
  moreover have "inv_wake ?s"
  proof (cases "prev = q_tail (mem s)")
    case True
    then have "will_signal (q_tail (mem ?s)) (prods ?s p)" if "\<not> overtook s"
      using buf_facts(2) [OF inv buf that] by (cases "(prev, prods s p)" rule: loaded_late.cases) (simp_all add: m')
    then show ?thesis unfolding inv_wake_def by auto
  next
    case False
    then show ?thesis by (intro inv_wake_frame [OF inv]) (auto simp: m')
  qed
  moreover have "inv_buf ?s"
    using buf_facts [OF inv] by (intro inv_bufI) (auto split: if_splits)
  ultimately show ?thesis by (simp add: sys_inv_def)
qed

text \<open>Steps of the loop thread that leave the nodes alone.\<close>

lemma sys_inv_looper:
  assumes inv: "sys_inv s" and "looper_ok s c" "limbo c = None"
    "d @ in_flight s c = deq s @ in_flight s (looper s)"
    "asleep c \<Longrightarrow> \<not> ov \<Longrightarrow> asleep (looper s) \<and> pipe s \<le> n \<or> nexts s (q_tail (mem s)) = None"
    and mono: "overtook s \<Longrightarrow> ov" and buf: "asleep c \<Longrightarrow> \<not> ov \<Longrightarrow> asleep (looper s) \<or> old_tails s = []"
  shows "sys_inv (s\<lparr>looper := c, pipe := n, deq := d, overtook := ov\<rparr>)" (is "sys_inv ?s")
proof -
  have "inv_links ?s" by (intro inv_links_frame [OF inv]) (simp_all add: pend_def)
  moreover have "inv_owned ?s"
    using owned_facts [OF inv] assms(3) by (intro inv_ownedI) auto
  moreover have "inv_wake ?s"
    using wake_fact [OF inv] assms(5) mono by (fastforce simp: inv_wake_def)
  moreover have "inv_buf ?s"
    using buf_facts(3) [OF inv] mono buf by (intro inv_buf_frame [OF inv]) auto
  moreover have "inv_fifo ?s"
    using fifo_fact [OF inv] assms(4) in_flight_cong [of ?s s c]
    by (simp add: inv_fifo_def flip: append_assoc)
  ultimately show ?thesis
    using inv assms(2) looper_ok_cong [of ?s s] by (simp add: sys_inv_def inv_chain_def)
qed

text \<open>Advancing \<open>tail_\<close>: the old dummy leaves the chain, its successor takes its place.\<close>

lemma sys_inv_advance:
  assumes inv: "sys_inv s" and pc: "looper s = C_Pop (PopNext t (Some n))"
  shows "sys_inv (s\<lparr>looper := C_Pop (PopStored t n), mem := (mem s)\<lparr>q_tail := n\<rparr>, old_tails := old_tails s @ [t],
    nchain := tl (nchain s)\<rparr>)" (is "sys_inv ?s")
proof -
  note ch = chain_facts [OF inv]
  have t: "t = hd (nchain s)" and nx: "nexts s t = Some n"
    using looper_facts [OF inv] pc ch(3) by auto
  then obtain rest where c1: "nchain s = t # rest" using ch(1) by (cases "nchain s") auto
  then have "rest \<noteq> []" using nx ch(5) by auto
  moreover from this have "nexts s t = Some (hd rest)"
    using link_cases [OF inv, of t "hd rest"] nx c1 by (simp add: links_Cons)
  ultimately obtain rest' where c: "nchain s = t # n # rest'"
    using c1 nx by (cases rest) auto
  have pd: "pend ?s r = pend s r" for r by (simp add: pend_def)
  have tr: "t \<notin> set (n # rest')" using ch(2) c by simp
  have ow: "owned (prods s r) \<noteq> Some t" for r using owned_facts(3) [OF inv, of r t] c by auto
  have "inv_chain ?s" using inv c by (auto simp: sys_inv_def inv_chain_def)
  moreover have "inv_links ?s"
  proof (rule inv_linksI)
    show "nexts ?s (last (nchain ?s)) = None" using ch(5) c by simp
    show "nexts ?s a = Some b \<or> nexts ?s a = None \<and> (\<exists>r. pend ?s r = Some (a, b))"
      if "(a, b) \<in> links (nchain ?s)" for a b
      using link_cases [OF inv, of a b] that links_tl [of "nchain s"] unfolding pd by auto
    show "(a, b) \<in> links (nchain ?s) \<and> nexts ?s a = None"
      if "pend ?s r = Some (a, b)" for r a b
    proof -
      note pf = pending_facts(1,2) [OF inv that [unfolded pd]]
      with nx t have "a \<noteq> hd (nchain s)" by auto
      with pf links_not_hd [OF ch(2), of a b] show ?thesis by simp
    qed
    show "q = r" if "pend ?s q = Some (a, b)" "pend ?s r = Some (a, d)" for q r a b d
      using that pending_facts(3) [OF inv, of q a b r d] unfolding pd by simp
  qed
  moreover have "inv_owned ?s"
    using owned_facts [OF inv] c ow by (intro inv_ownedI) auto
  moreover have "looper_ok ?s (looper ?s)"
    using tr c chain_node [OF inv, of t] by simp
  moreover have "inv_fifo ?s"
    using fifo_fact [OF inv] pc c by (simp add: inv_fifo_def)
  moreover have "inv_wake ?s" by (simp add: inv_wake_def)
  moreover have "inv_buf ?s" by (intro inv_buf_frame [OF inv]) simp_all
  ultimately show ?thesis by (simp add: sys_inv_def)
qed

lemma sys_inv_free:
  assumes inv: "sys_inv s" and pc: "looper s = C_Pop (PopStored t n)"
  shows "sys_inv (s\<lparr>looper := C_Pop (PopFreed n), mem := (mem s)\<lparr>nodes := (nodes (mem s))(t := None)\<rparr>\<rparr>)"
    (is "sys_inv ?s")
proof -
  note ch = chain_facts [OF inv]
  have n: "n = q_tail (mem s)" and t: "t \<notin> set (nchain s)"
    using looper_facts [OF inv] pc by simp_all
  have ct: "b \<in> set (nchain s) \<Longrightarrow> b \<noteq> t" for b using t by blast
  have nt: "n \<noteq> t" using n ch(1,3) by (simp add: ct)
  have tl: "b \<in> set (tl (nchain s)) \<Longrightarrow> b \<noteq> t" for b by (rule ct) (rule set_tl)
  have ow: "owned (prods s r) \<noteq> Some t" for r
    using owned_facts(4) [OF inv, of r t] pc by auto
  have "inv_chain ?s" using inv t by (auto simp: sys_inv_def inv_chain_def)
  moreover have "inv_links ?s" by (intro inv_links_frame [OF inv]) (simp_all add: ct pend_def)
  moreover have "inv_owned ?s"
    using owned_facts [OF inv] ow by (intro inv_ownedI) auto
  moreover have "inv_fifo ?s"
    using fifo_fact [OF inv] pc nt tl by (simp add: inv_fifo_def)
  moreover have "inv_buf ?s" by (intro inv_buf_frame [OF inv]) simp_all
  ultimately show ?thesis using n by (simp add: sys_inv_def inv_wake_def)
qed

lemma sys_inv_drain_tail:
  assumes inv: "sys_inv s" and "old_tails s = t # ts"
  shows "sys_inv (s\<lparr>old_tails := ts\<rparr>)" (is "sys_inv ?s")
proof -
  have "inv_links ?s" by (intro inv_links_frame [OF inv]) (simp_all add: pend_def)
  moreover have "inv_buf ?s" using buf_facts(3) [OF inv] assms(2) by (intro inv_buf_frame [OF inv]) auto
  moreover have "inv_wake ?s" by (intro inv_wake_frame [OF inv]) simp_all
  ultimately show ?thesis
    using inv looper_ok_cong [of ?s s] in_flight_cong [of ?s s]
    by (simp add: sys_inv_def inv_chain_def inv_owned_def inv_fifo_def)
qed

lemma tail_restored [simp]:
  "m\<lparr>nodes := N, q_tail := q_tail m\<rparr> = m\<lparr>nodes := N\<rparr>" "m\<lparr>q_head := h, q_tail := q_tail m\<rparr> = m\<lparr>q_head := h\<rparr>"
  by (cases m; simp)+

lemma sys_inv_push:
  assumes inv: "sys_inv s" and pc: "prods s p = P_Push pc" and fresh: "nodes (mem s) a = None"
    and buf: "may_push pc (st_buf s p)"
    and st: "push_step a pc (shown s) = Inr (pc', m')"
  shows "sys_inv (push_effect p pc m' (s\<lparr>prods := (prods s)(p := P_Push pc')\<rparr>))"
proof -
  note keep = sys_inv_producer [OF inv, of p "P_Push pc'" "pipe s" _ "refused s"]
  show ?thesis
  proof (cases pc)
    case (PushStart x)
    with st have "pc' = PushAllocated a"
      "m' = (shown s)\<lparr>nodes := (nodes (mem s))(a \<mapsto> \<lparr>node_data = x, node_next = None\<rparr>)\<rparr>" by (simp_all add: shown_def)
    with PushStart sys_inv_alloc [OF inv _ fresh, of p x] pc show ?thesis by (simp add: shown_def)
  next
    case (PushAllocated cur)
    with st have "pc' = PushSwapped cur (q_head (mem s))" "m' = (shown s)\<lparr>q_head := cur\<rparr>" by (simp_all add: shown_def)
    with PushAllocated sys_inv_swap [OF inv, of p cur] pc buf show ?thesis by (simp add: shown_def)
  next
    case (PushSwapped cur prev)
    with st have "pc' = PushChecked cur prev (prev = q_tail (shown s))" by auto
    with PushSwapped keep [of "overtook s"] pc show ?thesis by simp
  next
    case (PushChecked cur prev e)
    with st have "pc' = PushPublished prev e" by (auto simp: fault_simps)
    with PushChecked sys_inv_buffer [OF inv, of p cur prev e] pc show ?thesis by simp
  next
    case (PushPublished prev e)
    let ?ov = "overtook s \<or> st_buf s p \<noteq> None \<and> \<not> e \<and> q_tail (shown s) \<noteq> prev"
    from PushPublished st have eq: "pc' = PushDone (e \<or> q_tail (shown s) = prev)" "m' = shown s" by auto
    have "will_signal (q_tail (mem s)) (P_Push pc')"
      if "asleep (looper s)" "\<not> ?ov" "will_signal (q_tail (mem s)) (prods s p)"
      using that buf_facts(3) [OF inv] pc PushPublished eq(1) by (auto simp: shown_def)
    with PushPublished keep [of ?ov] pc eq show ?thesis by auto
  next
    case (PushDone r)
    with st have "pc' = PushDone r" by simp
    with PushDone keep [of "overtook s"] pc show ?thesis by simp
  qed
qed

lemma sys_inv_pop:
  assumes inv: "sys_inv s" and pc: "looper s = C_Pop pc"
    and st: "pop_step pc (mem s) = Inr (pc', m')"
  shows "sys_inv (pop_effect pc m' (s\<lparr>looper := C_Pop pc'\<rparr>))"
proof -
  note keep = sys_inv_looper [OF inv, of "C_Pop pc'" "deq s" _ "pipe s"]
  note ok = looper_facts [OF inv, unfolded pc]
  show ?thesis
  proof (cases pc)
    case PopStart
    with st have "pc' = PopTail (q_tail (mem s))" "m' = mem s" by auto
    with PopStart keep [of "overtook s"] pc show ?thesis by simp
  next
    case (PopTail t)
    with st have e: "pc' = PopNext t (nexts s t)" "m' = mem s"
      by (auto simp: load_next_def fault_simps split: option.splits)
    have t: "t = q_tail (mem s)" using ok PopTail by simp
    let ?ov = "overtook s \<or> old_tails s \<noteq> [] \<and> nexts s t = None"
    have "sys_inv (s\<lparr>looper := C_Pop pc', pipe := pipe s, deq := deq s, overtook := ?ov\<rparr>)"
    proof (rule sys_inv_looper [OF inv])
      have n: "nexts s (q_tail (mem s)) = None" if "asleep (C_Pop pc')"
        using that e(1) t by (cases "nexts s t") simp_all
      show "asleep (looper s) \<and> pipe s \<le> pipe s \<or> nexts s (q_tail (mem s)) = None" if "asleep (C_Pop pc')" "\<not> ?ov"
        using n [OF that(1)] by simp
      show "asleep (looper s) \<or> old_tails s = []" if "asleep (C_Pop pc')" "\<not> ?ov"
        using that e(1) by (cases "nexts s t") simp_all
    qed (simp_all add: e(1) t pc PopTail)
    then show ?thesis using PopTail e by simp
  next
    case (PopNext t nx)
    show ?thesis
    proof (cases nx)
      case None
      with PopNext st have "pc' = PopDone None" "m' = mem s" by auto
      with None PopNext keep [of "overtook s"] pc show ?thesis by simp
    next
      case (Some n)
      with PopNext st have "pc' = PopStored t n" "m' = (mem s)\<lparr>q_tail := n\<rparr>" by auto
      with Some PopNext sys_inv_advance [OF inv, of t n] pc show ?thesis by simp
    qed
  next
    case (PopStored t n)
    with st have "pc' = PopFreed n" "m' = (mem s)\<lparr>nodes := (nodes (mem s))(t := None)\<rparr>"
      by (auto simp: free_node_def fault_simps split: option.splits)
    with PopStored sys_inv_free [OF inv, of t n] pc show ?thesis by simp
  next
    case (PopFreed n)
    with st have "pc' = PopDone (Some (datum s n))" "m' = mem s"
      by (auto simp: load_data_def fault_simps split: option.splits)
    with PopFreed keep [of "overtook s"] pc show ?thesis by simp
  next
    case (PopDone r)
    with st have "pc' = PopDone r" "m' = mem s" by auto
    with PopDone keep [of "overtook s"] pc ok show ?thesis by simp
  qed
qed

lemma sys_inv_step:
  assumes "sys_step s t" "sys_inv s"
  shows "sys_inv t"
  using assms
proof (cases rule: sys_step.cases)
  case (call p x)
  then show ?thesis
    using sys_inv_producer [OF assms(2), of p "P_Push (PushStart x)" "pipe s" "overtook s" "refused s"] by simp
next
  case (no_memory p x)
  then show ?thesis using sys_inv_producer [OF assms(2), of p P_Idle "pipe s" "overtook s" "refused s"] by simp
next
  case (push p pc a pc' m')
  then show ?thesis using sys_inv_push [OF assms(2)] by blast
next
  case (kick p)
  then show ?thesis using sys_inv_producer [OF assms(2), of p P_Signal "pipe s" "overtook s" "refused s"] by simp
next
  case (quiet p)
  then show ?thesis using sys_inv_producer [OF assms(2), of p P_Idle "pipe s" "overtook s" "refused s"] by simp
next
  case (signal p)
  then show ?thesis using sys_inv_producer [OF assms(2), of p P_Idle "Suc (pipe s)" "overtook s" "refused s"] by simp
next
  case (signal_fails p)
  then show ?thesis using sys_inv_producer [OF assms(2), of p P_Idle "pipe s" "overtook s" True] by simp
next
  case (pop pc pc' m')
  then show ?thesis using sys_inv_pop [OF assms(2)] by blast
next
  case (run x)
  then show ?thesis
    using sys_inv_looper [OF assms(2), of "C_Pop PopStart" "deq s @ [x]" "overtook s" "pipe s"] by simp
next
  case wait
  then show ?thesis using sys_inv_looper [OF assms(2), of C_Wait "deq s" "overtook s" "pipe s"] by simp
next
  case wake
  then show ?thesis
    using sys_inv_looper [OF assms(2), of "C_Pop PopStart" "deq s" "overtook s" "pipe s - min 8 (pipe s)"] by simp
next
  case poll
  then show ?thesis using sys_inv_looper [OF assms(2), of "C_Pop PopStart" "deq s" "overtook s" "pipe s"] by simp
next
  case (drain p prev cur m')
  then show ?thesis using sys_inv_publish [OF assms(2)] by blast
next
  case (drain_tail u us)
  then show ?thesis using sys_inv_drain_tail [OF assms(2)] by blast
qed

lemma sys_inv_reach: "sys_reach dflt a s \<Longrightarrow> sys_inv s"
  by (induction rule: sys_reach.induct) (simp_all add: sys_inv_init sys_inv_step)

subsection \<open>What the invariant gives\<close>

lemma pend_live:
  assumes inv: "sys_inv s" and "pend s p = Some (prev, cur)"
  shows "\<exists>m'. store_next prev cur (mem s) = Inr m'"
proof -
  from links_set [OF pending_facts(1) [OF assms]] chain_node [OF inv, of prev]
  obtain nd where "nodes (mem s) prev = Some nd" by blast
  then show ?thesis by (simp add: store_next_def)
qed

lemma inv_push_safe:
  assumes inv: "sys_inv s" and pc: "prods s p = P_Push pc"
  shows "\<exists>pc' m'. push_step a pc (shown s) = Inr (pc', m')"
proof (cases pc)
  case (PushChecked cur prev e)
  then have "pend s p = Some (prev, cur)" using pend_pc [OF _ inv, of p] pc by simp
  from pend_live [OF inv this] PushChecked show ?thesis by (auto simp: store_next_def shown_def split: option.splits)
qed simp_all

lemma inv_pop_safe:
  assumes inv: "sys_inv s" and pc: "looper s = C_Pop pc"
  shows "\<exists>pc' m'. pop_step pc (mem s) = Inr (pc', m')"
proof -
  have "q_tail (mem s) \<in> set (nchain s)" using chain_facts(1,3) [OF inv] by simp
  from chain_node [OF inv this] looper_facts [OF inv] pc show ?thesis
    by (cases "(pc, mem s)" rule: pop_step.cases) (auto simp: load_next_def load_data_def free_node_def)
qed

text \<open>An operation is waiting: it is published, or its producer is about to publish it.\<close>

lemma inv_backlog:
  assumes inv: "sys_inv s" and "tl (nchain s) \<noteq> []" "\<And>r. pend s r = None"
  shows "nexts s (q_tail (mem s)) \<noteq> None"
proof -
  obtain a b xs where c: "nchain s = a # b # xs"
    using chain_facts(1) [OF inv] assms(2) by (cases "nchain s"; cases "tl (nchain s)") auto
  then have "(a, b) \<in> links (nchain s)" by (simp add: links_Cons)
  from link_cases [OF inv this] assms(3) chain_facts(3) [OF inv] c show ?thesis by auto
qed

subsection \<open>Whole operations\<close>

text \<open>\<open>holds m c xs\<close>: no push is under way and the queue contains \<open>xs\<close>, in the nodes \<open>c\<close>.\<close>

definition holds :: "'a mpsc \<Rightarrow> addr list \<Rightarrow> 'a list \<Rightarrow> bool" where
  "holds m c xs \<longleftrightarrow> c \<noteq> [] \<and> distinct c \<and> q_tail m = hd c \<and> q_head m = last c \<and>
     (\<forall>a \<in> set c. nodes m a \<noteq> None) \<and>
     (\<forall>(a, b) \<in> links c. node_next (the (nodes m a)) = Some b) \<and>
     node_next (the (nodes m (last c))) = None \<and>
     map (\<lambda>a. node_data (the (nodes m a))) (tl c) = xs"

lemma holds_init: "holds (mpsc_init dflt a) [a] []"
  by (simp add: holds_def mpsc_init_def links_Cons)

lemma holds_push:
  assumes h: "holds m c xs" and fresh: "nodes m a = None"
  shows "\<exists>m'. mpsc_push a x m = Inr (xs = [], m') \<and> holds m' (c @ [a]) (xs @ [x])"
proof -
  let ?n = "(nodes m)(a \<mapsto> \<lparr>node_data = x, node_next = None\<rparr>)"
  have ca: "a \<notin> set c" using h fresh by (auto simp: holds_def)
  have la: "last c \<in> set c" using h by (simp add: holds_def)
  then obtain nd where nd: "nodes m (last c) = Some nd" using h by (fastforce simp: holds_def)
  have tls: "b \<in> set (tl c) \<Longrightarrow> b \<noteq> a" for b using ca set_tl by metis
  let ?m = "m\<lparr>nodes := ?n(last c \<mapsto> nd\<lparr>node_next := Some a\<rparr>), q_head := a\<rparr>"
  have ne: "last c \<noteq> a" using la ca by auto
  obtain e es where c: "c = e # es" using h by (cases c) (auto simp: holds_def)
  have "e \<notin> set es" using h c by (simp add: holds_def)
  then have "es \<noteq> [] \<Longrightarrow> last es \<noteq> e" using last_in_set by metis
  then have "(last c = hd c) = (xs = [])" using h c by (auto simp: holds_def)
  then have "mpsc_push a x m = Inr (xs = [], ?m)"
    using h nd ne by (auto simp: mpsc_push_def numeral_eq_Suc store_next_def holds_def)
  moreover have "holds ?m (c @ [a]) (xs @ [x])"
    unfolding holds_def
  proof (intro conjI)
    show "\<forall>(b, d) \<in> links (c @ [a]). node_next (the (nodes ?m b)) = Some d"
    proof (safe, goal_cases)
      case (1 b d)
      show ?case
      proof (cases "b = last c")
        case True
        then show ?thesis using 1 h links_snoc [of c a] links_last [of c d] by (auto simp: holds_def)
      next
        case False
        then have "(b, d) \<in> links c" using 1 h links_snoc [of c a] by (auto simp: holds_def)
        with False h ca links_set [of b d c] show ?thesis by (auto simp: holds_def)
      qed
    qed
    show "map (\<lambda>b. node_data (the (nodes ?m b))) (tl (c @ [a])) = xs @ [x]"
      using h nd ne tls by (auto simp: holds_def)
  qed (use h ca ne in \<open>auto simp: holds_def\<close>)
  ultimately show ?thesis by blast
qed

lemma holds_push_dom:
  assumes "holds m c xs" "mpsc_push a x m = Inr (r, m')"
  shows "dom (nodes m') = insert a (dom (nodes m))"
  using assms
  by (auto simp: mpsc_push_def numeral_eq_Suc store_next_def holds_def bindE_def
    split: option.splits if_splits sum.splits)

lemma holds_pop_empty: "holds m c [] \<Longrightarrow> mpsc_pop m = Inr (None, m)"
  by (cases c) (auto simp: holds_def mpsc_pop_def numeral_eq_Suc load_next_def)

lemma holds_pop:
  assumes "holds m c (x # xs)"
  shows "\<exists>m'. mpsc_pop m = Inr (Some x, m') \<and> holds m' (tl c) xs"
proof -
  from assms obtain a b ys where c: "c = a # b # ys"
    by (cases c; cases "tl c") (auto simp: holds_def)
  let ?m = "m\<lparr>nodes := (nodes m)(a := None), q_tail := b\<rparr>"
  have "mpsc_pop m = Inr (Some x, ?m)"
    using assms c by (auto simp: holds_def mpsc_pop_def numeral_eq_Suc load_next_def load_data_def free_node_def links_Cons)
  moreover have "holds ?m (b # ys) xs"
    using assms c links_set [of _ _ "b # ys"] by (fastforce simp: holds_def links_Cons split: if_splits)
  ultimately show ?thesis using c by auto
qed

lemma holds_pop_dom:
  assumes "holds m c (x # xs)" "mpsc_pop m = Inr (r, m')"
  shows "dom (nodes m') = dom (nodes m) - {hd c}"
proof -
  from assms(1) obtain a b ys where c: "c = a # b # ys"
    by (cases c; cases "tl c") (auto simp: holds_def)
  show ?thesis using assms c
    by (auto simp: holds_def mpsc_pop_def numeral_eq_Suc load_next_def load_data_def free_node_def links_Cons split: if_splits)
qed

end
