(* ===== verification/Op_Queue.thy ===== *)
theory Op_Queue
  imports Mpsc_Correct
begin

text \<open>
  What the event base relies on when it uses \<open>ConcurrentMPSCQueue\<close>, as a locale, its client lemmas,
  the interpretation on the model of \<open>src/src/mpsc_queue.h\<close>, executable traces of the interleaved
  system, and the properties of the queue and of the wake-up protocol.
\<close>

subsection \<open>The contract of an operation queue\<close>

text \<open>
  \<open>pop_all\<close> is the loop \<open>while (pop()) \<dots>\<close>, which \<open>runOpsInQueue\<close> and the destructor execute, with
  the popped elements collected; \<open>push_all\<close> is a sequence of pushes.
\<close>

fun pop_all :: "('q \<Rightarrow> fault + 'a option \<times> 'q) \<Rightarrow> nat \<Rightarrow> 'q \<Rightarrow> fault + 'a list \<times> 'q" where
  "pop_all pop 0 q = Inr ([], q)"
| "pop_all pop (Suc k) q = bindE (pop q) (\<lambda>(r, q'). case r of
       None \<Rightarrow> Inr ([], q')
     | Some x \<Rightarrow> bindE (pop_all pop k q') (\<lambda>(xs, q''). Inr (x # xs, q'')))"

fun push_all :: "(addr \<Rightarrow> 'a \<Rightarrow> 'q \<Rightarrow> fault + bool \<times> 'q) \<Rightarrow> (addr \<times> 'a) list \<Rightarrow> 'q \<Rightarrow>
    fault + bool list \<times> 'q" where
  "push_all push [] q = Inr ([], q)"
| "push_all push ((a, x) # axs) q = bindE (push a x q) (\<lambda>(r, q').
     bindE (push_all push axs q') (\<lambda>(rs, q''). Inr (r # rs, q'')))"

locale op_queue =
  fixes push :: "addr \<Rightarrow> 'a \<Rightarrow> 'q \<Rightarrow> fault + bool \<times> 'q"
    and pop :: "'q \<Rightarrow> fault + 'a option \<times> 'q"
    and fresh :: "'q \<Rightarrow> addr \<Rightarrow> bool"
    and reps :: "'q \<Rightarrow> 'a list \<Rightarrow> bool"
  assumes push_law: "reps q xs \<Longrightarrow> fresh q a \<Longrightarrow>
      \<exists>q'. push a x q = Inr (xs = [], q') \<and> reps q' (xs @ [x]) \<and>
           (\<forall>b. b \<noteq> a \<longrightarrow> fresh q b \<longrightarrow> fresh q' b)"
    and pop_none: "reps q [] \<Longrightarrow> pop q = Inr (None, q)"
    and pop_some: "reps q (x # xs) \<Longrightarrow> \<exists>q'. pop q = Inr (Some x, q') \<and> reps q' xs"
begin

lemma pop_all_reps:
  "reps q xs \<Longrightarrow> length xs < k \<Longrightarrow> \<exists>q'. pop_all pop k q = Inr (xs, q') \<and> reps q' []"
proof (induction xs arbitrary: q k)
  case Nil
  then show ?case by (cases k) (auto simp: pop_none)
next
  case (Cons x xs)
  from Cons.prems obtain j where k: "k = Suc j" "length xs < j" by (cases k) auto
  from pop_some [OF Cons.prems(1)] obtain q' where "pop q = Inr (Some x, q')" "reps q' xs" by blast
  with Cons.IH [of q' j] k show ?case by auto
qed

lemma push_all_reps:
  assumes "reps q xs" "distinct (map fst axs)" "\<forall>a \<in> fst ` set axs. fresh q a"
  shows "\<exists>q'. push_all push axs q =
      Inr (map (\<lambda>i. xs = [] \<and> i = 0) [0..<length axs], q') \<and> reps q' (xs @ map snd axs)"
  using assms
proof (induction axs arbitrary: q xs)
  case (Cons ax axs)
  obtain a x where ax: "ax = (a, x)" by force
  from Cons.prems ax push_law [of q xs a x] obtain q' where q':
    "push a x q = Inr (xs = [], q')" "reps q' (xs @ [x])"
    "\<And>b. b \<noteq> a \<Longrightarrow> fresh q b \<Longrightarrow> fresh q' b" by auto
  have "fresh q' b" if "b \<in> fst ` set axs" for b
  proof -
    have "b \<noteq> a" using that Cons.prems(2) ax by auto
    moreover have "fresh q b" using that Cons.prems(3) by auto
    ultimately show ?thesis by (rule q'(3))
  qed
  then have "\<forall>b \<in> fst ` set axs. fresh q' b" by blast
  from Cons.IH [OF q'(2) _ this] Cons.prems(2) obtain q'' where
    "push_all push axs q' = Inr (map (\<lambda>i. False) [0..<length axs], q'')"
    "reps q'' (xs @ x # map snd axs)" by auto
  then show ?case using ax q'(1) by (simp add: upt_conv_Cons map_Suc_upt [symmetric] del: upt_Suc)
qed simp

text \<open>Every operation that was pushed is popped once, in order, and only the first push notifies.\<close>

lemma push_all_pop_all:
  assumes "reps q []" "distinct (map fst axs)" "\<forall>a \<in> fst ` set axs. fresh q a" "length axs < k"
  shows "\<exists>q' q''. push_all push axs q = Inr (map (\<lambda>i. i = 0) [0..<length axs], q') \<and>
      pop_all pop k q' = Inr (map snd axs, q'') \<and> reps q'' []"
proof -
  from push_all_reps [OF assms(1-3)] obtain q' where
    q': "push_all push axs q = Inr (map (\<lambda>i. i = 0) [0..<length axs], q')" "reps q' (map snd axs)" by auto
  from pop_all_reps [OF q'(2), of k] assms(4) q'(1) show ?thesis by auto
qed

end

text \<open>The heap holds the nodes of the queue and nothing else.\<close>

definition represents :: "'a mpsc \<Rightarrow> 'a list \<Rightarrow> bool" where
  "represents m xs \<longleftrightarrow> (\<exists>c. holds m c xs \<and> dom (nodes m) = set c)"

interpretation mq: op_queue mpsc_push mpsc_pop "\<lambda>m a. nodes m a = None" represents
proof (unfold_locales, goal_cases)
  case (1 q xs a x)
  then obtain c where c: "holds q c xs" "dom (nodes q) = set c" by (auto simp: represents_def)
  from holds_push [OF c(1) 1(2)] obtain q' where
    q': "mpsc_push a x q = Inr (xs = [], q')" "holds q' (c @ [a]) (xs @ [x])" by blast
  from holds_push_dom [OF c(1) q'(1)] have d: "dom (nodes q') = insert a (dom (nodes q))" .
  then have "nodes q' b = None" if "b \<noteq> a" "nodes q b = None" for b using that by blast
  with q' c(2) d show ?case by (fastforce simp: represents_def)
next
  case (2 q)
  then show ?case using holds_pop_empty by (auto simp: represents_def)
next
  case (3 q x xs)
  then obtain c where c: "holds q c (x # xs)" "dom (nodes q) = set c" by (auto simp: represents_def)
  from holds_pop [OF c(1)] obtain q' where
    q': "mpsc_pop q = Inr (Some x, q')" "holds q' (tl c) xs" by blast
  from holds_pop_dom [OF c(1) q'(1)] c have "dom (nodes q') = set (tl c)"
    by (cases c) (auto simp: holds_def)
  with q' show ?case by (auto simp: represents_def)
qed

lemma represents_init: "represents (mpsc_init d a) []"
  unfolding represents_def using holds_init [of d a] by (auto simp: mpsc_init_def)

subsection \<open>Destruction\<close>

lemma clear_represents:
  assumes "represents m xs" "length xs < k"
  shows "\<exists>m'. mpsc_clear k m = Inr m' \<and> represents m' []"
  using assms
proof (induction xs arbitrary: m k)
  case Nil
  then show ?case using mq.pop_none [OF Nil(1)] by (cases k) auto
next
  case (Cons x xs)
  from Cons.prems(2) obtain j where k: "k = Suc j" "length xs < j" by (cases k) auto
  from mq.pop_some [OF Cons.prems(1)] obtain m' where
    "mpsc_pop m = Inr (Some x, m')" "represents m' xs" by blast
  with Cons.IH [of m' j] k show ?case by simp
qed

lemma represents_dummy: "represents m [] \<Longrightarrow> dom (nodes m) = {q_head m}"
  unfolding represents_def by (elim exE conjE, rename_tac c, case_tac c) (auto simp: holds_def)

lemma destroy_represents:
  assumes "represents m xs" "length xs < k"
  shows "\<exists>m1 m'. mpsc_clear k m = Inr m1 \<and> dom (nodes m1) = {q_head m1} \<and>
    mpsc_destroy k m = Inr m' \<and> nodes m' = Map.empty"
proof -
  from clear_represents [OF assms] obtain m1 where
    m1: "mpsc_clear k m = Inr m1" "represents m1 []" by blast
  note d = represents_dummy [OF m1(2)]
  then obtain nd where nd: "nodes m1 (q_head m1) = Some nd" by blast
  have "(nodes m1)(q_head m1 := None) = Map.empty" using d by (auto simp: fun_eq_iff)
  then show ?thesis using m1 d nd
    by (intro exI [of _ m1] exI [of _ "m1\<lparr>nodes := Map.empty\<rparr>"]) (simp add: mpsc_destroy_def free_node_def)
qed

subsection \<open>Executable traces\<close>

text \<open>
  A schedule is a list of choices; \<open>exec_choice\<close> carries one out and \<open>exec_trace\<close> a whole schedule.
\<close>

datatype 'a choice =
    Ch_Call nat 'a
  | Ch_Push nat addr
  | Ch_Report nat
  | Ch_Signal nat
  | Ch_Drain nat
  | Ch_Drain_Tail
  | Ch_Pop
  | Ch_Loop

fun exec_choice :: "'a choice \<Rightarrow> 'a sys \<Rightarrow> 'a sys option" where
  "exec_choice (Ch_Call p x) s = (case prods s p of
       P_Idle \<Rightarrow> Some (s\<lparr>prods := (prods s)(p := P_Push (PushStart x))\<rparr>)
     | _ \<Rightarrow> None)"
| "exec_choice (Ch_Push p a) s = (case (prods s p, nodes (mem s) a) of
       (P_Push pc, None) \<Rightarrow> if may_push pc (st_buf s p) then (case push_step a pc (shown s) of
           Inr (pc', m') \<Rightarrow> Some (push_effect p pc m' (s\<lparr>prods := (prods s)(p := P_Push pc')\<rparr>))
         | Inl _ \<Rightarrow> None) else None
     | _ \<Rightarrow> None)"
| "exec_choice (Ch_Report p) s = (case prods s p of
       P_Push (PushDone r) \<Rightarrow> Some (s\<lparr>prods := (prods s)(p := (if r then P_Signal else P_Idle))\<rparr>)
     | _ \<Rightarrow> None)"
| "exec_choice (Ch_Signal p) s = (case (prods s p, st_buf s p) of
       (P_Signal, None) \<Rightarrow> Some (s\<lparr>prods := (prods s)(p := P_Idle), pipe := Suc (pipe s)\<rparr>)
     | _ \<Rightarrow> None)"
| "exec_choice (Ch_Drain p) s = (case st_buf s p of
       Some (prev, cur) \<Rightarrow> (case store_next prev cur (mem s) of
           Inr m' \<Rightarrow> Some (s\<lparr>mem := m', st_buf := (st_buf s)(p := None)\<rparr>)
         | Inl _ \<Rightarrow> None)
     | None \<Rightarrow> None)"
| "exec_choice Ch_Drain_Tail s = (case old_tails s of
       t # ts \<Rightarrow> Some (s\<lparr>old_tails := ts\<rparr>)
     | [] \<Rightarrow> None)"
| "exec_choice Ch_Pop s = (case looper s of
       C_Pop pc \<Rightarrow> (case pop_step pc (mem s) of
           Inr (pc', m') \<Rightarrow> Some (pop_effect pc m' (s\<lparr>looper := C_Pop pc'\<rparr>))
         | Inl _ \<Rightarrow> None)
     | _ \<Rightarrow> None)"
| "exec_choice Ch_Loop s = (case looper s of
       C_Pop (PopDone (Some x)) \<Rightarrow> Some (s\<lparr>looper := C_Pop PopStart, deq := deq s @ [x]\<rparr>)
     | C_Pop (PopDone None) \<Rightarrow> if old_tails s = [] then Some (s\<lparr>looper := C_Wait\<rparr>) else None
     | C_Wait \<Rightarrow> if pipe s > 0
         then Some (s\<lparr>looper := C_Pop PopStart, pipe := pipe s - min 8 (pipe s)\<rparr>) else None
     | _ \<Rightarrow> None)"

fun exec_trace :: "'a choice list \<Rightarrow> 'a sys \<Rightarrow> 'a sys option" where
  "exec_trace [] s = Some s"
| "exec_trace (c # cs) s = (case exec_choice c s of None \<Rightarrow> None | Some s' \<Rightarrow> exec_trace cs s')"

lemma exec_choice_step: "exec_choice c s = Some t \<Longrightarrow> sys_step s t"
proof (cases c)
  case (Ch_Report p)
  then show "exec_choice c s = Some t \<Longrightarrow> sys_step s t"
    using sys_step.kick [of s p] sys_step.quiet [of s p]
    by (auto split: producer.splits push_pc.splits if_splits)
qed (auto intro: sys_step.intros split: producer.splits consumer.splits pop_pc.splits option.splits
  sum.splits list.splits if_splits)

lemma exec_trace_reach: "sys_reach d a s \<Longrightarrow> exec_trace cs s = Some t \<Longrightarrow> sys_reach d a t"
  by (induction cs s rule: exec_trace.induct)
    (auto split: option.splits intro: sys_reach.step exec_choice_step)

lemmas exec_reach = exec_trace_reach [OF sys_reach.start]

text \<open>
  One operation is handed to a sleeping loop thread and run: the loop thread finds the queue
  empty and waits; producer 1 pushes the operation into node 9 and notifies; the loop thread
  wakes up, runs the operation and waits again.
\<close>

definition demo_trace :: "nat choice list" where
  "demo_trace = replicate 3 Ch_Pop @ [Ch_Loop, Ch_Call 1 7] @ map (Ch_Push 1) [9..<14] @
     [Ch_Drain 1, Ch_Report 1, Ch_Signal 1, Ch_Loop] @ replicate 5 Ch_Pop @ [Ch_Loop, Ch_Drain_Tail] @
     replicate 3 Ch_Pop @ [Ch_Loop]"

text \<open>The first \<open>n\<close> choices of it.\<close>

definition demo_state :: "nat \<Rightarrow> nat sys" where
  "demo_state n = the (exec_trace (take n demo_trace) (sys_init 0 0))"

lemmas trace_defs = sys_init_def mpsc_init_def numeral_eq_Suc load_next_def load_data_def store_next_def free_node_def
  shown_def upt_rec [of _ "Suc _"]

lemmas demo_defs = demo_state_def demo_trace_def trace_defs

lemma demo_reach:
  "exec_trace (take n demo_trace) (sys_init 0 0) \<noteq> None \<Longrightarrow> sys_reach 0 0 (demo_state n)"
  by (auto simp: demo_state_def intro: exec_reach)

subsection \<open>Progress\<close>

text \<open>
  A step of the loop thread without the producers, in which a wait ends only with a byte that has come through
  the notification descriptor; and how far the loop thread is from having run everything.
\<close>

definition loop_alone :: "'a sys \<Rightarrow> 'a sys \<Rightarrow> bool" where
  "loop_alone s t \<longleftrightarrow> sys_step s t \<and> prods t = prods s \<and> enq t = enq s \<and> (looper s = C_Wait \<longrightarrow> pipe t < pipe s)"

fun pc_work :: "'a consumer \<Rightarrow> nat" where
  "pc_work C_Wait = 7"
| "pc_work (C_Pop PopStart) = 6"
| "pc_work (C_Pop (PopTail t)) = 5"
| "pc_work (C_Pop (PopNext t None)) = 9"
| "pc_work (C_Pop (PopNext t (Some n))) = 4"
| "pc_work (C_Pop (PopStored t n)) = 10"
| "pc_work (C_Pop (PopFreed n)) = 9"
| "pc_work (C_Pop (PopDone r)) = 8"

definition loop_work :: "'a sys \<Rightarrow> nat" where
  "loop_work s = 13 * length (tl (nchain s)) + length (old_tails s) + pc_work (looper s)"

text \<open>
  The producers have returned, with true, and no load has overtaken a store, or if one has there was
  nothing left to run.
\<close>

definition settled :: "'a sys \<Rightarrow> bool" where
  "settled s \<longleftrightarrow> sys_inv s \<and> (\<forall>p. prods s p = P_Idle) \<and> \<not> refused s \<and> (\<not> overtook s \<or> deq s = enq s)"

lemma idle_pend:
  assumes "sys_inv s" "prods s p = P_Idle" "\<not> overtook s"
  shows "pend s p = None"
  using buf_facts(2) [OF assms(1) _ assms(3), of p] assms(2) by (cases "st_buf s p") (auto simp: pend_def)

lemma backlog:
  assumes s: "settled s" "\<not> overtook s" and "deq s \<noteq> enq s" "in_flight s (looper s) = []"
  shows "nexts s (q_tail (mem s)) \<noteq> None"
proof -
  have inv: "sys_inv s" and "\<And>p. pend s p = None" using s idle_pend by (auto simp: settled_def)
  then show ?thesis using inv_backlog [OF inv] fifo_fact [OF inv] assms(3,4) by force
qed

lemma settled_alone:
  assumes s: "settled s" and st: "loop_alone s t"
  shows "settled t"
proof -
  have inv: "sys_inv s" "sys_inv t" and idle: "\<And>p. prods s p = P_Idle" "\<And>p. prods t p = P_Idle" and enq: "enq t = enq s"
    using s st sys_inv_step by (auto simp: settled_def loop_alone_def)
  have step: "sys_step s t" using st by (simp add: loop_alone_def)
  have "refused t = refused s \<and> (deq t = deq s \<or> (\<exists>x. deq t = deq s @ [x])) \<and>
    (overtook t \<longrightarrow> overtook s \<or> deq t = deq s \<and> looper s = C_Pop (PopTail (q_tail (mem s))) \<and> nexts s (q_tail (mem s)) = None)"
    using step
  proof (cases rule: sys_step.cases)
    case (pop pc pc' m')
    then show ?thesis using looper_facts [OF inv(1)]
      by (cases "(pc, m', s)" rule: pop_effect.cases) (auto simp: load_next_def fault_simps split: option.splits)
  qed (use idle in auto)
  moreover have "deq t = deq s" if "deq s = enq s" "deq t = deq s \<or> (\<exists>x. deq t = deq s @ [x])"
    using that fifo_fact [OF inv(2)] enq by auto
  moreover have "deq s = enq s" if "\<not> overtook s" "looper s = C_Pop (PopTail (q_tail (mem s)))" "nexts s (q_tail (mem s)) = None"
    using backlog [OF s that(1)] that(2,3) by auto
  ultimately show ?thesis using s inv(2) idle(2) enq unfolding settled_def by metis
qed

lemma loop_progress:
  assumes s: "settled s" and ne: "deq s \<noteq> enq s"
  shows "\<exists>t. loop_alone s t \<and> loop_work t < loop_work s"
proof -
  have inv: "sys_inv s" and idle: "\<And>p. prods s p = P_Idle" and fine: "\<not> refused s" "\<not> overtook s"
    using s ne by (auto simp: settled_def)
  note backlog = backlog [OF s fine(2) ne]
  have popping: ?thesis if lp: "looper s = C_Pop pc" and dec:
    "\<And>pc' m'. pop_step pc (mem s) = Inr (pc', m') \<Longrightarrow> loop_work (pop_effect pc m' (s\<lparr>looper := C_Pop pc'\<rparr>)) < loop_work s" for pc
  proof -
    obtain pc' m' where st: "pop_step pc (mem s) = Inr (pc', m')"
      using inv_pop_safe [OF inv lp] by blast
    let ?t = "pop_effect pc m' (s\<lparr>looper := C_Pop pc'\<rparr>)"
    have "sys_step s ?t" by (rule sys_step.pop [OF lp st])
    moreover have "prods ?t = prods s" "enq ?t = enq s"
      by (cases "(pc, m', s)" rule: pop_effect.cases; simp)+
    ultimately show ?thesis using dec [OF st] lp unfolding loop_alone_def by fastforce
  qed
  show ?thesis
  proof (cases "looper s")
    case C_Wait
    then have "pipe s > 0" using wake_fact [OF inv _ _ fine(2,1)] backlog idle by auto
    from sys_step.wake [OF C_Wait this] C_Wait this show ?thesis
      by (fastforce simp: loop_alone_def loop_work_def)
  next
    case (C_Pop pc)
    show ?thesis
    proof (cases pc)
      case PopStart
      then show ?thesis using C_Pop by (intro popping [OF C_Pop]) (auto simp: loop_work_def)
    next
      case (PopTail t)
      have "t = q_tail (mem s)" using looper_facts [OF inv] C_Pop PopTail by simp
      moreover have "nexts s (q_tail (mem s)) \<noteq> None" using backlog C_Pop PopTail by simp
      ultimately show ?thesis using C_Pop PopTail
        by (intro popping [OF C_Pop])
          (auto simp: loop_work_def load_next_def split: option.splits)
    next
      case (PopNext t nx)
      show ?thesis
      proof (cases nx)
        case None
        then show ?thesis using C_Pop PopNext by (intro popping [OF C_Pop]) (auto simp: loop_work_def)
      next
        case (Some n)
        have "tl (nchain s) \<noteq> []" using fifo_fact [OF inv] ne C_Pop PopNext Some by auto
        then show ?thesis using C_Pop PopNext Some
          by (intro popping [OF C_Pop]) (cases "tl (nchain s)"; auto simp: loop_work_def)
      qed
    next
      case (PopStored t n)
      then show ?thesis using C_Pop
        by (intro popping [OF C_Pop]) (auto simp: loop_work_def free_node_def split: option.splits)
    next
      case (PopFreed n)
      then show ?thesis using C_Pop
        by (intro popping [OF C_Pop]) (auto simp: loop_work_def load_data_def split: option.splits)
    next
      case (PopDone r)
      have "old_tails s = []" if "r = None" using buf_facts(3) [OF inv _ fine(2)] C_Pop PopDone that by simp
      then show ?thesis
        using C_Pop PopDone sys_step.run [of s] sys_step.wait [of s]
        by (cases r) (fastforce simp: loop_alone_def loop_work_def)+
    qed
  qed
qed

lemma loop_finishes:
  assumes "settled s"
  shows "\<exists>t. loop_alone\<^sup>*\<^sup>* s t \<and> deq t = enq t \<and> enq t = enq s"
  using assms
proof (induction "loop_work s" arbitrary: s rule: less_induct)
  case less
  show ?case
  proof (cases "deq s = enq s")
    case False
    from loop_progress [OF less.prems False] obtain t where
      t: "loop_alone s t" "loop_work t < loop_work s" by blast
    then have "enq t = enq s" by (simp add: loop_alone_def)
    with less.hyps [OF t(2) settled_alone [OF less.prems t(1)]] t(1) show ?thesis
      by (metis converse_rtranclp_into_rtranclp)
  qed blast
qed

lemma settled_alone_star:
  assumes "loop_alone\<^sup>*\<^sup>* s t" "settled s"
  shows "settled t \<and> enq t = enq s"
  using assms by (induction rule: rtranclp_induct) (auto simp: loop_alone_def intro: settled_alone)

subsection \<open>Properties\<close>

text \<open>C2: Memory safety of the lock-free queue. In every reachable state of any number of
  producers interleaved with the loop thread, the next atomic access of a producer inside
  \<open>push\<close> and of the loop thread inside \<open>pop\<close> goes through a node that has
  not been freed, and so does a store that leaves a store buffer, even though addresses of freed
  nodes are recycled; and no node is freed twice.\<close>

theorem mpsc_memory_safe:
  assumes "sys_reach d a0 s"
  shows "(\<forall>p pc a. prods s p = P_Push pc \<longrightarrow> (\<exists>r. push_step a pc (shown s) = Inr r)) \<and>
    (\<forall>pc. looper s = C_Pop pc \<longrightarrow> (\<exists>r. pop_step pc (mem s) = Inr r)) \<and>
    (\<forall>p prev cur. st_buf s p = Some (prev, cur) \<longrightarrow> (\<exists>m'. store_next prev cur (mem s) = Inr m'))"
proof -
  have inv: "sys_inv s" by (rule sys_inv_reach [OF assms])
  have "pend s p = Some l" if "st_buf s p = Some l" for p l using that by (simp add: pend_def)
  then show ?thesis using inv_push_safe [OF inv] inv_pop_safe [OF inv] pend_live [OF inv] by blast
qed

theorem mpsc_memory_safe_witness:
  "prods (demo_state 8) 1 = P_Push (PushChecked 9 0 True) \<and> looper (demo_state 18) = C_Pop (PopFreed 9) \<and>
   st_buf (demo_state 9) 1 = Some (0, 9) \<and> (\<exists>r. push_step 1 (PushChecked 9 0 True) (shown (demo_state 8)) = Inr r) \<and>
   (\<exists>r. pop_step (PopFreed 9) (mem (demo_state 18)) = Inr r) \<and> (\<exists>m'. store_next 0 9 (mem (demo_state 9)) = Inr m')"
proof -
  have r: "sys_reach 0 0 (demo_state 8)" "sys_reach 0 0 (demo_state 18)" "sys_reach 0 0 (demo_state 9)"
    by (rule demo_reach, simp add: demo_defs)+
  have s: "prods (demo_state 8) 1 = P_Push (PushChecked 9 0 True)"
    "looper (demo_state 18) = C_Pop (PopFreed 9)" "st_buf (demo_state 9) 1 = Some (0, 9)" by (simp_all add: demo_defs)
  have "\<exists>r. push_step 1 (PushChecked 9 0 True) (shown (demo_state 8)) = Inr r"
    using conjunct1 [OF mpsc_memory_safe [OF r(1)]] s(1) by blast
  moreover have "\<exists>r. pop_step (PopFreed 9) (mem (demo_state 18)) = Inr r" using mpsc_memory_safe [OF r(2)] s(2) by blast
  moreover have "\<exists>m'. store_next 0 9 (mem (demo_state 9)) = Inr m'" using mpsc_memory_safe [OF r(3)] s(3) by blast
  ultimately show ?thesis using s by blast
qed

text \<open>C3: FIFO, exactly once. In every reachable state the operations that the loop thread has
  run are a prefix of the operations in the order in which their producers exchanged
  \<open>head_\<close>: none is lost, duplicated, invented or overtaken, however \<open>push\<close>
  and \<open>pop\<close> interleave and however late their stores become visible.\<close>

theorem mpsc_fifo:
  assumes "sys_reach d a0 s"
  shows "deq s = take (length (deq s)) (enq s)"
  using fifo_fact [OF sys_inv_reach [OF assms]] by (metis append_eq_conv_conj)

theorem mpsc_fifo_witness:
  "deq (demo_state 20) = [7] \<and> enq (demo_state 20) = [7] \<and>
   deq (demo_state 20) = take (length (deq (demo_state 20))) (enq (demo_state 20))"
proof -
  have r: "sys_reach 0 0 (demo_state 20)" by (rule demo_reach, simp add: demo_defs)
  have "deq (demo_state 20) = [7]" "enq (demo_state 20) = [7]" by (simp_all add: demo_defs)
  then show ?thesis using mpsc_fifo [OF r] by blast
qed

text \<open>C1: When a wake-up cannot be lost. Suppose that the loop thread is waiting with nothing
  left in the notification descriptor, and that every producer has returned from
  \<open>runOnEventLoop\<close>, none of them with false (a failed write of the notification). Then
  every operation that was ever enqueued has been run, unless a load has overtaken a store: a
  \<open>push\<close> has decided not to notify on a value of \<open>tail_\<close> that it loaded
  before its own store to \<open>next\<close> was visible, or a \<open>pop\<close> has found the
  queue empty before the last store to \<open>tail_\<close> was visible. The acquire and release
  orders of the code do not rule this out; sequentially consistent accesses would. This is why
  \<open>push\<close> looks at \<open>tail_\<close> a second time.\<close>

theorem mpsc_no_lost_wakeup:
  assumes "sys_reach d a0 s" and "looper s = C_Wait" and "pipe s = 0" and "\<forall>p. prods s p = P_Idle"
    and "\<not> refused s" and "\<not> overtook s"
  shows "deq s = enq s"
proof (rule ccontr)
  assume "deq s \<noteq> enq s"
  have inv: "sys_inv s" by (rule sys_inv_reach [OF assms(1)])
  then have "settled s" using assms by (simp add: settled_def)
  from backlog [OF this assms(6) \<open>deq s \<noteq> enq s\<close>] wake_fact [OF inv _ _ assms(6,5)] assms(2-4) show False by auto
qed

theorem mpsc_no_lost_wakeup_witness:
  "looper (demo_state 25) = C_Wait \<and> deq (demo_state 25) = [7] \<and> deq (demo_state 25) = enq (demo_state 25)"
proof -
  have r: "sys_reach 0 0 (demo_state 25)" by (rule demo_reach, simp add: demo_defs)
  have s: "looper (demo_state 25) = C_Wait" "pipe (demo_state 25) = 0" "\<forall>p. prods (demo_state 25) p = P_Idle"
    "\<not> refused (demo_state 25)" "\<not> overtook (demo_state 25)" "deq (demo_state 25) = [7]" by (simp_all add: demo_defs)
  show ?thesis using s mpsc_no_lost_wakeup [OF r s(1-5)] by blast
qed

text \<open>
  The schedule in which a wake-up is lost. The loop thread has run operation 7; its store to \<open>tail_\<close> is still
  in its buffer. It loads \<open>tail_\<close> (its own store), producer 2 enters \<open>push\<close> with operation 8 and reads
  \<open>tail_\<close> as the others see it, the loop thread finds the queue empty, and producer 2 publishes its
  node and reads the same old \<open>tail_\<close> again.
\<close>

definition lost_trace :: "nat choice list" where
  "lost_trace = take 20 demo_trace @ [Ch_Pop, Ch_Call 2 8] @ map (Ch_Push 2) [10, 11, 11] @ replicate 2 Ch_Pop @
     [Ch_Push 2 11, Ch_Drain 2, Ch_Push 2 11, Ch_Report 2, Ch_Drain_Tail, Ch_Loop]"

definition lost_state :: "nat sys" where
  "lost_state = the (exec_trace lost_trace (sys_init 0 0))"

text \<open>C5: A wake-up can be lost. With the memory orders of the code there is an execution
  after which the loop thread waits, nothing is in the notification descriptor, both calls of
  \<open>runOnEventLoop\<close> have returned true, all stores are visible, and an operation is in
  the queue that has not been run: unless something else wakes it up or notifies it, the loop thread
  cannot take another step.\<close>

theorem mpsc_wakeup_can_be_lost:
  "\<exists>s :: nat sys. sys_reach 0 0 s \<and> looper s = C_Wait \<and> pipe s = 0 \<and> (\<forall>p. prods s p = P_Idle) \<and> \<not> refused s \<and>
    old_tails s = [] \<and> (\<forall>p. st_buf s p = None) \<and> enq s = [7, 8] \<and> deq s = [7] \<and> \<not> (\<exists>t. loop_alone s t)"
proof -
  have x: "exec_trace lost_trace (sys_init 0 0) \<noteq> None"
    by (simp add: lost_trace_def demo_trace_def trace_defs)
  then have r: "sys_reach 0 0 lost_state" by (auto simp: lost_state_def intro: exec_reach)
  have s: "looper lost_state = C_Wait" "pipe lost_state = 0" "\<forall>p. prods lost_state p = P_Idle" "\<not> refused lost_state"
    "old_tails lost_state = []" "\<forall>p. st_buf lost_state p = None" "enq lost_state = [7, 8]" "deq lost_state = [7]"
    by (simp_all add: lost_state_def lost_trace_def demo_trace_def trace_defs)
  then have "\<not> (\<exists>t. loop_alone lost_state t)" by (simp add: loop_alone_def)
  with r s show ?thesis by blast
qed

text \<open>C4: The wake-up protocol makes progress. Take a reachable state in which the producers
  have returned, none of them with false, and no load has overtaken a store (as in
  \<open>mpsc_no_lost_wakeup\<close>). Whatever the loop thread then does without the producers,
  leaving its wait only for a byte that it reads from the notification descriptor, it can go on to a
  state in which it has run every enqueued operation: it is never stuck waiting for a notification
  that nobody will send.\<close>

theorem mpsc_delivers:
  assumes "sys_reach d a0 s" and "\<forall>p. prods s p = P_Idle" and "\<not> refused s" and "\<not> overtook s"
    and "loop_alone\<^sup>*\<^sup>* s s'"
  shows "\<exists>t. loop_alone\<^sup>*\<^sup>* s' t \<and> deq t = enq t \<and> enq t = enq s"
proof -
  have "settled s" using sys_inv_reach [OF assms(1)] assms(2-4) by (simp add: settled_def)
  with settled_alone_star [OF assms(5)] loop_finishes [of s'] show ?thesis by auto
qed

theorem mpsc_delivers_witness:
  "looper (demo_state 13) = C_Wait \<and> deq (demo_state 13) = [] \<and>
   (\<exists>t. loop_alone\<^sup>*\<^sup>* (demo_state 13) t \<and> deq t = enq t \<and> enq t = [7])"
proof -
  have r: "sys_reach 0 0 (demo_state 13)" by (rule demo_reach, simp add: demo_defs)
  have s: "looper (demo_state 13) = C_Wait" "deq (demo_state 13) = []" "enq (demo_state 13) = [7]"
    "\<forall>p. prods (demo_state 13) p = P_Idle" "\<not> refused (demo_state 13)" "\<not> overtook (demo_state 13)" by (simp_all add: demo_defs)
  show ?thesis using s mpsc_delivers [OF r s(4-6), of "demo_state 13"] by simp
qed

text \<open>C29: Whole operations refine a list. Pushing any sequence of elements into a new queue
  and then popping until \<open>pop\<close> reports empty returns exactly that sequence;
  \<open>push\<close> reports "was empty" for the first element and only for it.\<close>

theorem mpsc_push_pop:
  assumes "distinct (a0 # map fst axs)" and "length axs < k"
  shows "\<exists>m m'. push_all mpsc_push axs (mpsc_init d a0) = Inr (map (\<lambda>i. i = 0) [0..<length axs], m) \<and>
    pop_all mpsc_pop k m = Inr (map snd axs, m') \<and> mpsc_pop m' = Inr (None, m')"
proof -
  have "\<forall>a \<in> fst ` set axs. nodes (mpsc_init d a0) a = None"
    using assms(1) by (auto simp: mpsc_init_def)
  from mq.push_all_pop_all [OF represents_init _ this] assms mq.pop_none show ?thesis by fastforce
qed

theorem mpsc_push_pop_witness:
  "\<exists>m m'. push_all mpsc_push [(1, ''a''), (2, ''b'')] (mpsc_init [] 0) = Inr ([True, False], m) \<and>
    pop_all mpsc_pop 3 m = Inr ([''a'', ''b''], m') \<and> mpsc_pop m' = Inr (None, m')"
  using mpsc_push_pop [of 0 "[(1, ''a''), (2, ''b'')]" 3 "[]"] by (simp add: numeral_eq_Suc)

text \<open>C30: The destructor leaks nothing and frees nothing twice. However many elements are
  still in the queue, the loop of the destructor pops them all and leaves the dummy node that
  \<open>head_\<close> points to, which is freed last; then the heap is empty. To free a node that
  is not allocated would be a fault.\<close>

theorem mpsc_destroy_frees_all:
  assumes "distinct (a0 # map fst axs)" and "length axs < k"
  shows "\<exists>rs m m1 m'. push_all mpsc_push axs (mpsc_init d a0) = Inr (rs, m) \<and>
    mpsc_clear k m = Inr m1 \<and> dom (nodes m1) = {q_head m1} \<and> mpsc_destroy k m = Inr m' \<and> nodes m' = Map.empty"
proof -
  have "\<forall>a \<in> fst ` set axs. nodes (mpsc_init d a0) a = None"
    using assms(1) by (auto simp: mpsc_init_def)
  from mq.push_all_reps [OF represents_init _ this] assms(1) obtain rs m where
    "push_all mpsc_push axs (mpsc_init d a0) = Inr (rs, m)" "represents m (map snd axs)" by auto
  with destroy_represents [of m "map snd axs" k] assms(2) show ?thesis by fastforce
qed

theorem mpsc_destroy_frees_all_witness:
  "\<exists>rs m m1 m'. push_all mpsc_push [(1, ''a''), (2, ''b'')] (mpsc_init [] 0) = Inr (rs, m) \<and>
    mpsc_clear 3 m = Inr m1 \<and> dom (nodes m1) = {q_head m1} \<and> mpsc_destroy 3 m = Inr m' \<and> nodes m' = Map.empty"
  by (rule mpsc_destroy_frees_all) simp_all

end
