(* ===== verification/What_Flags.thy ===== *)
theory What_Flags
  imports WTE_Prelude
begin

text \<open>
  Event kinds: \<open>src/src/wte/what.h\<close> (the \<open>What\<close> enumeration and its helpers) and their
  translation to and from libevent's flag words (\<open>toFlags\<close> in
  \<open>src/src/libevent_event_base.cc\<close>, \<open>fromFlags\<close> in \<open>src/src/libevent_event_handler.cc\<close>).

  An event kind denotes a set of directions, so the type is given its lattice structure:
  \<open>sup\<close> is the union the comments of the header write as \<open>what | WRITE\<close>. libevent's flag
  values are not defined in the repository: they are a parameter, of which only the distinctness
  of the bits is used.
\<close>

unbundle bit_operations_syntax

subsection \<open>The enumeration and its helpers\<close>

datatype What = NONE | READ | WRITE | READ_WRITE

definition isRead :: "What \<Rightarrow> bool" where
  "isRead what \<longleftrightarrow> what = READ \<or> what = READ_WRITE"

definition isWrite :: "What \<Rightarrow> bool" where
  "isWrite what \<longleftrightarrow> what = WRITE \<or> what = READ_WRITE"

definition ensureWrite :: "What \<Rightarrow> What" where
  "ensureWrite what = (case what of READ \<Rightarrow> READ_WRITE | _ \<Rightarrow> WRITE)"

definition ensureRead :: "What \<Rightarrow> What" where
  "ensureRead what = (case what of WRITE \<Rightarrow> READ_WRITE | _ \<Rightarrow> READ)"

definition removeWrite :: "What \<Rightarrow> What" where
  "removeWrite what = (case what of READ_WRITE \<Rightarrow> READ | READ \<Rightarrow> READ | _ \<Rightarrow> NONE)"

lemmas what_defs = isRead_def isWrite_def ensureWrite_def ensureRead_def removeWrite_def

lemma What_directions [simp]:
  "\<not> isRead NONE" "isRead READ" "\<not> isRead WRITE" "isRead READ_WRITE"
  "\<not> isWrite NONE" "\<not> isWrite READ" "isWrite WRITE" "isWrite READ_WRITE"
  by (simp_all add: isRead_def isWrite_def)

lemma What_eqI: "isRead a = isRead b \<Longrightarrow> isWrite a = isWrite b \<Longrightarrow> a = b"
  by (cases a; cases b) (simp_all add: isRead_def isWrite_def)

subsection \<open>Event kinds as sets of directions\<close>

definition of_directions :: "bool \<Rightarrow> bool \<Rightarrow> What" where
  "of_directions r w =
     (if r \<and> w then READ_WRITE else if r then READ else if w then WRITE else NONE)"

lemma directions_of [simp]:
  "isRead (of_directions r w) = r" "isWrite (of_directions r w) = w"
  by (simp_all add: of_directions_def isRead_def isWrite_def)

instantiation What :: "{lattice, order_bot, order_top}"
begin

definition less_eq_What :: "What \<Rightarrow> What \<Rightarrow> bool" where
  "less_eq_What a b \<longleftrightarrow> (isRead a \<longrightarrow> isRead b) \<and> (isWrite a \<longrightarrow> isWrite b)"

definition less_What :: "What \<Rightarrow> What \<Rightarrow> bool" where
  "less_What a b \<longleftrightarrow> a \<le> b \<and> \<not> b \<le> (a :: What)"

definition sup_What :: "What \<Rightarrow> What \<Rightarrow> What" where
  "sup_What a b = of_directions (isRead a \<or> isRead b) (isWrite a \<or> isWrite b)"

definition inf_What :: "What \<Rightarrow> What \<Rightarrow> What" where
  "inf_What a b = of_directions (isRead a \<and> isRead b) (isWrite a \<and> isWrite b)"

definition bot_What :: What where "bot_What = NONE"

definition top_What :: What where "top_What = READ_WRITE"

instance
proof
  fix x y z :: What
  show "x < y \<longleftrightarrow> x \<le> y \<and> \<not> y \<le> x" by (rule less_What_def)
  show "x \<le> x" by (simp add: less_eq_What_def)
  show "x \<le> y \<Longrightarrow> y \<le> z \<Longrightarrow> x \<le> z" by (auto simp: less_eq_What_def)
  show "x \<le> y \<Longrightarrow> y \<le> x \<Longrightarrow> x = y" by (rule What_eqI) (auto simp: less_eq_What_def)
  show "inf x y \<le> x" and "inf x y \<le> y"
    by (auto simp: less_eq_What_def inf_What_def)
  show "x \<le> y \<Longrightarrow> x \<le> z \<Longrightarrow> x \<le> inf y z"
    by (auto simp: less_eq_What_def inf_What_def)
  show "x \<le> sup x y" and "y \<le> sup x y"
    by (auto simp: less_eq_What_def sup_What_def)
  show "y \<le> x \<Longrightarrow> z \<le> x \<Longrightarrow> sup y z \<le> x"
    by (auto simp: less_eq_What_def sup_What_def)
  show "bot \<le> x" by (simp add: less_eq_What_def bot_What_def isRead_def isWrite_def)
  show "x \<le> top" by (simp add: less_eq_What_def top_What_def isRead_def isWrite_def)
qed

end

lemma sup_What_simps [simp]:
  "isRead (sup a b) \<longleftrightarrow> isRead a \<or> isRead b"
  "isWrite (sup a b) \<longleftrightarrow> isWrite a \<or> isWrite b"
  by (simp_all add: sup_What_def)

lemma removeWrite_directions [simp]:
  "isRead (removeWrite w) = isRead w" "\<not> isWrite (removeWrite w)"
  by (cases w; simp add: what_defs)+

lemma ensure_directions [simp]:
  "isWrite (ensureWrite w)" "isRead (ensureRead w)"
  by (cases w; simp add: what_defs)+

subsection \<open>libevent's flag words\<close>

text \<open>
  \<open>EV_READ\<close>, \<open>EV_WRITE\<close> and \<open>EV_PERSIST\<close> are macros of libevent's \<open>event.h\<close>: integer
  constants, handed to libevent as a \<open>short\<close>.
\<close>

record libevent_flags =
  EV_READ :: "32 word"
  EV_WRITE :: "32 word"
  EV_PERSIST :: "32 word"

definition short :: "32 word \<Rightarrow> 16 word" where
  "short v = ucast v"

definition distinct_bits :: "libevent_flags \<Rightarrow> bool" where
  "distinct_bits F \<longleftrightarrow>
     short (EV_READ F) \<noteq> 0 \<and> short (EV_WRITE F) \<noteq> 0 \<and>
     short (EV_READ F) AND short (EV_WRITE F) = 0 \<and>
     short (EV_PERSIST F) AND short (EV_READ F) = 0 \<and>
     short (EV_PERSIST F) AND short (EV_WRITE F) = 0"

definition toFlags :: "libevent_flags \<Rightarrow> What \<Rightarrow> 32 word" where
  "toFlags F what = (case what of
       NONE \<Rightarrow> 0
     | READ \<Rightarrow> EV_READ F
     | WRITE \<Rightarrow> EV_WRITE F
     | READ_WRITE \<Rightarrow> EV_READ F OR EV_WRITE F)"

definition ALL_BITS_SET :: "16 word \<Rightarrow> 16 word \<Rightarrow> bool" where
  "ALL_BITS_SET value bits \<longleftrightarrow> bits = value AND bits"

definition fromFlags :: "libevent_flags \<Rightarrow> 16 word \<Rightarrow> What" where
  "fromFlags F flags =
     (if ALL_BITS_SET flags (short (EV_READ F OR EV_WRITE F)) then READ_WRITE
      else if ALL_BITS_SET flags (short (EV_READ F)) then READ
      else if ALL_BITS_SET flags (short (EV_WRITE F)) then WRITE
      else NONE)"

lemma short_or [simp]: "short (a OR b) = short a OR short b"
  by (simp add: short_def unsigned_or_eq)

lemma ALL_BITS_SET_or:
  "ALL_BITS_SET v (a OR b) \<longleftrightarrow> ALL_BITS_SET v a \<and> ALL_BITS_SET v b"
  unfolding ALL_BITS_SET_def bit_eq_iff bit_and_iff bit_or_iff by blast

lemma ALL_BITS_SET_self_or [simp]:
  "ALL_BITS_SET (a OR b) a" "ALL_BITS_SET (b OR a) a" "ALL_BITS_SET a a"
  by (auto simp: ALL_BITS_SET_def bit_eq_iff bit_and_iff bit_or_iff)

lemma ALL_BITS_SET_disjoint:
  "a AND b = 0 \<Longrightarrow> b \<noteq> 0 \<Longrightarrow> \<not> ALL_BITS_SET a b"
  "a AND b = 0 \<Longrightarrow> c AND b = 0 \<Longrightarrow> b \<noteq> 0 \<Longrightarrow> \<not> ALL_BITS_SET (a OR c) b"
  by (simp_all add: ALL_BITS_SET_def bit.conj_disj_distrib2)

lemma fromFlags_directions:
  "isRead (fromFlags F v) = ALL_BITS_SET v (short (EV_READ F))"
  "isWrite (fromFlags F v) = ALL_BITS_SET v (short (EV_WRITE F))"
  by (auto simp: fromFlags_def ALL_BITS_SET_or isRead_def isWrite_def)

text \<open>The flags a handler is registered with decode to the event kind it asked for.\<close>

lemma fromFlags_toFlags:
  assumes "distinct_bits F"
  shows "fromFlags F (short (toFlags F w OR EV_PERSIST F)) = w"
proof (rule What_eqI)
  note d = assms [unfolded distinct_bits_def]
  have wr: "short (EV_WRITE F) AND short (EV_READ F) = 0"
    using d by (simp add: and.commute)
  have rwp: "\<not> ALL_BITS_SET (short (EV_WRITE F) OR short (EV_PERSIST F)) (short (EV_READ F))"
    and wrp: "\<not> ALL_BITS_SET (short (EV_READ F) OR short (EV_PERSIST F)) (short (EV_WRITE F))"
    and p0: "\<not> ALL_BITS_SET (short (EV_PERSIST F)) (short (EV_READ F))"
      "\<not> ALL_BITS_SET (short (EV_PERSIST F)) (short (EV_WRITE F))"
    using d wr by (simp_all add: ALL_BITS_SET_disjoint)
  show "isRead (fromFlags F (short (toFlags F w OR EV_PERSIST F))) = isRead w"
    using rwp p0 by (cases w) (simp_all add: fromFlags_directions toFlags_def or.assoc)
  show "isWrite (fromFlags F (short (toFlags F w OR EV_PERSIST F))) = isWrite w"
    using wrp p0 by (cases w)
      (simp_all add: fromFlags_directions toFlags_def or.assoc
        or.left_commute [of "short (EV_READ F)"])
qed

subsection \<open>Properties\<close>

text \<open>Flag words round-trip. The event kind that a handler asks for, turned into libevent flags with
  \<open>EV_PERSIST\<close> added and truncated to a \<open>short\<close>, decodes to the same event kind; and what \<open>fromFlags\<close>
  reports of any flag word is exactly which of the two direction bits are set.\<close>

theorem flags_roundtrip:
  assumes "distinct_bits F"
  shows "fromFlags F (short (toFlags F w OR EV_PERSIST F)) = w \<and>
    isRead (fromFlags F v) = ALL_BITS_SET v (short (EV_READ F)) \<and>
    isWrite (fromFlags F v) = ALL_BITS_SET v (short (EV_WRITE F))"
  using fromFlags_toFlags [OF assms] fromFlags_directions by blast

theorem flags_roundtrip_witness:
  "fromFlags \<lparr>EV_READ = 2, EV_WRITE = 4, EV_PERSIST = 16\<rparr>
     (short (toFlags \<lparr>EV_READ = 2, EV_WRITE = 4, EV_PERSIST = 16\<rparr> READ_WRITE OR 16)) = READ_WRITE"
  using flags_roundtrip [of "\<lparr>EV_READ = 2, EV_WRITE = 4, EV_PERSIST = 16\<rparr>" READ_WRITE]
  by (simp add: distinct_bits_def short_def)

text \<open>The event-kind helpers. \<open>removeWrite\<close> removes the write direction and nothing else.
  \<open>ensureWrite\<close> and \<open>ensureRead\<close> compute the documented \<open>what | WRITE\<close> and \<open>what | READ\<close> for every
  event kind except \<open>READ_WRITE\<close>, of which they drop the other direction.\<close>

theorem ensure_helpers:
  "removeWrite w = inf w READ \<and>
   (ensureWrite w = sup w WRITE \<longleftrightarrow> w \<noteq> READ_WRITE) \<and> (ensureRead w = sup w READ \<longleftrightarrow> w \<noteq> READ_WRITE) \<and>
   ensureWrite READ_WRITE = WRITE \<and> ensureRead READ_WRITE = READ"
  by (cases w) (simp_all add: what_defs sup_What_def inf_What_def of_directions_def)

end
