(* ===== verification/Event_Handling.thy ===== *)
theory Event_Handling
  imports What_Flags
begin

text \<open>
  Registration of event handlers and timeouts: \<open>EventHandler\<close> (\<open>src/src/event_handler.cc\<close>), its
  libevent implementation object (\<open>src/src/libevent_event_handler.cc\<close>), \<open>Timeout\<close>
  (\<open>src/src/timeout.cc\<close>, \<open>LibeventTimeout\<close>) and the registration half of \<open>LibeventEventBase\<close>
  (\<open>src/src/libevent_event_base.cc\<close>).

  libevent is a parameter: a record of the functions the code calls, over an abstract state. What
  the code relies on is the predicate \<open>libevent_ok\<close>, which states documented behaviour: an event that is
  not pending may be assigned, and then reports the flags it was assigned; \<open>event_del\<close> makes an
  event non-pending; a call concerns the given event only. Assigning a \<^emph>\<open>pending\<close> event is
  undefined, and nothing is assumed of it.
\<close>

subsection \<open>libevent\<close>

type_synonym hid = nat
type_synonym tid = nat
type_synonym thread = nat

text \<open>The \<open>struct event\<close>s of the program, and the callbacks they are assigned.\<close>

datatype event = Ev_Handler hid | Ev_Timeout tid | Ev_Persistent
datatype callback = libeventCallback hid | libeventTimeout tid | persistentTimerCb

record timeval =
  tv_sec :: int
  tv_usec :: int

record 'l libevent =
  le_flags :: libevent_flags
  event_assign :: "event \<Rightarrow> int \<Rightarrow> 16 word \<Rightarrow> callback \<Rightarrow> 'l \<Rightarrow> 'l"
  event_add :: "event \<Rightarrow> timeval option \<Rightarrow> 'l \<Rightarrow> int \<times> 'l"
  event_del :: "event \<Rightarrow> 'l \<Rightarrow> int \<times> 'l"
  event_get_events :: "event \<Rightarrow> 'l \<Rightarrow> 16 word"
  mark_internal :: "event \<Rightarrow> 'l \<Rightarrow> 'l"
  event_pending :: "event \<Rightarrow> 'l \<Rightarrow> bool"

text \<open>A call leaves the flags and the status of all events but \<open>e\<close> alone.\<close>

definition touches_only :: "'l libevent \<Rightarrow> event \<Rightarrow> 'l \<Rightarrow> 'l \<Rightarrow> bool" where
  "touches_only le e l l' \<longleftrightarrow> (\<forall>e'. e' \<noteq> e \<longrightarrow>
     event_get_events le e' l' = event_get_events le e' l \<and> event_pending le e' l' = event_pending le e' l)"

definition libevent_ok :: "'l libevent \<Rightarrow> bool" where
  "libevent_ok le \<longleftrightarrow> distinct_bits (le_flags le) \<and>
     (\<forall>e fd f cb l. \<not> event_pending le e l \<longrightarrow>
        event_get_events le e (event_assign le e fd f cb l) = f \<and>
        \<not> event_pending le e (event_assign le e fd f cb l) \<and>
        touches_only le e l (event_assign le e fd f cb l)) \<and>
     (\<forall>e tv l. event_get_events le e (snd (event_add le e tv l)) = event_get_events le e l \<and>
        (fst (event_add le e tv l) = 0 \<longrightarrow> event_pending le e (snd (event_add le e tv l))) \<and>
        touches_only le e l (snd (event_add le e tv l))) \<and>
     (\<forall>e l. event_get_events le e (snd (event_del le e l)) = event_get_events le e l \<and>
        \<not> event_pending le e (snd (event_del le e l)) \<and> touches_only le e l (snd (event_del le e l))) \<and>
     (\<forall>e l e'. event_get_events le e' (mark_internal le e l) = event_get_events le e' l \<and>
        event_pending le e' (mark_internal le e l) = event_pending le e' l)"

subsection \<open>Handlers, timeouts and the registration state of a base\<close>

record LibeventEventHandler =
  he_base :: nat
  he_registered :: bool

record EventHandler =
  eh_fd :: int
  eh_impl :: "LibeventEventHandler option"

record LibeventTimeout =
  lt_base :: nat
  lt_registered :: bool

record Timeout =
  to_impl :: "LibeventTimeout option"

record 'l EventBase =
  this_base :: nat
  lbase :: 'l
  loopThread :: thread
  handlers :: "hid \<rightharpoonup> EventHandler"
  timeouts :: "tid \<rightharpoonup> Timeout"

text \<open>In the loop thread, or no loop is running (thread 0).\<close>

definition inLoopThread :: "thread \<Rightarrow> 'l EventBase \<Rightarrow> bool" where
  "inLoopThread self b \<longleftrightarrow> loopThread b = 0 \<or> loopThread b = self"

definition lookup_handler :: "hid \<Rightarrow> 'l EventBase \<Rightarrow> fault + EventHandler" where
  "lookup_handler h b = (case handlers b h of None \<Rightarrow> Inl Use_After_Free | Some eh \<Rightarrow> Inr eh)"

definition lookup_timeout :: "tid \<Rightarrow> 'l EventBase \<Rightarrow> fault + Timeout" where
  "lookup_timeout t b = (case timeouts b t of None \<Rightarrow> Inl Use_After_Free | Some to \<Rightarrow> Inr to)"

definition EventHandler_new :: "int \<Rightarrow> EventHandler" where
  "EventHandler_new fd = \<lparr>eh_fd = fd, eh_impl = None\<rparr>"

definition EventHandler_base :: "EventHandler \<Rightarrow> nat option" where
  "EventHandler_base eh = (case eh_impl eh of None \<Rightarrow> None | Some i \<Rightarrow> Some (he_base i))"

definition EventHandler_registered :: "EventHandler \<Rightarrow> bool" where
  "EventHandler_registered eh = (case eh_impl eh of None \<Rightarrow> False | Some i \<Rightarrow> he_registered i)"

definition impl_watched :: "'l libevent \<Rightarrow> hid \<Rightarrow> LibeventEventHandler \<Rightarrow> 'l \<Rightarrow> What" where
  "impl_watched le h i l =
     (if \<not> he_registered i then NONE
      else fromFlags (le_flags le) (event_get_events le (Ev_Handler h) l))"

definition EventHandler_watched :: "'l libevent \<Rightarrow> hid \<Rightarrow> EventHandler \<Rightarrow> 'l \<Rightarrow> What" where
  "EventHandler_watched le h eh l = (case eh_impl eh of None \<Rightarrow> NONE | Some i \<Rightarrow> impl_watched le h i l)"

definition EventHandler_setFd :: "int \<Rightarrow> EventHandler \<Rightarrow> fault + EventHandler" where
  "EventHandler_setFd fd eh =
     bindE (assertE ''!registered()'' (\<not> EventHandler_registered eh)) (\<lambda>_. Inr (eh\<lparr>eh_fd := fd\<rparr>))"

subsection \<open>Operations of the base\<close>

definition unregisterHandler :: "'l libevent \<Rightarrow> thread \<Rightarrow> hid \<Rightarrow> 'l EventBase \<Rightarrow> fault + 'l EventBase" where
  "unregisterHandler le self h b =
     bindE (assertE ''inLoopThread()'' (inLoopThread self b)) (\<lambda>_.
     bindE (lookup_handler h b) (\<lambda>eh.
     case eh_impl eh of
       None \<Rightarrow> Inr b
     | Some i \<Rightarrow>
         bindE (assertE ''handler->base() == this'' (he_base i = this_base b)) (\<lambda>_.
         if \<not> he_registered i then Inr b
         else Inr (b\<lparr>lbase := snd (event_del le (Ev_Handler h) (lbase b)),
                handlers := (handlers b)(h \<mapsto> eh\<lparr>eh_impl := Some (i\<lparr>he_registered := False\<rparr>)\<rparr>)\<rparr>))))"

definition registerHandlerInternal ::
  "'l libevent \<Rightarrow> thread \<Rightarrow> hid \<Rightarrow> What \<Rightarrow> bool \<Rightarrow> 'l EventBase \<Rightarrow> fault + 'l EventBase" where
  "registerHandlerInternal le self h what internal_event b =
     bindE (lookup_handler h b) (\<lambda>eh.
     bindE (if EventHandler_base eh \<noteq> None \<and> \<not> internal_event
            then assertE ''handler->base() == this'' (EventHandler_base eh = Some (this_base b))
            else Inr ()) (\<lambda>_.
     if EventHandler_base eh \<noteq> None \<and> \<not> internal_event \<and> what = EventHandler_watched le h eh (lbase b)
     then Inr b
     else if what = NONE then unregisterHandler le self h b
     else
       let l = (if EventHandler_registered eh then snd (event_del le (Ev_Handler h) (lbase b)) else lbase b);
           i = (case eh_impl eh of Some i \<Rightarrow> i | None \<Rightarrow> \<lparr>he_base = this_base b, he_registered = False\<rparr>);
           l = event_assign le (Ev_Handler h) (eh_fd eh)
                 (short (toFlags (le_flags le) what OR EV_PERSIST (le_flags le))) (libeventCallback h) l;
           l = (if internal_event then mark_internal le (Ev_Handler h) l else l);
           l = snd (event_add le (Ev_Handler h) None l)
       in Inr (b\<lparr>lbase := l, handlers := (handlers b)(h \<mapsto> eh\<lparr>eh_impl := Some (i\<lparr>he_registered := True\<rparr>)\<rparr>)\<rparr>)))"

definition registerHandler ::
  "'l libevent \<Rightarrow> thread \<Rightarrow> hid \<Rightarrow> What \<Rightarrow> 'l EventBase \<Rightarrow> fault + 'l EventBase" where
  "registerHandler le self h what b =
     bindE (assertE ''inLoopThread()'' (inLoopThread self b)) (\<lambda>_.
     registerHandlerInternal le self h what False b)"

text \<open>\<open>b\<close> is the base that \<open>base()\<close> returns, if it returns one.\<close>

definition EventHandler_unregister :: "'l libevent \<Rightarrow> thread \<Rightarrow> hid \<Rightarrow> 'l EventBase \<Rightarrow> fault + 'l EventBase" where
  "EventHandler_unregister le self h b =
     bindE (lookup_handler h b) (\<lambda>eh.
     if EventHandler_base eh \<noteq> None then unregisterHandler le self h b else Inr b)"

text \<open>The destructor deletes the implementation object, with the \<open>struct event\<close> in it.\<close>

definition EventHandler_destroy :: "hid \<Rightarrow> 'l EventBase \<Rightarrow> fault + 'l EventBase" where
  "EventHandler_destroy h b =
     bindE (lookup_handler h b) (\<lambda>eh. Inr (b\<lparr>handlers := (handlers b)(h := None)\<rparr>))"

definition Timeout_new :: Timeout where
  "Timeout_new = \<lparr>to_impl = None\<rparr>"

definition Timeout_destroy :: "tid \<Rightarrow> 'l EventBase \<Rightarrow> fault + 'l EventBase" where
  "Timeout_destroy t b =
     bindE (lookup_timeout t b) (\<lambda>to. Inr (b\<lparr>timeouts := (timeouts b)(t := None)\<rparr>))"

definition registerTimeout ::
  "'l libevent \<Rightarrow> thread \<Rightarrow> tid \<Rightarrow> timeval \<Rightarrow> 'l EventBase \<Rightarrow> fault + 'l EventBase" where
  "registerTimeout le self t duration b =
     bindE (assertE ''inLoopThread()'' (inLoopThread self b)) (\<lambda>_.
     bindE (lookup_timeout t b) (\<lambda>to.
       let i = (case to_impl to of None \<Rightarrow> \<lparr>lt_base = this_base b, lt_registered = False\<rparr> | Some i \<Rightarrow> i);
           l = (if lt_registered i then snd (event_del le (Ev_Timeout t) (lbase b)) else lbase b);
           l = event_assign le (Ev_Timeout t) (- 1) 0 (libeventTimeout t) l;
           l = snd (event_add le (Ev_Timeout t) (Some duration) l)
       in Inr (b\<lparr>lbase := l, timeouts := (timeouts b)(t \<mapsto> \<lparr>to_impl = Some (i\<lparr>lt_registered := True\<rparr>)\<rparr>)\<rparr>)))"

definition unregisterTimeout ::
  "'l libevent \<Rightarrow> thread \<Rightarrow> tid \<Rightarrow> 'l EventBase \<Rightarrow> fault + 'l EventBase" where
  "unregisterTimeout le self t b =
     bindE (assertE ''inLoopThread()'' (inLoopThread self b)) (\<lambda>_.
     bindE (lookup_timeout t b) (\<lambda>to.
     case to_impl to of
       None \<Rightarrow> Inr b
     | Some i \<Rightarrow>
         bindE (assertE ''impl->base() == this'' (lt_base i = this_base b)) (\<lambda>_.
         if \<not> lt_registered i then Inr b
         else Inr (b\<lparr>lbase := snd (event_del le (Ev_Timeout t) (lbase b)),
                timeouts := (timeouts b)(t \<mapsto> \<lparr>to_impl = Some (i\<lparr>lt_registered := False\<rparr>)\<rparr>)\<rparr>))))"

end
