(* ===== verification/Event_Registry.thy ===== *)
theory Event_Registry
  imports Event_Handling
begin

text \<open>
  Correctness of the registration code of \<open>Event_Handling\<close>: the invariant that only registered
  handlers and timeouts are pending in libevent, the map from handlers to watched events that a
  base stands for, what every operation does to both, the interface the streams use as a locale,
  and the properties.
\<close>

subsection \<open>The laws of libevent, one by one\<close>

lemma libevent_laws:
  assumes le: "libevent_ok le"
  shows "distinct_bits (le_flags le)"
  "\<not> event_pending le e l \<Longrightarrow> event_get_events le e (event_assign le e fd f cb l) = f"
  "\<not> event_pending le e l \<Longrightarrow> \<not> event_pending le e (event_assign le e fd f cb l)"
  "\<not> event_pending le e l \<Longrightarrow> touches_only le e l (event_assign le e fd f cb l)"
  "event_get_events le e (snd (event_add le e tv l)) = event_get_events le e l"
  "touches_only le e l (snd (event_add le e tv l))"
  "fst (event_add le e tv l) = 0 \<Longrightarrow> event_pending le e (snd (event_add le e tv l))"
  "event_get_events le e (snd (event_del le e l)) = event_get_events le e l"
  "\<not> event_pending le e (snd (event_del le e l))"
  "touches_only le e l (snd (event_del le e l))"
  "event_get_events le e' (mark_internal le e l) = event_get_events le e' l"
  "event_pending le e' (mark_internal le e l) = event_pending le e' l"
  using le by (simp_all add: libevent_ok_def)

lemma touches_only_refl [simp]: "touches_only le e l l"
  by (simp add: touches_only_def)

lemma touches_only_trans: "touches_only le e l l' \<Longrightarrow> touches_only le e l' l'' \<Longrightarrow> touches_only le e l l''"
  by (simp add: touches_only_def)

lemma touches_only_mark: "libevent_ok le \<Longrightarrow> touches_only le e l (mark_internal le e' l)"
  by (simp add: touches_only_def libevent_laws)

lemma touches_onlyD:
  "touches_only le e l l' \<Longrightarrow> e' \<noteq> e \<Longrightarrow> event_get_events le e' l' = event_get_events le e' l"
  "touches_only le e l l' \<Longrightarrow> e' \<noteq> e \<Longrightarrow> event_pending le e' l' = event_pending le e' l"
  by (simp_all add: touches_only_def)

subsection \<open>Invariant and abstraction\<close>

definition handler_registered :: "'l EventBase \<Rightarrow> hid \<Rightarrow> bool" where
  "handler_registered b h = (case handlers b h of None \<Rightarrow> False | Some eh \<Rightarrow> EventHandler_registered eh)"

definition timeout_registered :: "'l EventBase \<Rightarrow> tid \<Rightarrow> bool" where
  "timeout_registered b t = (case timeouts b t of None \<Rightarrow> False | Some to \<Rightarrow>
     (case to_impl to of None \<Rightarrow> False | Some i \<Rightarrow> lt_registered i))"

text \<open>Only what the code regards as registered is pending in libevent.\<close>

definition reg_inv :: "'l libevent \<Rightarrow> 'l EventBase \<Rightarrow> bool" where
  "reg_inv le b \<longleftrightarrow>
     (\<forall>h. event_pending le (Ev_Handler h) (lbase b) \<longrightarrow> handler_registered b h) \<and>
     (\<forall>t. event_pending le (Ev_Timeout t) (lbase b) \<longrightarrow> timeout_registered b t)"

text \<open>The events each handler watches.\<close>

definition watching :: "'l libevent \<Rightarrow> 'l EventBase \<Rightarrow> hid \<Rightarrow> What" where
  "watching le b h = (case handlers b h of
       None \<Rightarrow> NONE | Some eh \<Rightarrow> EventHandler_watched le h eh (lbase b))"

text \<open>The handler exists and has not been used with another base.\<close>

definition usable :: "'l EventBase \<Rightarrow> hid \<Rightarrow> bool" where
  "usable b h = (case handlers b h of None \<Rightarrow> False | Some eh \<Rightarrow>
     EventHandler_base eh = None \<or> EventHandler_base eh = Some (this_base b))"

definition usable_timeout :: "'l EventBase \<Rightarrow> tid \<Rightarrow> bool" where
  "usable_timeout b t = (case timeouts b t of None \<Rightarrow> False | Some to \<Rightarrow>
     (case to_impl to of None \<Rightarrow> True | Some i \<Rightarrow> lt_base i = this_base b))"

lemmas eh_defs = EventHandler_base_def EventHandler_registered_def EventHandler_watched_def impl_watched_def

text \<open>A change to libevent's view of handler \<open>h\<close> and to \<open>h\<close> itself.\<close>

lemma watching_update:
  assumes "touches_only le (Ev_Handler h) (lbase b) l"
  shows "watching le (b\<lparr>lbase := l, handlers := (handlers b)(h \<mapsto> eh)\<rparr>) =
    (watching le b)(h := EventHandler_watched le h eh l)"
  using touches_onlyD(1) [OF assms]
  by (auto simp: fun_eq_iff watching_def eh_defs split: option.split)

lemma reg_inv_handler:
  assumes "reg_inv le b" "touches_only le (Ev_Handler h) (lbase b) l"
    "event_pending le (Ev_Handler h) l \<Longrightarrow> EventHandler_registered eh"
  shows "reg_inv le (b\<lparr>lbase := l, handlers := (handlers b)(h \<mapsto> eh)\<rparr>)"
  using assms(1,3) touches_onlyD(2) [OF assms(2)]
  by (auto simp: reg_inv_def handler_registered_def timeout_registered_def)

lemma reg_inv_timeout:
  assumes "reg_inv le b" "touches_only le (Ev_Timeout t) (lbase b) l"
    "event_pending le (Ev_Timeout t) l \<Longrightarrow> lt_registered i"
  shows "reg_inv le (b\<lparr>lbase := l, timeouts := (timeouts b)(t \<mapsto> \<lparr>to_impl = Some i\<rparr>)\<rparr>)"
  using assms(1,3) touches_onlyD(2) [OF assms(2)]
  by (auto simp: reg_inv_def handler_registered_def timeout_registered_def)

lemma watching_timeout:
  assumes "touches_only le (Ev_Timeout t) (lbase b) l"
  shows "watching le (b\<lparr>lbase := l, timeouts := ts\<rparr>) = watching le b"
  using touches_onlyD(1) [OF assms] by (auto simp: fun_eq_iff watching_def eh_defs split: option.split)

subsection \<open>Handlers\<close>

text \<open>What the registration calls keep: the identity of the base and every handler's descriptor.\<close>

definition same_base :: "'l EventBase \<Rightarrow> 'l EventBase \<Rightarrow> bool" where
  "same_base b b' \<longleftrightarrow> this_base b' = this_base b \<and> loopThread b' = loopThread b \<and>
     (\<forall>h. map_option eh_fd (handlers b' h) = map_option eh_fd (handlers b h)) \<and>
     (\<forall>h. usable b h \<longrightarrow> usable b' h) \<and> (\<forall>t. usable_timeout b t \<longrightarrow> usable_timeout b' t)"

lemma same_base_refl [simp]: "same_base b b"
  by (simp add: same_base_def)

lemma same_base_trans: "same_base a b \<Longrightarrow> same_base b c \<Longrightarrow> same_base a c"
  by (simp add: same_base_def)

lemma same_base_handler:
  "handlers b h = Some eh \<Longrightarrow> eh_fd eh' = eh_fd eh \<Longrightarrow>
   (usable b h \<Longrightarrow> EventHandler_base eh' = None \<or> EventHandler_base eh' = Some (this_base b)) \<Longrightarrow>
   same_base b (b\<lparr>lbase := l, handlers := (handlers b)(h \<mapsto> eh')\<rparr>)"
  by (auto simp: same_base_def usable_def usable_timeout_def split: option.splits)

text \<open>Nothing but handler \<open>h\<close> and its event has changed.\<close>

definition only_handler :: "'l libevent \<Rightarrow> hid \<Rightarrow> 'l EventBase \<Rightarrow> 'l EventBase \<Rightarrow> bool" where
  "only_handler le h b b' \<longleftrightarrow> touches_only le (Ev_Handler h) (lbase b) (lbase b') \<and>
     (\<forall>h'. h' \<noteq> h \<longrightarrow> handlers b' h' = handlers b h') \<and> timeouts b' = timeouts b"

lemma only_handler_refl [simp]: "only_handler le h b b"
  by (simp add: only_handler_def)

lemma only_handler_update:
  "touches_only le (Ev_Handler h) (lbase b) l \<Longrightarrow>
   only_handler le h b (b\<lparr>lbase := l, handlers := (handlers b)(h \<mapsto> eh)\<rparr>)"
  by (simp add: only_handler_def)

text \<open>\<open>event_add\<close> reports no error: the code ignores its result when it registers a handler.\<close>

definition adds_succeed :: "'l libevent \<Rightarrow> bool" where
  "adds_succeed le \<longleftrightarrow> (\<forall>e tv l. fst (event_add le e tv l) = 0)"

text \<open>The converse of the invariant: what the code regards as registered is pending.\<close>

definition reg_live :: "'l libevent \<Rightarrow> 'l EventBase \<Rightarrow> bool" where
  "reg_live le b \<longleftrightarrow>
     (\<forall>h. usable b h \<longrightarrow> handler_registered b h \<longrightarrow> event_pending le (Ev_Handler h) (lbase b))"

lemma reg_live_only:
  assumes "reg_live le b" "only_handler le h b b'" "same_base b b'"
    "handler_registered b' h \<Longrightarrow> event_pending le (Ev_Handler h) (lbase b')"
  shows "reg_live le b'"
  unfolding reg_live_def
proof (intro allI impI)
  fix h' assume h': "usable b' h'" "handler_registered b' h'"
  show "event_pending le (Ev_Handler h') (lbase b')"
  proof (cases "h' = h")
    case False
    then have "handlers b' h' = handlers b h'" "this_base b' = this_base b"
      using assms(2,3) by (simp_all add: only_handler_def same_base_def)
    then have "usable b h'" "handler_registered b h'"
      using h' by (simp_all add: usable_def handler_registered_def split: option.splits)
    then show ?thesis
      using False assms(1,2) by (auto simp: reg_live_def only_handler_def touches_only_def)
  qed (use h' assms(4) in simp)
qed

lemma unregister_ok:
  assumes le: "libevent_ok le" and inv: "reg_inv le b" and th: "inLoopThread self b" and us: "usable b h"
  shows "\<exists>b'. unregisterHandler le self h b = Inr b' \<and> reg_inv le b' \<and>
    watching le b' = (watching le b)(h := NONE) \<and> same_base b b' \<and> \<not> handler_registered b' h \<and>
    \<not> event_pending le (Ev_Handler h) (lbase b') \<and> only_handler le h b b'"
proof -
  from us obtain eh where eh: "handlers b h = Some eh"
    "EventHandler_base eh = None \<or> EventHandler_base eh = Some (this_base b)"
    by (auto simp: usable_def split: option.splits)
  show ?thesis
  proof (cases "EventHandler_registered eh")
    case True
    then obtain i where i: "eh_impl eh = Some i" "he_registered i" "he_base i = this_base b"
      using eh(2) by (auto simp: eh_defs split: option.splits)
    let ?l = "snd (event_del le (Ev_Handler h) (lbase b))"
    let ?eh = "eh\<lparr>eh_impl := Some (i\<lparr>he_registered := False\<rparr>)\<rparr>"
    let ?b = "b\<lparr>lbase := ?l, handlers := (handlers b)(h \<mapsto> ?eh)\<rparr>"
    note del = libevent_laws(8-10) [OF le, of "Ev_Handler h" "lbase b"]
    have "unregisterHandler le self h b = Inr ?b"
      using th eh i by (simp add: unregisterHandler_def lookup_handler_def)
    moreover have "reg_inv le ?b" using inv del by (intro reg_inv_handler) auto
    moreover have "watching le ?b = (watching le b)(h := NONE)"
      using watching_update [OF del(3)] by (simp add: eh_defs)
    moreover have "same_base b ?b" using eh i by (intro same_base_handler) (auto simp: eh_defs)
    moreover have "only_handler le h b ?b" using del(3) by (rule only_handler_update)
    ultimately show ?thesis using del(2) by (auto simp: handler_registered_def eh_defs)
  next
    case False
    have "unregisterHandler le self h b = Inr b"
      using th eh False by (auto simp: unregisterHandler_def lookup_handler_def eh_defs split: option.splits)
    moreover have "watching le b h = NONE" using eh False
      by (auto simp: watching_def eh_defs split: option.splits)
    ultimately show ?thesis using inv eh False
      by (auto simp: fun_eq_iff reg_inv_def handler_registered_def)
  qed
qed

lemma register_internal_ok:
  assumes le: "libevent_ok le" and inv: "reg_inv le b" and eh: "handlers b h = Some eh"
    and w: "w \<noteq> NONE" and us: "usable b h"
    and nw: "EventHandler_base eh = None \<or> w \<noteq> EventHandler_watched le h eh (lbase b) \<or> intl"
  shows "\<exists>b'. registerHandlerInternal le self h w intl b = Inr b' \<and> reg_inv le b' \<and>
    watching le b' = (watching le b)(h := w) \<and> same_base b b' \<and> handler_registered b' h \<and>
    only_handler le h b b' \<and> (adds_succeed le \<longrightarrow> event_pending le (Ev_Handler h) (lbase b'))"
proof -
  define l1 where "l1 = (if EventHandler_registered eh then snd (event_del le (Ev_Handler h) (lbase b)) else lbase b)"
  define i where "i = (case eh_impl eh of Some i \<Rightarrow> i | None \<Rightarrow> \<lparr>he_base = this_base b, he_registered = False\<rparr>)"
  define l2 where "l2 = event_assign le (Ev_Handler h) (eh_fd eh)
    (short (toFlags (le_flags le) w OR EV_PERSIST (le_flags le))) (libeventCallback h) l1"
  define l3 where "l3 = (if intl then mark_internal le (Ev_Handler h) l2 else l2)"
  define l4 where "l4 = snd (event_add le (Ev_Handler h) None l3)"
  define eh' where "eh' = eh\<lparr>eh_impl := Some (i\<lparr>he_registered := True\<rparr>)\<rparr>"
  have base: "EventHandler_base eh = None \<or> EventHandler_base eh = Some (this_base b)"
    using us eh by (simp add: usable_def)
  have np: "\<not> event_pending le (Ev_Handler h) l1" and t1: "touches_only le (Ev_Handler h) (lbase b) l1"
    using inv eh libevent_laws(9,10) [OF le, of "Ev_Handler h" "lbase b"]
    by (auto simp: l1_def reg_inv_def handler_registered_def)
  have t2: "touches_only le (Ev_Handler h) l1 l2" unfolding l2_def by (rule libevent_laws(4) [OF le np])
  have t3: "touches_only le (Ev_Handler h) l2 l3" by (simp add: l3_def touches_only_mark [OF le])
  have "touches_only le (Ev_Handler h) l3 l4" unfolding l4_def by (rule libevent_laws(6) [OF le])
  then have t4: "touches_only le (Ev_Handler h) (lbase b) l4"
    by (rule touches_only_trans [OF touches_only_trans [OF touches_only_trans [OF t1 t2] t3]])
  have "event_get_events le (Ev_Handler h) l4 = event_get_events le (Ev_Handler h) l2"
    by (simp add: l4_def l3_def libevent_laws(5,11) [OF le])
  then have f4: "EventHandler_watched le h eh' l4 = w"
    using libevent_laws(2) [OF le np] fromFlags_toFlags [OF libevent_laws(1) [OF le]]
    by (simp add: l2_def eh'_def eh_defs)
  have "registerHandlerInternal le self h w intl b = Inr (b\<lparr>lbase := l4, handlers := (handlers b)(h \<mapsto> eh')\<rparr>)"
    using eh w base nw unfolding registerHandlerInternal_def Let_def
    by (auto simp: lookup_handler_def l1_def l2_def l3_def l4_def i_def eh'_def)
  moreover have "reg_inv le (b\<lparr>lbase := l4, handlers := (handlers b)(h \<mapsto> eh')\<rparr>)"
    using inv t4 by (rule reg_inv_handler) (simp add: eh'_def eh_defs)
  moreover have "same_base b (b\<lparr>lbase := l4, handlers := (handlers b)(h \<mapsto> eh')\<rparr>)"
    using eh by (rule same_base_handler) (use base in \<open>auto simp: eh'_def i_def eh_defs split: option.splits\<close>)
  moreover have "adds_succeed le \<Longrightarrow> event_pending le (Ev_Handler h) l4"
    unfolding l4_def by (rule libevent_laws(7) [OF le]) (simp add: adds_succeed_def)
  ultimately show ?thesis
    using watching_update [OF t4] only_handler_update [OF t4] f4 by (auto simp: handler_registered_def eh'_def eh_defs)
qed

lemma register_ok:
  assumes le: "libevent_ok le" and inv: "reg_inv le b" and th: "inLoopThread self b" and us: "usable b h"
  shows "\<exists>b'. registerHandler le self h w b = Inr b' \<and> reg_inv le b' \<and>
    watching le b' = (watching le b)(h := w) \<and> same_base b b' \<and> only_handler le h b b' \<and>
    (adds_succeed le \<longrightarrow> reg_live le b \<longrightarrow> reg_live le b')"
proof -
  from us obtain eh where eh: "handlers b h = Some eh"
    "EventHandler_base eh = None \<or> EventHandler_base eh = Some (this_base b)"
    by (auto simp: usable_def split: option.splits)
  show ?thesis
  proof (cases "EventHandler_base eh \<noteq> None \<and> w = EventHandler_watched le h eh (lbase b)")
    case True
    then have "registerHandler le self h w b = Inr b" "watching le b h = w"
      using th eh by (auto simp: registerHandler_def registerHandlerInternal_def lookup_handler_def watching_def)
    then show ?thesis using inv by auto
  next
    case False
    show ?thesis
    proof (cases "w = NONE")
      case True
      then have "registerHandler le self h w b = unregisterHandler le self h b"
        using False th eh by (auto simp: registerHandler_def registerHandlerInternal_def lookup_handler_def)
      moreover obtain b' where "unregisterHandler le self h b = Inr b'" "reg_inv le b'"
        "watching le b' = (watching le b)(h := NONE)" "same_base b b'" "only_handler le h b b'"
        "\<not> handler_registered b' h" using unregister_ok [OF assms] by blast
      ultimately show ?thesis using True reg_live_only [of le b h b'] by auto
    next
      case w: False
      have "registerHandler le self h w b = registerHandlerInternal le self h w False b"
        using th by (simp add: registerHandler_def)
      moreover obtain b' where "registerHandlerInternal le self h w False b = Inr b'" "reg_inv le b'"
        "watching le b' = (watching le b)(h := w)" "same_base b b'" "only_handler le h b b'"
        "adds_succeed le \<longrightarrow> event_pending le (Ev_Handler h) (lbase b')"
        using register_internal_ok [OF le inv eh(1) w us, of False self] False by blast
      ultimately show ?thesis using reg_live_only [of le b h b'] by auto
    qed
  qed
qed

subsection \<open>Timeouts\<close>

lemma same_base_timeout:
  "timeouts b t = Some to \<Longrightarrow> (usable_timeout b t \<Longrightarrow> lt_base i = this_base b) \<Longrightarrow>
   same_base b (b\<lparr>lbase := l, timeouts := (timeouts b)(t \<mapsto> \<lparr>to_impl = Some i\<rparr>)\<rparr>)"
  by (auto simp: same_base_def usable_def usable_timeout_def split: option.splits)

lemma registerTimeout_ok:
  assumes le: "libevent_ok le" and inv: "reg_inv le b" and th: "inLoopThread self b"
    and to: "timeouts b t = Some to"
  shows "\<exists>b'. registerTimeout le self t tv b = Inr b' \<and> reg_inv le b' \<and> watching le b' = watching le b \<and>
    same_base b b' \<and> timeout_registered b' t \<and>
    (adds_succeed le \<longrightarrow> event_pending le (Ev_Timeout t) (lbase b'))"
proof -
  define i where "i = (case to_impl to of None \<Rightarrow> \<lparr>lt_base = this_base b, lt_registered = False\<rparr> | Some i \<Rightarrow> i)"
  define l1 where "l1 = (if lt_registered i then snd (event_del le (Ev_Timeout t) (lbase b)) else lbase b)"
  define l2 where "l2 = event_assign le (Ev_Timeout t) (- 1) 0 (libeventTimeout t) l1"
  define l3 where "l3 = snd (event_add le (Ev_Timeout t) (Some tv) l2)"
  let ?b = "b\<lparr>lbase := l3, timeouts := (timeouts b)(t \<mapsto> \<lparr>to_impl = Some (i\<lparr>lt_registered := True\<rparr>)\<rparr>)\<rparr>"
  have "event_pending le (Ev_Timeout t) (lbase b) \<Longrightarrow> timeout_registered b t"
    using inv by (simp add: reg_inv_def)
  then have "event_pending le (Ev_Timeout t) (lbase b) \<Longrightarrow> lt_registered i"
    using to by (auto simp: i_def timeout_registered_def split: option.splits)
  then have np: "\<not> event_pending le (Ev_Timeout t) l1" and t1: "touches_only le (Ev_Timeout t) (lbase b) l1"
    using libevent_laws(9,10) [OF le, of "Ev_Timeout t" "lbase b"] by (auto simp: l1_def)
  have t2: "touches_only le (Ev_Timeout t) l1 l2" unfolding l2_def by (rule libevent_laws(4) [OF le np])
  have "touches_only le (Ev_Timeout t) l2 l3" unfolding l3_def by (rule libevent_laws(6) [OF le])
  then have t3: "touches_only le (Ev_Timeout t) (lbase b) l3"
    by (rule touches_only_trans [OF touches_only_trans [OF t1 t2]])
  have "registerTimeout le self t tv b = Inr ?b"
    using th to by (simp add: registerTimeout_def lookup_timeout_def Let_def i_def l1_def l2_def l3_def)
  moreover have "reg_inv le ?b" using inv t3 by (rule reg_inv_timeout) simp
  moreover have "same_base b ?b" using to
    by (rule same_base_timeout) (use to in \<open>auto simp: i_def usable_timeout_def split: option.splits\<close>)
  moreover have "adds_succeed le \<Longrightarrow> event_pending le (Ev_Timeout t) l3"
    unfolding l3_def by (rule libevent_laws(7) [OF le]) (simp add: adds_succeed_def)
  ultimately show ?thesis using watching_timeout [OF t3] by (auto simp: timeout_registered_def)
qed

lemma unregisterTimeout_ok:
  assumes le: "libevent_ok le" and inv: "reg_inv le b" and th: "inLoopThread self b"
    and us: "usable_timeout b t"
  shows "\<exists>b'. unregisterTimeout le self t b = Inr b' \<and> reg_inv le b' \<and> watching le b' = watching le b \<and>
    same_base b b' \<and> \<not> timeout_registered b' t \<and> \<not> event_pending le (Ev_Timeout t) (lbase b')"
proof -
  from us obtain to where to: "timeouts b t = Some to" by (auto simp: usable_timeout_def split: option.splits)
  show ?thesis
  proof (cases "timeout_registered b t")
    case True
    then obtain i where i: "to_impl to = Some i" "lt_registered i" "lt_base i = this_base b"
      using us to by (auto simp: timeout_registered_def usable_timeout_def split: option.splits)
    let ?l = "snd (event_del le (Ev_Timeout t) (lbase b))"
    let ?b = "b\<lparr>lbase := ?l, timeouts := (timeouts b)(t \<mapsto> \<lparr>to_impl = Some (i\<lparr>lt_registered := False\<rparr>)\<rparr>)\<rparr>"
    note del = libevent_laws(8-10) [OF le, of "Ev_Timeout t" "lbase b"]
    have "unregisterTimeout le self t b = Inr ?b"
      using th to i by (simp add: unregisterTimeout_def lookup_timeout_def)
    moreover have "reg_inv le ?b" using inv del(3) by (rule reg_inv_timeout) (use del(2) in simp)
    moreover have "same_base b ?b" using to by (rule same_base_timeout) (use i in simp)
    ultimately show ?thesis using del(2) watching_timeout [OF del(3)] by (auto simp: timeout_registered_def)
  next
    case False
    then have "unregisterTimeout le self t b = Inr b"
      using th to us by (auto simp: unregisterTimeout_def lookup_timeout_def timeout_registered_def
        usable_timeout_def split: option.splits)
    then show ?thesis using inv False by (auto simp: reg_inv_def)
  qed
qed

subsection \<open>The contract of an event base\<close>

text \<open>Requests that a client makes of a base, one after the other.\<close>

datatype request = Watch hid What | Ignore hid

fun requests :: "(hid \<Rightarrow> What \<Rightarrow> 'b \<Rightarrow> fault + 'b) \<Rightarrow> (hid \<Rightarrow> 'b \<Rightarrow> fault + 'b) \<Rightarrow>
    request list \<Rightarrow> 'b \<Rightarrow> fault + 'b" where
  "requests register unregister [] b = Inr b"
| "requests register unregister (Watch h w # rs) b =
     bindE (register h w b) (requests register unregister rs)"
| "requests register unregister (Ignore h # rs) b =
     bindE (unregister h b) (requests register unregister rs)"

fun request_handler :: "request \<Rightarrow> hid" where
  "request_handler (Watch h w) = h"
| "request_handler (Ignore h) = h"

fun granted :: "request list \<Rightarrow> (hid \<Rightarrow> What) \<Rightarrow> hid \<Rightarrow> What" where
  "granted [] f = f"
| "granted (Watch h w # rs) f = granted rs (f(h := w))"
| "granted (Ignore h # rs) f = granted rs (f(h := NONE))"

locale registry =
  fixes ok :: "'le \<Rightarrow> bool"
    and inv :: "'le \<Rightarrow> 'b \<Rightarrow> bool"
    and can :: "thread \<Rightarrow> 'b \<Rightarrow> hid \<Rightarrow> bool"
    and watch :: "'le \<Rightarrow> 'b \<Rightarrow> hid \<Rightarrow> What"
    and register :: "'le \<Rightarrow> thread \<Rightarrow> hid \<Rightarrow> What \<Rightarrow> 'b \<Rightarrow> fault + 'b"
    and unregister :: "'le \<Rightarrow> thread \<Rightarrow> hid \<Rightarrow> 'b \<Rightarrow> fault + 'b"
  assumes register_law: "ok le \<Longrightarrow> inv le b \<Longrightarrow> can self b h \<Longrightarrow>
      \<exists>b'. register le self h w b = Inr b' \<and> inv le b' \<and> watch le b' = (watch le b)(h := w) \<and>
        (\<forall>h'. can self b h' \<longrightarrow> can self b' h')"
    and unregister_law: "ok le \<Longrightarrow> inv le b \<Longrightarrow> can self b h \<Longrightarrow>
      \<exists>b'. unregister le self h b = Inr b' \<and> inv le b' \<and> watch le b' = (watch le b)(h := NONE) \<and>
        (\<forall>h'. can self b h' \<longrightarrow> can self b' h')"
begin

lemma requests_granted:
  assumes "ok le" "inv le b" "\<forall>r \<in> set rs. can self b (request_handler r)"
  shows "\<exists>b'. requests (register le self) (unregister le self) rs b = Inr b' \<and> inv le b' \<and>
    watch le b' = granted rs (watch le b)"
  using assms(2,3)
proof (induction rs arbitrary: b)
  case (Cons r rs)
  show ?case
  proof (cases r)
    case (Watch h w)
    from register_law [OF assms(1) Cons.prems(1), of self h w] Cons.prems(2) Watch obtain b1 where
      b1: "register le self h w b = Inr b1" "inv le b1" "watch le b1 = (watch le b)(h := w)"
      "\<And>h'. can self b h' \<Longrightarrow> can self b1 h'" by auto
    from b1(4) Cons.prems(2) have "\<forall>r \<in> set rs. can self b1 (request_handler r)" by simp
    from Cons.IH [OF b1(2) this, unfolded b1(3)] b1(1) Watch show ?thesis by (simp add: fun_upd_def)
  next
    case (Ignore h)
    from unregister_law [OF assms(1) Cons.prems(1), of self h] Cons.prems(2) Ignore obtain b1 where
      b1: "unregister le self h b = Inr b1" "inv le b1" "watch le b1 = (watch le b)(h := NONE)"
      "\<And>h'. can self b h' \<Longrightarrow> can self b1 h'" by auto
    from b1(4) Cons.prems(2) have "\<forall>r \<in> set rs. can self b1 (request_handler r)" by simp
    from Cons.IH [OF b1(2) this, unfolded b1(3)] b1(1) Ignore show ?thesis by (simp add: fun_upd_def)
  qed
qed simp

end

definition may_register :: "thread \<Rightarrow> 'l EventBase \<Rightarrow> hid \<Rightarrow> bool" where
  "may_register self b h \<longleftrightarrow> inLoopThread self b \<and> usable b h"

lemma may_register_same_base: "same_base b b' \<Longrightarrow> may_register self b h \<Longrightarrow> may_register self b' h"
  by (simp add: may_register_def same_base_def inLoopThread_def)

interpretation er: registry libevent_ok reg_inv may_register watching registerHandler unregisterHandler
proof (unfold_locales, goal_cases)
  case (1 le b self h w)
  with register_ok [of le b self h w] show ?case
    using may_register_same_base unfolding may_register_def by blast
next
  case (2 le b self h)
  with unregister_ok [of le b self h] show ?case
    using may_register_same_base unfolding may_register_def by blast
qed

text \<open>
  The same interface when \<open>event_add\<close> never fails, with the stronger invariant that pending and
  registered coincide.
\<close>

definition reg_exact :: "'l libevent \<Rightarrow> 'l EventBase \<Rightarrow> bool" where
  "reg_exact le b \<longleftrightarrow> reg_inv le b \<and> reg_live le b"

interpretation ex: registry "\<lambda>le. libevent_ok le \<and> adds_succeed le" reg_exact may_register watching
  registerHandler unregisterHandler
proof (unfold_locales, goal_cases)
  case (1 le b self h w)
  then obtain b' where "registerHandler le self h w b = Inr b'" "reg_inv le b'" "reg_live le b'"
    "watching le b' = (watching le b)(h := w)" "same_base b b'"
    using register_ok [of le b self h w] unfolding may_register_def reg_exact_def by blast
  then show ?case using may_register_same_base unfolding reg_exact_def by blast
next
  case (2 le b self h)
  then obtain b' where "unregisterHandler le self h b = Inr b'" "reg_inv le b'"
    "watching le b' = (watching le b)(h := NONE)" "same_base b b'" "only_handler le h b b'"
    "\<not> handler_registered b' h"
    using unregister_ok [of le b self h] unfolding may_register_def reg_exact_def by blast
  moreover from this 2 have "reg_live le b'"
    using reg_live_only [of le b h b'] unfolding reg_exact_def by blast
  ultimately show ?case using may_register_same_base unfolding reg_exact_def by blast
qed

lemma reg_exact_pending:
  "reg_exact le b \<Longrightarrow> usable b h \<Longrightarrow> event_pending le (Ev_Handler h) (lbase b) = handler_registered b h"
  by (auto simp: reg_exact_def reg_inv_def reg_live_def)

subsection \<open>A model of libevent\<close>

text \<open>An event is its flags and whether it is pending; \<open>event_add\<close> succeeds.\<close>

definition libevent_model :: "(event \<Rightarrow> 16 word \<times> bool) libevent" where
  "libevent_model = \<lparr>
     le_flags = \<lparr>EV_READ = 2, EV_WRITE = 4, EV_PERSIST = 16\<rparr>,
     event_assign = (\<lambda>e fd f cb l. l(e := (f, False))),
     event_add = (\<lambda>e tv l. (0, l(e := (fst (l e), True)))),
     event_del = (\<lambda>e l. (0, l(e := (fst (l e), False)))),
     event_get_events = (\<lambda>e l. fst (l e)),
     mark_internal = (\<lambda>e l. l),
     event_pending = (\<lambda>e l. snd (l e))\<rparr>"

lemma libevent_model_ok: "libevent_ok libevent_model" "adds_succeed libevent_model"
  by (auto simp: libevent_ok_def adds_succeed_def touches_only_def libevent_model_def distinct_bits_def
    short_def)

text \<open>A base with id 1, driven by thread 5, with a new handler on descriptor 3 and a new timeout.\<close>

definition base_model :: "(event \<Rightarrow> 16 word \<times> bool) EventBase" where
  "base_model = \<lparr>this_base = 1, lbase = (\<lambda>_. (0, False)), loopThread = 5,
     handlers = [0 \<mapsto> EventHandler_new 3], timeouts = [0 \<mapsto> \<lparr>to_impl = None\<rparr>]\<rparr>"

lemma base_model_ok:
  "reg_exact libevent_model base_model" "reg_inv libevent_model base_model" "may_register 5 base_model 0"
  "usable base_model 0" "inLoopThread 5 base_model" "usable_timeout base_model 0"
  "watching libevent_model base_model = (\<lambda>_. NONE)"
  by (auto simp: reg_exact_def reg_inv_def reg_live_def base_model_def libevent_model_def may_register_def
    inLoopThread_def usable_def usable_timeout_def EventHandler_new_def handler_registered_def eh_defs
    watching_def fun_eq_iff)

subsection \<open>Properties\<close>

text \<open>C13: Registration refines a map from handlers to watched events. For every sequence of
  \<open>registerHandler\<close> and \<open>unregisterHandler\<close> calls made on the loop thread
  for handlers that belong to no other base, no assertion fails, and afterwards
  \<open>watched()\<close> of every handler is what the last request for it asked for (and unchanged
  where there was none). libevent enters with its documented behaviour only; in particular, no event
  is ever assigned while it is pending.\<close>

theorem registration_refines_map:
  assumes "libevent_ok le" and "reg_inv le b" and "\<forall>r \<in> set rs. may_register self b (request_handler r)"
  shows "\<exists>b'. requests (registerHandler le self) (unregisterHandler le self) rs b = Inr b' \<and>
    reg_inv le b' \<and> watching le b' = granted rs (watching le b)"
  using assms by (rule er.requests_granted)

theorem registration_refines_map_witness:
  "\<exists>b'. requests (registerHandler libevent_model 5) (unregisterHandler libevent_model 5)
      [Watch 0 READ, Watch 0 READ_WRITE, Ignore 0, Watch 0 WRITE] base_model = Inr b' \<and>
    reg_inv libevent_model b' \<and> watching libevent_model b' = (\<lambda>_. NONE)(0 := WRITE)"
  using registration_refines_map [OF libevent_model_ok(1) base_model_ok(2),
    of "[Watch 0 READ, Watch 0 READ_WRITE, Ignore 0, Watch 0 WRITE]" 5]
  by (simp add: base_model_ok del: requests.simps)

text \<open>C16: Registered means pending. When \<open>event_add\<close> reports no errors, after any sequence of requests
  a handler of this base is pending in libevent exactly when \<open>registered()\<close> says so: no
  registration is lost and no removed handler can still fire.\<close>

theorem registered_iff_pending:
  assumes "libevent_ok le" and "adds_succeed le" and "reg_exact le b"
    and "\<forall>r \<in> set rs. may_register self b (request_handler r)"
  shows "\<exists>b'. requests (registerHandler le self) (unregisterHandler le self) rs b = Inr b' \<and>
    (\<forall>h. usable b' h \<longrightarrow> event_pending le (Ev_Handler h) (lbase b') = handler_registered b' h)"
  using ex.requests_granted [of le b rs self] assms reg_exact_pending by blast

theorem registered_iff_pending_witness:
  "\<exists>b'. requests (registerHandler libevent_model 5) (unregisterHandler libevent_model 5)
      [Watch 0 READ, Watch 0 NONE] base_model = Inr b' \<and>
    (\<forall>h. usable b' h \<longrightarrow> event_pending libevent_model (Ev_Handler h) (lbase b') = handler_registered b' h)"
  by (rule registered_iff_pending [OF libevent_model_ok base_model_ok(1)]) (simp add: base_model_ok)

text \<open>C31: Timeouts. Registering a timeout, new or already registered with another duration, never
  reassigns a pending event and leaves it pending and registered; unregistering leaves it neither,
  and a second unregistration changes nothing; handlers are not affected. A timeout that has been
  unregistered can be destroyed; destroying one that is registered leaves its event pending.\<close>

theorem timeout_lifecycle:
  assumes "libevent_ok le" and "adds_succeed le" and "reg_inv le b" and "inLoopThread self b"
    and "usable_timeout b t"
  shows "\<exists>b1 b2. registerTimeout le self t tv b = Inr b1 \<and> event_pending le (Ev_Timeout t) (lbase b1) \<and>
    timeout_registered b1 t \<and> watching le b1 = watching le b \<and>
    unregisterTimeout le self t b1 = Inr b2 \<and> \<not> event_pending le (Ev_Timeout t) (lbase b2) \<and>
    unregisterTimeout le self t b2 = Inr b2 \<and> watching le b2 = watching le b \<and> reg_inv le b2 \<and>
    (\<exists>b3. Timeout_destroy t b2 = Inr b3 \<and> timeouts b3 t = None \<and> reg_inv le b3) \<and>
    (\<exists>b3. Timeout_destroy t b1 = Inr b3 \<and> timeouts b3 t = None \<and> event_pending le (Ev_Timeout t) (lbase b3))"
proof -
  from assms(5) obtain to where to: "timeouts b t = Some to"
    by (auto simp: usable_timeout_def split: option.splits)
  from registerTimeout_ok [OF assms(1,3,4) to, of tv] assms(2) obtain b1 where
    b1: "registerTimeout le self t tv b = Inr b1" "reg_inv le b1" "watching le b1 = watching le b"
    "same_base b b1" "timeout_registered b1 t" "event_pending le (Ev_Timeout t) (lbase b1)" by blast
  have th: "inLoopThread self b1" "usable_timeout b1 t"
    using b1(4) assms(4,5) by (simp_all add: same_base_def inLoopThread_def)
  from unregisterTimeout_ok [OF assms(1) b1(2) th] obtain b2 where
    b2: "unregisterTimeout le self t b1 = Inr b2" "reg_inv le b2" "watching le b2 = watching le b1"
    "same_base b1 b2" "\<not> timeout_registered b2 t" "\<not> event_pending le (Ev_Timeout t) (lbase b2)" by blast
  have "inLoopThread self b2" "usable_timeout b2 t"
    using b2(4) th by (simp_all add: same_base_def inLoopThread_def)
  then have "unregisterTimeout le self t b2 = Inr b2" using b2(5)
    by (auto simp: unregisterTimeout_def lookup_timeout_def usable_timeout_def timeout_registered_def
      split: option.splits)
  moreover have "\<exists>b3. Timeout_destroy t b' = Inr b3 \<and> timeouts b3 t = None \<and> lbase b3 = lbase b' \<and>
      (reg_inv le b' \<and> \<not> event_pending le (Ev_Timeout t) (lbase b') \<longrightarrow> reg_inv le b3)"
    if "usable_timeout b' t" for b'
    using that by (auto simp: Timeout_destroy_def lookup_timeout_def usable_timeout_def reg_inv_def handler_registered_def
      timeout_registered_def split: option.splits)
  from this [OF \<open>usable_timeout b2 t\<close>] this [OF \<open>usable_timeout b1 t\<close>] b1(6) b2(2,6)
  have "\<exists>b3. Timeout_destroy t b2 = Inr b3 \<and> timeouts b3 t = None \<and> reg_inv le b3"
    "\<exists>b3. Timeout_destroy t b1 = Inr b3 \<and> timeouts b3 t = None \<and> event_pending le (Ev_Timeout t) (lbase b3)" by auto
  ultimately show ?thesis using b1 b2
    by - (rule exI [of _ b1], rule exI [of _ b2], intro conjI, simp_all)
qed

theorem timeout_lifecycle_witness:
  "\<exists>b1 b2. registerTimeout libevent_model 5 0 \<lparr>tv_sec = 1, tv_usec = 0\<rparr> base_model = Inr b1 \<and>
    event_pending libevent_model (Ev_Timeout 0) (lbase b1) \<and>
    unregisterTimeout libevent_model 5 0 b1 = Inr b2 \<and> \<not> event_pending libevent_model (Ev_Timeout 0) (lbase b2)"
  using timeout_lifecycle [OF libevent_model_ok base_model_ok(2,5,6)] by blast

text \<open>Misuse is caught. Every registration call made on a thread other than the one driving the
  running loop, and every registration of a handler that belongs to another base, ends in a failed
  assertion and not in a change of state.\<close>

theorem registration_misuse:
  shows "(\<not> inLoopThread self b \<longrightarrow>
      registerHandler le self h w b = Inl (Assert_Failed ''inLoopThread()'') \<and>
      unregisterHandler le self h b = Inl (Assert_Failed ''inLoopThread()'') \<and>
      registerTimeout le self t tv b = Inl (Assert_Failed ''inLoopThread()'') \<and>
      unregisterTimeout le self t b = Inl (Assert_Failed ''inLoopThread()'')) \<and>
    (inLoopThread self b \<and> handlers b h = Some eh \<and> EventHandler_base eh = Some other \<and> other \<noteq> this_base b \<longrightarrow>
      registerHandler le self h w b = Inl (Assert_Failed ''handler->base() == this'') \<and>
      unregisterHandler le self h b = Inl (Assert_Failed ''handler->base() == this''))"
  by (auto simp: registerHandler_def unregisterHandler_def registerTimeout_def unregisterTimeout_def
    registerHandlerInternal_def lookup_handler_def assertE_def EventHandler_base_def split: option.splits)

theorem registration_misuse_witness:
  "registerHandler libevent_model 6 0 READ base_model = Inl (Assert_Failed ''inLoopThread()'')"
  using registration_misuse [of 6 base_model libevent_model 0 READ]
  by (simp add: inLoopThread_def base_model_def)

text \<open>A handler stays bound to its base. \<open>base()\<close> is documented to return the base on which the
  handler is registered, or null; after \<open>unregister\<close> the handler is no longer registered but \<open>base()\<close>
  still returns the base, so that registering the handler with a different base fails an
  assertion.\<close>

theorem unregistered_keeps_base:
  assumes "libevent_ok le" and "reg_inv le b" and "inLoopThread self b" and "handlers b h = Some eh"
    and "EventHandler_registered eh" and "EventHandler_base eh = Some (this_base b)"
  shows "\<exists>b' eh'. unregisterHandler le self h b = Inr b' \<and> handlers b' h = Some eh' \<and>
    \<not> EventHandler_registered eh' \<and> EventHandler_base eh' = Some (this_base b) \<and>
    (\<forall>c w. handlers c h = Some eh' \<longrightarrow> this_base c \<noteq> this_base b \<longrightarrow> inLoopThread self c \<longrightarrow>
       registerHandler le self h w c = Inl (Assert_Failed ''handler->base() == this''))"
  using assms
  by (auto simp: unregisterHandler_def registerHandler_def registerHandlerInternal_def lookup_handler_def
    assertE_def EventHandler_base_def EventHandler_registered_def split: option.splits)

theorem unregistered_keeps_base_witness:
  "\<exists>b' eh'. unregisterHandler libevent_model 5 0 (base_model\<lparr>handlers :=
      [0 \<mapsto> \<lparr>eh_fd = 3, eh_impl = Some \<lparr>he_base = 1, he_registered = True\<rparr>\<rparr>]\<rparr>) = Inr b' \<and>
    handlers b' 0 = Some eh' \<and> \<not> EventHandler_registered eh' \<and> EventHandler_base eh' = Some 1"
proof -
  let ?eh = "\<lparr>eh_fd = 3, eh_impl = Some \<lparr>he_base = 1, he_registered = True\<rparr>\<rparr>"
  let ?b = "base_model\<lparr>handlers := [0 \<mapsto> ?eh]\<rparr>"
  have "reg_inv libevent_model ?b" "inLoopThread 5 ?b" "handlers ?b 0 = Some ?eh"
    "EventHandler_registered ?eh" "EventHandler_base ?eh = Some (this_base ?b)"
    by (auto simp: reg_inv_def libevent_model_def base_model_def inLoopThread_def eh_defs)
  from unregistered_keeps_base [OF libevent_model_ok(1) this] show ?thesis
    by (auto simp: base_model_def)
qed

text \<open>Destroying a registered handler leaves a dangling event. The destructor frees the
  implementation object, with the \<open>struct event\<close> inside, but does not remove the event from libevent:
  it stays pending although the handler is gone.\<close>

theorem destroy_leaves_event_pending:
  assumes "reg_exact le b" and "usable b h" and "handler_registered b h"
  shows "\<exists>b'. EventHandler_destroy h b = Inr b' \<and> handlers b' h = None \<and>
    event_pending le (Ev_Handler h) (lbase b') \<and> \<not> reg_inv le b'"
proof -
  from assms(2) obtain eh where "handlers b h = Some eh" by (auto simp: usable_def split: option.splits)
  then have "EventHandler_destroy h b = Inr (b\<lparr>handlers := (handlers b)(h := None)\<rparr>)"
    by (simp add: EventHandler_destroy_def lookup_handler_def)
  then show ?thesis using assms by (auto simp: reg_exact_def reg_live_def reg_inv_def handler_registered_def)
qed

theorem destroy_leaves_event_pending_witness:
  "\<exists>b b'. registerHandler libevent_model 5 0 READ base_model = Inr b \<and> EventHandler_destroy 0 b = Inr b' \<and>
    event_pending libevent_model (Ev_Handler 0) (lbase b') \<and> handlers b' 0 = None"
proof -
  let ?b = "the (case registerHandler libevent_model 5 0 READ base_model of Inr b \<Rightarrow> Some b | Inl _ \<Rightarrow> None)"
  obtain b where b: "registerHandler libevent_model 5 0 READ base_model = Inr b" "reg_inv libevent_model b"
    "reg_live libevent_model b" "same_base base_model b" "watching libevent_model b 0 = READ"
    using register_ok [OF libevent_model_ok(1) base_model_ok(2,5,4), of READ] base_model_ok(1)
      libevent_model_ok(2) by (auto simp: reg_exact_def)
  have "usable b 0" using b(4) base_model_ok(4) by (simp add: same_base_def)
  moreover have "handler_registered b 0" using b(5)
    by (auto simp: watching_def handler_registered_def eh_defs split: option.splits if_splits)
  ultimately show ?thesis
    using destroy_leaves_event_pending [of libevent_model b 0] b by (auto simp: reg_exact_def)
qed

end
