(* ===== verification/Sys_Kernel.thy ===== *)
theory Sys_Kernel
  imports WTE_Prelude
begin

text \<open>
  The operating system as the program sees it: a record of the socket calls and libevent utility
  calls it makes, over an abstract state, and the wrappers of \<open>src/src/xplat-io.cc\<close> in their POSIX
  version. Every call is a parameter; theorems that need more state it as a hypothesis.
\<close>

record 'w kernel =
  k_write :: "int \<Rightarrow> byte array \<Rightarrow> size_t \<Rightarrow> 'w \<Rightarrow> int \<times> 'w"
  k_read :: "int \<Rightarrow> size_t \<Rightarrow> 'w \<Rightarrow> int \<times> byte list \<times> 'w"
  k_close :: "int \<Rightarrow> 'w \<Rightarrow> int \<times> 'w"
  k_socket :: "'w \<Rightarrow> int \<times> 'w"
  make_socket_nonblocking :: "int \<Rightarrow> 'w \<Rightarrow> int \<times> 'w"
  make_listen_socket_reuseable :: "int \<Rightarrow> 'w \<Rightarrow> int \<times> 'w"
  k_inet_pton :: "string \<Rightarrow> int"
  k_connect :: "int \<Rightarrow> string \<Rightarrow> 16 word \<Rightarrow> 'w \<Rightarrow> int \<times> 'w"
  k_bind :: "int \<Rightarrow> string \<Rightarrow> 16 word \<Rightarrow> 'w \<Rightarrow> int \<times> 'w"
  k_getsockname :: "int \<Rightarrow> 'w \<Rightarrow> int \<times> 16 word \<times> 'w"
  k_listen :: "int \<Rightarrow> int \<Rightarrow> 'w \<Rightarrow> int \<times> 'w"
  k_accept :: "int \<Rightarrow> 'w \<Rightarrow> int \<times> 'w"
  socket_geterror :: "int \<Rightarrow> 'w \<Rightarrow> int"
  getsockopt_error :: "int \<Rightarrow> 'w \<Rightarrow> int \<times> int \<times> 'w"
  EINPROGRESS :: int
  EAGAIN :: int
  EWOULDBLOCK :: int

definition xwrite :: "'w kernel \<Rightarrow> int \<Rightarrow> byte array \<Rightarrow> size_t \<Rightarrow> 'w \<Rightarrow> int \<times> 'w" where
  "xwrite k fd buf nbyte w = k_write k fd buf nbyte w"

definition xread :: "'w kernel \<Rightarrow> int \<Rightarrow> size_t \<Rightarrow> 'w \<Rightarrow> int \<times> byte list \<times> 'w" where
  "xread k fd nbyte w = k_read k fd nbyte w"

definition xclose :: "'w kernel \<Rightarrow> int \<Rightarrow> 'w \<Rightarrow> int \<times> 'w" where
  "xclose k fd w = k_close k fd w"

definition isConnectRetryable :: "'w kernel \<Rightarrow> int \<Rightarrow> bool" where
  "isConnectRetryable k e \<longleftrightarrow> e = EINPROGRESS k"

definition isReadRetryable :: "'w kernel \<Rightarrow> int \<Rightarrow> bool" where
  "isReadRetryable k e \<longleftrightarrow> e = EAGAIN k \<or> e = EWOULDBLOCK k"

text \<open>
  What POSIX says of \<open>write\<close> and \<open>read\<close>. \<open>written\<close> and \<open>unread\<close> are the bytes that have gone into,
  and can still be read from, a descriptor: a \<open>write\<close> of \<open>n\<close> bytes that returns \<open>r \<ge> 0\<close> has taken the
  first \<open>r \<le> n\<close> of them, one that returns a negative number has taken none; a \<open>read\<close> that returns
  \<open>r > 0\<close> delivers the next \<open>r\<close> bytes.
\<close>

definition posix_write :: "'w kernel \<Rightarrow> (int \<Rightarrow> 'w \<Rightarrow> byte array) \<Rightarrow> bool" where
  "posix_write k written \<longleftrightarrow> (\<forall>fd buf n w r w'. k_write k fd buf n w = (r, w') \<longrightarrow>
     r \<le> int (unat n) \<and> written fd w' = written fd w @ take (nat r) buf)"

definition posix_read :: "'w kernel \<Rightarrow> (int \<Rightarrow> 'w \<Rightarrow> byte list) \<Rightarrow> bool" where
  "posix_read k unread \<longleftrightarrow> (\<forall>fd n w r bs w'. k_read k fd n w = (r, bs, w') \<longrightarrow>
     r \<le> int (unat n) \<and> length bs = nat r \<and> unread fd w = bs @ unread fd w')"

text \<open>The peer has sent all it will send: \<open>read\<close> delivers input while there is some, and then the end.\<close>

definition feeds :: "'w kernel \<Rightarrow> (int \<Rightarrow> 'w \<Rightarrow> byte list) \<Rightarrow> bool" where
  "feeds k unread \<longleftrightarrow> (\<forall>fd n w. 0 < n \<longrightarrow>
     (if unread fd w = [] then fst (k_read k fd n w) = 0 else 0 < fst (k_read k fd n w)))"

subsection \<open>A system with a part that the calls do not see\<close>

text \<open>
  Where callbacks are objects of the program, their state is a second component of the world; the
  system calls leave it alone.
\<close>

definition lift_call :: "('w \<Rightarrow> 'a \<times> 'w) \<Rightarrow> 'w \<times> 'f \<Rightarrow> 'a \<times> 'w \<times> 'f" where
  "lift_call f x = (case f (fst x) of (r, w) \<Rightarrow> (r, w, snd x))"

definition lift_call2 :: "('w \<Rightarrow> 'a \<times> 'b \<times> 'w) \<Rightarrow> 'w \<times> 'f \<Rightarrow> 'a \<times> 'b \<times> 'w \<times> 'f" where
  "lift_call2 f x = (case f (fst x) of (r, t, w) \<Rightarrow> (r, t, w, snd x))"

definition lift_kernel :: "'w kernel \<Rightarrow> ('w \<times> 'f) kernel" where
  "lift_kernel k = \<lparr>k_write = (\<lambda>fd buf n. lift_call (k_write k fd buf n)), k_read = (\<lambda>fd n. lift_call2 (k_read k fd n)),
     k_close = (\<lambda>fd. lift_call (k_close k fd)), k_socket = lift_call (k_socket k),
     make_socket_nonblocking = (\<lambda>fd. lift_call (make_socket_nonblocking k fd)),
     make_listen_socket_reuseable = (\<lambda>fd. lift_call (make_listen_socket_reuseable k fd)),
     k_inet_pton = k_inet_pton k, k_connect = (\<lambda>fd ip p. lift_call (k_connect k fd ip p)),
     k_bind = (\<lambda>fd ip p. lift_call (k_bind k fd ip p)), k_getsockname = (\<lambda>fd. lift_call2 (k_getsockname k fd)),
     k_listen = (\<lambda>fd n. lift_call (k_listen k fd n)), k_accept = (\<lambda>fd. lift_call (k_accept k fd)),
     socket_geterror = (\<lambda>fd w. socket_geterror k fd (fst w)),
     getsockopt_error = (\<lambda>fd. lift_call2 (getsockopt_error k fd)),
     EINPROGRESS = EINPROGRESS k, EAGAIN = EAGAIN k, EWOULDBLOCK = EWOULDBLOCK k\<rparr>"

lemma lift_write: "k_write (lift_kernel k) fd buf n x = (r, y) \<longleftrightarrow>
    k_write k fd buf n (fst x) = (r, fst y) \<and> snd y = snd x"
  by (cases y) (auto simp: lift_kernel_def lift_call_def split: prod.splits)

lemma fst_lift_write [simp]: "fst (k_write (lift_kernel k) fd buf n x) = fst (k_write k fd buf n (fst x))"
  by (simp add: lift_kernel_def lift_call_def split: prod.split)

lemma lift_read: "k_read (lift_kernel k) fd n x = (r, bs, y) \<longleftrightarrow>
    k_read k fd n (fst x) = (r, bs, fst y) \<and> snd y = snd x"
  by (cases y) (auto simp: lift_kernel_def lift_call2_def split: prod.splits)

lemma lift_posix:
  "posix_write k written \<Longrightarrow> posix_write (lift_kernel k :: ('w \<times> 'f) kernel) (\<lambda>fd x. written fd (fst x))"
  "posix_read k unread \<Longrightarrow> posix_read (lift_kernel k :: ('w \<times> 'f) kernel) (\<lambda>fd x. unread fd (fst x))"
  by (simp_all add: posix_write_def posix_read_def lift_write lift_read)

text \<open>A system that does nothing, for the descriptors of a base that is not woken.\<close>

definition idle_kernel :: "'w kernel" where
  "idle_kernel = \<lparr>k_write = (\<lambda>fd buf n w. (int (unat n), w)), k_read = (\<lambda>fd n w. (- 1, [], w)),
     k_close = (\<lambda>fd w. (0, w)), k_socket = (\<lambda>w. (- 1, w)), make_socket_nonblocking = (\<lambda>fd w. (0, w)),
     make_listen_socket_reuseable = (\<lambda>fd w. (0, w)), k_inet_pton = (\<lambda>s. 0),
     k_connect = (\<lambda>fd s p w. (- 1, w)), k_bind = (\<lambda>fd s p w. (- 1, w)), k_getsockname = (\<lambda>fd w. (- 1, 0, w)),
     k_listen = (\<lambda>fd n w. (- 1, w)), k_accept = (\<lambda>fd w. (- 1, w)), socket_geterror = (\<lambda>fd w. 0),
     getsockopt_error = (\<lambda>fd w. (- 1, 0, w)), EINPROGRESS = 115, EAGAIN = 11, EWOULDBLOCK = 11\<rparr>"

end
