(* ===== verification/Stream_Model.thy ===== *)
theory Stream_Model
  imports Buffer_Model Event_Handling Sys_Kernel
begin

text \<open>
  The asynchronous stream of \<open>src/src/stream.cc\<close>: the queue of write requests, reading, writing,
  connecting and closing.

  \<^item> Write requests are heap objects linked by \<open>next_\<close>; \<open>Requests\<close> holds the \<open>head\<close> and \<open>tail\<close>
    pointers. A deleted request is absent from the heap, so that a use of a dangling pointer is a
    \<open>fault\<close>, and so is a use of the stream object after a callback has destroyed it.
  \<^item> The world of a stream is its event base (\<open>Event_Handling\<close>) and the operating system
    (\<open>Sys_Kernel\<close>). Callbacks are client code: a parameter that may change the state of the stream
    in any way, for instance by calling its operations. \<open>events\<close> is a history variable, the
    callbacks invoked so far.
  \<^item> \<open>readHelper\<close> and \<open>writeHelper\<close> loop for as long as there is work, and a callback can always
    create more, so their loops take a bound on the number of turns.
\<close>

type_synonym rid = nat
type_synonym cbid = nat

record WriteRequest =
  wr_buffer :: BufferImpl
  wr_callback :: "cbid option"
  wr_next :: "rid option"

datatype cb_event =
    Write_Complete cbid
  | Write_Error cbid string
  | Read_Available cbid
  | Read_Error cbid string
  | Read_Eof cbid
  | Connect_Complete cbid
  | Connect_Error cbid string

record ('l, 'w) stream =
  alive :: bool
  sock :: hid
  sbase :: "'l EventBase"
  reqs :: "rid \<rightharpoonup> WriteRequest"
  req_head :: "rid option"
  req_tail :: "rid option"
  readCallback :: "cbid option"
  connectCallback :: "cbid option"
  readBuffer :: BufferImpl
  os :: 'w
  events :: "cb_event list"

record ('l, 'w) stream_env =
  env_le :: "'l libevent"
  env_kernel :: "'w kernel"
  env_alloc :: "size_t \<Rightarrow> bool"
  env_self :: thread
  env_invoke :: "cb_event \<Rightarrow> ('l, 'w) stream \<Rightarrow> fault + ('l, 'w) stream"

text \<open>The constructors; \<open>h\<close> is the \<open>SockHandler\<close>, created with descriptor \<open>fd\<close>.\<close>

definition StreamImpl_init :: "'l EventBase \<Rightarrow> hid \<Rightarrow> int \<Rightarrow> 'w \<Rightarrow> ('l, 'w) stream" where
  "StreamImpl_init b h fd w = \<lparr>alive = True, sock = h,
     sbase = b\<lparr>handlers := (handlers b)(h \<mapsto> EventHandler_new fd)\<rparr>, reqs = Map.empty,
     req_head = None, req_tail = None, readCallback = None, connectCallback = None,
     readBuffer = BufferImpl_init, os = w, events = []\<rparr>"

definition invoke_callback :: "('l, 'w) stream_env \<Rightarrow> cb_event \<Rightarrow> ('l, 'w) stream \<Rightarrow> fault + ('l, 'w) stream" where
  "invoke_callback env ev s = env_invoke env ev (s\<lparr>events := events s @ [ev]\<rparr>)"

text \<open>A member access through \<open>this\<close>.\<close>

definition deref_stream :: "('l, 'w) stream \<Rightarrow> fault + unit" where
  "deref_stream s = (if alive s then Inr () else Inl Use_After_Free)"

definition sock_fd :: "('l, 'w) stream \<Rightarrow> fault + int" where
  "sock_fd s = bindE (deref_stream s) (\<lambda>_.
     bindE (lookup_handler (sock s) (sbase s)) (\<lambda>eh. Inr (eh_fd eh)))"

definition sock_watched :: "('l, 'w) stream_env \<Rightarrow> ('l, 'w) stream \<Rightarrow> fault + What" where
  "sock_watched env s = bindE (deref_stream s) (\<lambda>_.
     bindE (lookup_handler (sock s) (sbase s)) (\<lambda>eh.
     Inr (EventHandler_watched (env_le env) (sock s) eh (lbase (sbase s)))))"

definition sock_setFd :: "int \<Rightarrow> ('l, 'w) stream \<Rightarrow> fault + ('l, 'w) stream" where
  "sock_setFd fd s = bindE (lookup_handler (sock s) (sbase s)) (\<lambda>eh.
     bindE (EventHandler_setFd fd eh) (\<lambda>eh'.
     Inr (s\<lparr>sbase := (sbase s)\<lparr>handlers := (handlers (sbase s))(sock s \<mapsto> eh')\<rparr>\<rparr>)))"

definition sock_register :: "('l, 'w) stream_env \<Rightarrow> What \<Rightarrow> ('l, 'w) stream \<Rightarrow> fault + ('l, 'w) stream" where
  "sock_register env what s =
     bindE (registerHandler (env_le env) (env_self env) (sock s) what (sbase s)) (\<lambda>b.
     Inr (s\<lparr>sbase := b\<rparr>))"

subsection \<open>The queue of write requests\<close>

definition lookup_req :: "rid \<Rightarrow> ('l, 'w) stream \<Rightarrow> fault + WriteRequest" where
  "lookup_req r s = (case reqs s r of None \<Rightarrow> Inl Use_After_Free | Some q \<Rightarrow> Inr q)"

definition Requests_append :: "rid \<Rightarrow> ('l, 'w) stream \<Rightarrow> fault + ('l, 'w) stream" where
  "Requests_append req s = (case req_head s of
       None \<Rightarrow> bindE (assertE ''!tail'' (req_tail s = None)) (\<lambda>_.
         Inr (s\<lparr>req_head := Some req, req_tail := Some req\<rparr>))
     | Some _ \<Rightarrow> (case req_tail s of
           None \<Rightarrow> Inl Null_Dereference
         | Some t \<Rightarrow> bindE (lookup_req t s) (\<lambda>q.
             Inr (s\<lparr>reqs := (reqs s)(t \<mapsto> q\<lparr>wr_next := Some req\<rparr>)\<rparr>))))"

definition consumeFront :: "('l, 'w) stream \<Rightarrow> fault + rid option \<times> ('l, 'w) stream" where
  "consumeFront s = (case req_head s of
       None \<Rightarrow> Inr (None, s)
     | Some tmp \<Rightarrow> bindE (lookup_req tmp s) (\<lambda>q.
         Inr (wr_next q, s\<lparr>req_head := wr_next q,
           req_tail := (if wr_next q = None then None else req_tail s),
           reqs := (reqs s)(tmp := None)\<rparr>)))"

text \<open>\<open>a\<close> is the address of the new request.\<close>

definition WriteRequest_bytes ::
  "('l, 'w) stream_env \<Rightarrow> byte list \<Rightarrow> size_t \<Rightarrow> cbid option \<Rightarrow> fault + WriteRequest" where
  "WriteRequest_bytes env buf n cb =
     bindE (Buffer_append (env_alloc env) buf n BufferImpl_init) (\<lambda>b.
     Inr \<lparr>wr_buffer = b, wr_callback = cb, wr_next = None\<rparr>)"

definition WriteRequest_buffer :: "BufferImpl \<Rightarrow> cbid option \<Rightarrow> WriteRequest \<times> BufferImpl" where
  "WriteRequest_buffer buf cb =
     (let (b, buf') = Buffer_append_buffer BufferImpl_init buf
      in (\<lparr>wr_buffer = b, wr_callback = cb, wr_next = None\<rparr>, buf'))"

definition enqueue :: "('l, 'w) stream_env \<Rightarrow> rid \<Rightarrow> WriteRequest \<Rightarrow> ('l, 'w) stream \<Rightarrow> fault + ('l, 'w) stream" where
  "enqueue env a req s =
     bindE (Requests_append a (s\<lparr>reqs := (reqs s)(a \<mapsto> req)\<rparr>)) (\<lambda>s.
     bindE (sock_watched env s) (\<lambda>what.
     sock_register env (ensureWrite what) s))"

definition Stream_write ::
  "('l, 'w) stream_env \<Rightarrow> rid \<Rightarrow> byte list \<Rightarrow> size_t \<Rightarrow> cbid option \<Rightarrow> ('l, 'w) stream \<Rightarrow> fault + ('l, 'w) stream" where
  "Stream_write env a buf n cb s =
     bindE (WriteRequest_bytes env buf n cb) (\<lambda>req. enqueue env a req s)"

definition Stream_write_buffer ::
  "('l, 'w) stream_env \<Rightarrow> rid \<Rightarrow> BufferImpl \<Rightarrow> cbid option \<Rightarrow> ('l, 'w) stream \<Rightarrow>
     fault + BufferImpl \<times> ('l, 'w) stream" where
  "Stream_write_buffer env a buf cb s =
     (let (req, buf') = WriteRequest_buffer buf cb
      in bindE (enqueue env a req s) (\<lambda>s'. Inr (buf', s')))"

subsection \<open>Reading\<close>

definition startRead :: "('l, 'w) stream_env \<Rightarrow> cbid option \<Rightarrow> ('l, 'w) stream \<Rightarrow> fault + ('l, 'w) stream" where
  "startRead env cb s =
     (if readCallback s = cb then Inr s
      else
        bindE (sock_watched env (s\<lparr>readCallback := cb\<rparr>)) (\<lambda>what.
        sock_register env (ensureRead what) (s\<lparr>readCallback := cb\<rparr>)))"

definition stopRead :: "('l, 'w) stream_env \<Rightarrow> ('l, 'w) stream \<Rightarrow> fault + ('l, 'w) stream" where
  "stopRead env s =
     (if readCallback s = None then Inr s
      else
        let s = s\<lparr>readCallback := None\<rparr> in
        bindE (sock_watched env s) (\<lambda>evs.
        if \<not> isRead evs then Inr s
        else if isWrite evs then
          bindE (assertE ''events == What::READ_WRITE'' (evs = READ_WRITE)) (\<lambda>_.
          sock_register env WRITE s)
        else Inr s))"

text \<open>The array of \<open>readHelper\<close> has 4096 bytes.\<close>

definition read_chunk :: size_t where
  "read_chunk = 4096"

fun readHelper :: "nat \<Rightarrow> ('l, 'w) stream_env \<Rightarrow> ('l, 'w) stream \<Rightarrow> fault + ('l, 'w) stream" where
  "readHelper 0 env s = Inl Out_Of_Fuel"
| "readHelper (Suc fuel) env s =
     bindE (sock_fd s) (\<lambda>fd.
     let (nread, bs, w) = xread (env_kernel env) fd read_chunk (os s); s = s\<lparr>os := w\<rparr> in
     if nread < 0 then
       if isReadRetryable (env_kernel env) (socket_geterror (env_kernel env) fd w) then Inr s
       else (case readCallback s of
           Some cb \<Rightarrow> invoke_callback env (Read_Error cb ''Read failed'') s
         | None \<Rightarrow> Inr s)
     else if nread = 0 then
       (case readCallback s of Some cb \<Rightarrow> invoke_callback env (Read_Eof cb) s | None \<Rightarrow> Inr s)
     else
       bindE (Buffer_append (env_alloc env) bs (of_int nread) (readBuffer s)) (\<lambda>b.
       let s = s\<lparr>readBuffer := b\<rparr> in
       bindE (case readCallback s of
           Some cb \<Rightarrow> invoke_callback env (Read_Available cb) s | None \<Rightarrow> Inr s) (\<lambda>s.
       if of_int nread < read_chunk then Inr s else readHelper fuel env s)))"

subsection \<open>Writing\<close>

text \<open>The loop over the extents of one request: bytes written, \<open>blocked\<close>, \<open>failed\<close>.\<close>

fun write_extents ::
  "'w kernel \<Rightarrow> int \<Rightarrow> Extent list \<Rightarrow> size_t \<Rightarrow> bool \<Rightarrow> 'w \<Rightarrow> size_t \<times> bool \<times> bool \<times> 'w" where
  "write_extents k fd [] total_written blocked w = (total_written, blocked, False, w)"
| "write_extents k fd (x # xs) total_written blocked w =
     (let (written, w') = xwrite k fd (Extent_data x) (Extent_size x) w in
      if written \<ge> 0
      then write_extents k fd xs (total_written + of_int written)
             (blocked \<or> (of_int written :: size_t) < Extent_size x) w'
      else (total_written, blocked, True, w'))"

definition write_failed :: "('l, 'w) stream_env \<Rightarrow> rid \<Rightarrow> ('l, 'w) stream \<Rightarrow> fault + ('l, 'w) stream" where
  "write_failed env r s =
     bindE (lookup_req r s) (\<lambda>q. case wr_callback q of
       Some cb \<Rightarrow> invoke_callback env (Write_Error cb ''Write failed'') s
     | None \<Rightarrow> Inr s)"

fun write_loop :: "nat \<Rightarrow> ('l, 'w) stream_env \<Rightarrow> rid option \<Rightarrow> ('l, 'w) stream \<Rightarrow> fault + ('l, 'w) stream" where
  "write_loop fuel env None s = Inr s"
| "write_loop 0 env (Some r) s = Inl Out_Of_Fuel"
| "write_loop (Suc fuel) env (Some r) s =
     bindE (lookup_req r s) (\<lambda>q.
     let xs = Buffer_peek_extents (- 1) (wr_buffer q) [] in
     bindE (assertE ''!extents.empty()'' (xs \<noteq> [])) (\<lambda>_.
     bindE (sock_fd s) (\<lambda>fd.
     let (total_written, blocked, failed, w) = write_extents (env_kernel env) fd xs 0 False (os s);
         q = q\<lparr>wr_buffer := Buffer_drain total_written (wr_buffer q)\<rparr>;
         s = s\<lparr>os := w, reqs := (reqs s)(r \<mapsto> q)\<rparr>
     in
     if failed then write_failed env r s
     else if blocked then Inr s
     else
       bindE (consumeFront s) (\<lambda>(nxt, s).
       bindE (if nxt = None
              then bindE (sock_watched env s) (\<lambda>what. sock_register env (removeWrite what) s)
              else Inr s) (\<lambda>s.
       bindE (case wr_callback q of
           Some cb \<Rightarrow> invoke_callback env (Write_Complete cb) s | None \<Rightarrow> Inr s) (\<lambda>s.
       write_loop fuel env nxt s))))))"

definition writeHelper :: "nat \<Rightarrow> ('l, 'w) stream_env \<Rightarrow> ('l, 'w) stream \<Rightarrow> fault + ('l, 'w) stream" where
  "writeHelper fuel env s = bindE (deref_stream s) (\<lambda>_. write_loop fuel env (req_head s) s)"

subsection \<open>Connecting and closing\<close>

text \<open>The local variable \<open>error\<close> is null when it is tested, whatever \<open>err\<close> is.\<close>

definition connectHelper :: "('l, 'w) stream_env \<Rightarrow> ('l, 'w) stream \<Rightarrow> fault + ('l, 'w) stream" where
  "connectHelper env s =
     (case connectCallback s of
        None \<Rightarrow> Inl (Assert_Failed ''connectCallback_'')
      | Some cb \<Rightarrow>
          bindE (sock_fd s) (\<lambda>fd.
          let (rc, err, w) = getsockopt_error (env_kernel env) fd (os s);
              s = s\<lparr>os := w, connectCallback := None\<rparr>
          in if rc = - 1
             then invoke_callback env (Connect_Error cb ''Failed to query connection status'') s
             else invoke_callback env (Connect_Complete cb) s))"

text \<open>The loop of \<open>connect\<close> runs once: an error message, or the descriptor and the result of \<open>::connect\<close>.\<close>

definition connect_fails ::
  "('l, 'w) stream_env \<Rightarrow> int \<Rightarrow> string \<Rightarrow> cbid \<Rightarrow> ('l, 'w) stream \<Rightarrow> fault + ('l, 'w) stream" where
  "connect_fails env fd msg cb s =
     (let s = (if fd \<noteq> - 1 then s\<lparr>os := snd (xclose (env_kernel env) fd (os s))\<rparr> else s)
      in invoke_callback env (Connect_Error cb msg) s)"

definition Stream_connect ::
  "('l, 'w) stream_env \<Rightarrow> string \<Rightarrow> 16 word \<Rightarrow> cbid \<Rightarrow> ('l, 'w) stream \<Rightarrow> fault + ('l, 'w) stream" where
  "Stream_connect env ip port cb s =
     bindE (sock_fd s) (\<lambda>fd0.
     bindE (assertE ''handler_.fd() == -1'' (fd0 = - 1)) (\<lambda>_.
     bindE (assertE ''connectCallback_ == nullptr'' (connectCallback s = None)) (\<lambda>_.
     let k = env_kernel env; (fd, w) = k_socket k (os s); s = s\<lparr>os := w\<rparr> in
     if fd = - 1 then connect_fails env fd ''Failed to allocate socket'' cb s
     else
       let (rc, w) = make_socket_nonblocking k fd (os s); s = s\<lparr>os := w\<rparr> in
       if rc = - 1 then connect_fails env fd ''Failed to set socket non-blocking'' cb s
       else if k_inet_pton k ip \<noteq> 1 then connect_fails env fd ''Failed to convert address'' cb s
       else
         let (rc, w) = k_connect k fd ip port (os s); s = s\<lparr>os := w\<rparr> in
         if rc = - 1 then
           if isConnectRetryable k (socket_geterror k fd (os s)) then
             bindE (sock_setFd fd s) (\<lambda>s.
             let s = s\<lparr>connectCallback := Some cb\<rparr> in
             bindE (sock_watched env s) (\<lambda>what. sock_register env (ensureWrite what) s))
           else connect_fails env fd ''Connect failed'' cb s
         else bindE (sock_setFd fd s) (\<lambda>s. invoke_callback env (Connect_Complete cb) s))))"

definition Stream_close :: "('l, 'w) stream_env \<Rightarrow> ('l, 'w) stream \<Rightarrow> fault + ('l, 'w) stream" where
  "Stream_close env s =
     bindE (case readCallback s of Some cb \<Rightarrow> invoke_callback env (Read_Eof cb) s | None \<Rightarrow> Inr s) (\<lambda>s.
     bindE (deref_stream s) (\<lambda>_.
     bindE (case connectCallback s of
         Some cb \<Rightarrow> invoke_callback env (Connect_Error cb ''Closed before connect'') s | None \<Rightarrow> Inr s) (\<lambda>s.
     bindE (deref_stream s) (\<lambda>_.
     bindE (lookup_handler (sock s) (sbase s)) (\<lambda>eh.
     bindE (if EventHandler_registered eh
            then EventHandler_unregister (env_le env) (env_self env) (sock s) (sbase s)
            else Inr (sbase s)) (\<lambda>b.
     let s = s\<lparr>sbase := b\<rparr> in
     bindE (sock_fd s) (\<lambda>fd.
     Inr (if fd \<noteq> - 1 then s\<lparr>os := snd (xclose (env_kernel env) fd (os s))\<rparr> else s))))))))"

text \<open>The destructor; each turn of its loop deletes one request.\<close>

fun consume_all :: "nat \<Rightarrow> ('l, 'w) stream \<Rightarrow> fault + ('l, 'w) stream" where
  "consume_all 0 s = Inl Out_Of_Fuel"
| "consume_all (Suc fuel) s = bindE (consumeFront s) (\<lambda>(r, s).
     if r \<noteq> None then consume_all fuel s else Inr s)"

definition StreamImpl_destroy :: "nat \<Rightarrow> ('l, 'w) stream_env \<Rightarrow> ('l, 'w) stream \<Rightarrow> fault + ('l, 'w) stream" where
  "StreamImpl_destroy fuel env s =
     bindE (EventHandler_unregister (env_le env) (env_self env) (sock s) (sbase s)) (\<lambda>b.
     bindE (consume_all fuel (s\<lparr>sbase := b\<rparr>)) (\<lambda>s.
     bindE (EventHandler_destroy (sock s) (sbase s)) (\<lambda>b.
     Inr (s\<lparr>alive := False, sbase := b\<rparr>))))"

subsection \<open>Dispatch\<close>

definition SockHandler_ready ::
  "nat \<Rightarrow> ('l, 'w) stream_env \<Rightarrow> What \<Rightarrow> ('l, 'w) stream \<Rightarrow> fault + ('l, 'w) stream" where
  "SockHandler_ready fuel env event s =
     bindE (if isWrite event then
              bindE (deref_stream s) (\<lambda>_.
              bindE (if connectCallback s \<noteq> None then connectHelper env s else Inr s) (\<lambda>s.
              writeHelper fuel env s))
            else Inr s) (\<lambda>s.
     if isRead event then readHelper fuel env s else Inr s)"

end
