(* ===== verification/Stream_Correct.thy ===== *)
theory Stream_Correct
  imports Stream_Model Byte_Queue Event_Registry
begin

text \<open>
  Correctness of the stream of \<open>Stream_Model\<close>: the queue of write requests as a list, what a turn of
  the write loop does with the bytes, what reading delivers, which events the socket is watched
  for, and the properties, including those that pin down where the queue loses requests.
\<close>

subsection \<open>The queue as a list\<close>

fun linked :: "(rid \<rightharpoonup> WriteRequest) \<Rightarrow> rid option \<Rightarrow> rid list \<Rightarrow> bool" where
  "linked h p [] \<longleftrightarrow> p = None"
| "linked h p (r # rs) \<longleftrightarrow> p = Some r \<and> (case h r of None \<Rightarrow> False | Some q \<Rightarrow> linked h (wr_next q) rs)"

lemma linked_Cons_iff:
  "linked h p (r # rs) \<longleftrightarrow> p = Some r \<and> (\<exists>q. h r = Some q \<and> linked h (wr_next q) rs)"
  by (auto split: option.splits)

lemma linked_cong: "(\<And>r. r \<in> set rs \<Longrightarrow> h' r = h r) \<Longrightarrow> linked h' p rs = linked h p rs"
  by (induction rs arbitrary: p) (auto split: option.splits)

lemma linked_upd [simp]: "r \<notin> set rs \<Longrightarrow> linked (h(r := x)) p rs = linked h p rs"
  by (rule linked_cong) auto

lemma linked_Some: "linked h p rs \<Longrightarrow> r \<in> set rs \<Longrightarrow> \<exists>q. h r = Some q"
  by (induction rs arbitrary: p) (auto split: option.splits)

lemma linked_unique: "linked h p rs \<Longrightarrow> linked h p rs' \<Longrightarrow> rs = rs'"
  by (induction rs arbitrary: p rs') (case_tac rs'; auto split: option.splits)+

text \<open>The bytes of a list of requests.\<close>

definition req_bytes :: "(rid \<rightharpoonup> WriteRequest) \<Rightarrow> rid \<Rightarrow> byte array" where
  "req_bytes h r = contents (wr_buffer (the (h r)))"

definition queued :: "(rid \<rightharpoonup> WriteRequest) \<Rightarrow> rid list \<Rightarrow> byte array" where
  "queued h rs = concat (map (req_bytes h) rs)"

lemma queued_simps [simp]: "queued h [] = []" "queued h (r # rs) = req_bytes h r @ queued h rs"
  by (simp_all add: queued_def)

lemma queued_upd [simp]: "r \<notin> set rs \<Longrightarrow> queued (h(r := x)) rs = queued h rs"
  by (induction rs) (auto simp: req_bytes_def)

definition req_good :: "(rid \<rightharpoonup> WriteRequest) \<Rightarrow> rid \<Rightarrow> bool" where
  "req_good h r \<longleftrightarrow> buf_inv (wr_buffer (the (h r))) \<and> req_bytes h r \<noteq> []"

text \<open>The stream is live, its queue is \<open>rs\<close>, and its socket can be registered on the base.\<close>

definition stream_ok :: "('l, 'w) stream_env \<Rightarrow> ('l, 'w) stream \<Rightarrow> rid list \<Rightarrow> bool" where
  "stream_ok env s rs \<longleftrightarrow> alive s \<and> linked (reqs s) (req_head s) rs \<and> distinct rs \<and>
     (rs = [] \<longrightarrow> req_tail s = None) \<and> (\<forall>r \<in> set rs. req_good (reqs s) r) \<and>
     reg_inv (env_le env) (sbase s) \<and> may_register (env_self env) (sbase s) (sock s)"

text \<open>The descriptor of the socket and the events it is watched for.\<close>

definition the_fd :: "('l, 'w) stream \<Rightarrow> int" where
  "the_fd s = eh_fd (the (handlers (sbase s) (sock s)))"

definition the_watched :: "('l, 'w) stream_env \<Rightarrow> ('l, 'w) stream \<Rightarrow> What" where
  "the_watched env s = watching (env_le env) (sbase s) (sock s)"

text \<open>What writing leaves alone.\<close>

definition frame :: "('l, 'w) stream \<Rightarrow> ('l, 'w) stream \<Rightarrow> bool" where
  "frame s s' \<longleftrightarrow> sock s' = sock s \<and> the_fd s' = the_fd s \<and> readCallback s' = readCallback s \<and>
     connectCallback s' = connectCallback s \<and> readBuffer s' = readBuffer s"

lemma frame_refl [simp]: "frame s s"
  by (simp add: frame_def)

lemma frame_trans: "frame s s' \<Longrightarrow> frame s' s'' \<Longrightarrow> frame s s''"
  by (simp add: frame_def)

lemma frame_fd: "frame s s' \<Longrightarrow> the_fd s' = the_fd s"
  by (simp add: frame_def)

lemma may_register_handler: "may_register self b h \<Longrightarrow> \<exists>eh. handlers b h = Some eh"
  by (auto simp: may_register_def usable_def split: option.splits)

lemma sock_fd_ok:
  "alive s \<Longrightarrow> may_register self (sbase s) (sock s) \<Longrightarrow> sock_fd s = Inr (the_fd s)"
  using may_register_handler
  by (fastforce simp: sock_fd_def deref_stream_def lookup_handler_def the_fd_def)

lemma sock_watched_ok:
  "alive s \<Longrightarrow> may_register self (sbase s) (sock s) \<Longrightarrow> sock_watched env s = Inr (the_watched env s)"
  using may_register_handler
  by (fastforce simp: sock_watched_def deref_stream_def lookup_handler_def the_watched_def watching_def)

lemma sock_register_ok:
  assumes "libevent_ok (env_le env)" "reg_inv (env_le env) (sbase s)"
    "may_register (env_self env) (sbase s) (sock s)"
  shows "\<exists>b. sock_register env w s = Inr (s\<lparr>sbase := b\<rparr>) \<and> reg_inv (env_le env) b \<and>
    may_register (env_self env) b (sock s) \<and> the_watched env (s\<lparr>sbase := b\<rparr>) = w \<and>
    the_fd (s\<lparr>sbase := b\<rparr>) = the_fd s"
proof -
  have th: "inLoopThread (env_self env) (sbase s)" "usable (sbase s) (sock s)"
    using assms(3) by (simp_all add: may_register_def)
  from register_ok [OF assms(1,2) th, of w] obtain b where
    b: "registerHandler (env_le env) (env_self env) (sock s) w (sbase s) = Inr b" "reg_inv (env_le env) b"
    "watching (env_le env) b = (watching (env_le env) (sbase s))(sock s := w)" "same_base (sbase s) b"
    by blast
  have mr: "may_register (env_self env) b (sock s)" by (rule may_register_same_base [OF b(4) assms(3)])
  obtain eh eh' where "handlers (sbase s) (sock s) = Some eh" "handlers b (sock s) = Some eh'"
    using may_register_handler [OF mr] may_register_handler [OF assms(3)] by blast
  moreover have "map_option eh_fd (handlers b (sock s)) = map_option eh_fd (handlers (sbase s) (sock s))"
    using b(4) by (simp add: same_base_def)
  ultimately have "the_fd (s\<lparr>sbase := b\<rparr>) = the_fd s" by (simp add: the_fd_def)
  then show ?thesis using b mr by (intro exI [of _ b]) (simp add: sock_register_def the_watched_def)
qed

subsection \<open>Writing the extents of a request\<close>

text \<open>The kernel takes whatever it is offered.\<close>

definition takes_all :: "'w kernel \<Rightarrow> bool" where
  "takes_all k \<longleftrightarrow> (\<forall>fd buf n w. fst (k_write k fd buf n w) = int (unat n))"

text \<open>
  The bytes go out in order: there is one extent only, or the kernel never takes less than it is
  offered.
\<close>

definition in_order :: "'w kernel \<Rightarrow> Extent list \<Rightarrow> bool" where
  "in_order k xs \<longleftrightarrow> length xs \<le> 1 \<or> takes_all k"

definition sized :: "Extent list \<Rightarrow> bool" where
  "sized xs \<longleftrightarrow> (\<forall>x \<in> set xs. 0 < Extent_size x \<and> unat (Extent_size x) \<le> length (Extent_data x))"

lemma of_int_unat [simp]: "(of_int (int (unat n)) :: size_t) = n"
  by simp

lemma length_Extent_bytes: "sized xs \<Longrightarrow> x \<in> set xs \<Longrightarrow> length (Extent_bytes x) = unat (Extent_size x)"
  by (simp add: sized_def Extent_bytes_def)

lemma write_extents_all:
  assumes "takes_all k" "posix_write k written" "sized xs"
  shows "\<exists>w'. write_extents k fd xs tot blk w =
      (tot + of_nat (length (concat (map Extent_bytes xs))), blk, False, w') \<and>
    written fd w' = written fd w @ concat (map Extent_bytes xs)"
  using assms(3)
proof (induction xs arbitrary: tot blk w)
  case (Cons x xs)
  obtain r w1 where kw: "k_write k fd (Extent_data x) (Extent_size x) w = (r, w1)" by force
  have r: "r = int (unat (Extent_size x))" using assms(1) kw unfolding takes_all_def by (metis fst_conv)
  have w1: "written fd w1 = written fd w @ Extent_bytes x"
    using assms(2) kw r by (simp add: posix_write_def Extent_bytes_def)
  have len: "(of_nat (length (Extent_bytes x)) :: size_t) = Extent_size x"
    using length_Extent_bytes [OF Cons.prems, of x] by simp
  have "sized xs" using Cons.prems by (simp add: sized_def)
  from Cons.IH [OF this, of "tot + Extent_size x" blk w1] show ?case
    using kw r w1 len by (auto simp: xwrite_def Let_def add.assoc)
qed simp

lemma write_extents_one:
  assumes "posix_write k written" "sized [x]"
  shows "\<exists>t b f w'. write_extents k fd [x] 0 False w = (of_nat t, b, f, w') \<and>
    written fd w' = written fd w @ take t (Extent_bytes x) \<and> t \<le> length (Extent_bytes x) \<and>
    ((b \<or> f) = (t < length (Extent_bytes x)))"
proof -
  obtain r w1 where kw: "k_write k fd (Extent_data x) (Extent_size x) w = (r, w1)" by force
  have r: "r \<le> int (unat (Extent_size x))" and w1: "written fd w1 = written fd w @ take (nat r) (Extent_data x)"
    using assms(1) kw by (simp_all add: posix_write_def)
  have len: "length (Extent_bytes x) = unat (Extent_size x)" "0 < unat (Extent_size x)"
    using assms(2) length_Extent_bytes [OF assms(2), of x] by (simp_all add: sized_def word_less_nat_alt)
  show ?thesis
  proof (cases "r \<ge> 0")
    case True
    then obtain t where t: "r = int t" using nonneg_int_cases by blast
    have le: "t \<le> unat (Extent_size x)" using r unfolding t by (simp only: of_nat_le_iff)
    then have "unat (of_nat t :: size_t) = t"
      using unat_size_bound [of "Extent_size x"] by (intro unat_of_nat_size) simp
    then have "(of_nat t :: size_t) < Extent_size x \<longleftrightarrow> t < unat (Extent_size x)"
      by (simp add: word_less_nat_alt)
    moreover have "take t (Extent_bytes x) = take t (Extent_data x)"
      using le by (simp add: Extent_bytes_def)
    ultimately show ?thesis
      using kw le w1 t len by (intro exI [of _ t]) (auto simp: xwrite_def)
  next
    case False
    then show ?thesis using kw w1 len by (intro exI [of _ 0]) (auto simp: xwrite_def)
  qed
qed

lemma write_extents_in_order:
  assumes "posix_write k written" "sized xs" "in_order k xs" "xs \<noteq> []"
  shows "\<exists>t b f w'. write_extents k fd xs 0 False w = (of_nat t, b, f, w') \<and>
    written fd w' = written fd w @ take t (concat (map Extent_bytes xs)) \<and>
    t \<le> length (concat (map Extent_bytes xs)) \<and> ((b \<or> f) = (t < length (concat (map Extent_bytes xs))))"
proof (cases "takes_all k")
  case True
  from write_extents_all [OF True assms(1,2), of fd 0 False w] show ?thesis
    by (metis add_0 order_refl take_all less_irrefl)
next
  case False
  then obtain x where "xs = [x]" using assms(3,4) by (cases xs) (auto simp: in_order_def)
  then show ?thesis using write_extents_one [OF assms(1), of x] assms(2) by simp
qed

lemma write_extents_lift:
  "write_extents (lift_kernel k) fd xs tot blk x = (t, b, f, y) \<Longrightarrow> snd y = snd x"
proof (induction xs arbitrary: tot blk x)
  case (Cons e xs)
  obtain r z where z: "k_write (lift_kernel k) fd (Extent_data e) (Extent_size e) x = (r, z)" by (meson surj_pair)
  then have "snd z = snd x" by (simp add: lift_write)
  then show ?case using Cons z by (auto simp: xwrite_def Let_def split: if_splits)
qed simp

subsection \<open>A turn of the write loop\<close>

text \<open>Callbacks that leave the stream alone.\<close>

definition inert :: "('l, 'w) stream_env \<Rightarrow> bool" where
  "inert env \<longleftrightarrow> (\<forall>ev s. env_invoke env ev s = Inr s)"

lemma invoke_inert: "inert env \<Longrightarrow> invoke_callback env ev s = Inr (s\<lparr>events := events s @ [ev]\<rparr>)"
  by (simp add: inert_def invoke_callback_def)

text \<open>
  Completion callbacks that leave the stream alone, in the states that satisfy \<open>J\<close>; writing to
  \<open>fd\<close> does not change that.
\<close>

definition quiet :: "('l, 'w) stream_env \<Rightarrow> int \<Rightarrow> ('w \<Rightarrow> bool) \<Rightarrow> bool" where
  "quiet env fd J \<longleftrightarrow> (\<forall>cb s. J (os s) \<longrightarrow> env_invoke env (Write_Complete cb) s = Inr s) \<and>
     (\<forall>buf n w. J w \<longrightarrow> J (snd (k_write (env_kernel env) fd buf n w)))"

lemma inert_quiet: "inert env \<Longrightarrow> quiet env fd (\<lambda>_. True)"
  by (simp add: inert_def quiet_def)

lemma quiet_extents:
  assumes "quiet env fd J"
  shows "J w \<Longrightarrow> write_extents (env_kernel env) fd xs tot blk w = (t, b, f, w') \<Longrightarrow> J w'"
proof (induction xs arbitrary: tot blk w)
  case (Cons x xs)
  obtain r v where k: "k_write (env_kernel env) fd (Extent_data x) (Extent_size x) w = (r, v)" by force
  then have "J v" using assms Cons.prems(1) unfolding quiet_def by (metis snd_conv)
  then show ?case using Cons k by (auto simp: xwrite_def Let_def split: if_splits)
qed simp

text \<open>The kernel never reports an error.\<close>

definition never_fails :: "'w kernel \<Rightarrow> bool" where
  "never_fails k \<longleftrightarrow> (\<forall>fd buf n w. 0 \<le> fst (k_write k fd buf n w))"

lemma never_fails_extents:
  assumes "never_fails k"
  shows "write_extents k fd xs tot blk w = (t, b, f, w') \<Longrightarrow> \<not> f"
proof (induction xs arbitrary: tot blk w)
  case (Cons x xs)
  obtain r v where k: "k_write k fd (Extent_data x) (Extent_size x) w = (r, v)" by force
  then have "0 \<le> r" using assms unfolding never_fails_def by (metis fst_conv)
  then show ?case using Cons k by (auto simp: xwrite_def Let_def)
qed simp

text \<open>The kernel reports an error whenever it is asked to write.\<close>

definition broken :: "'w kernel \<Rightarrow> bool" where
  "broken k \<longleftrightarrow> (\<forall>fd buf n w. fst (k_write k fd buf n w) < 0)"

lemma write_extents_broken:
  assumes "broken k" "xs \<noteq> []"
  shows "fst (snd (snd (write_extents k fd xs tot blk w)))"
proof -
  obtain x ys where xs: "xs = x # ys" using assms(2) by (cases xs) auto
  obtain r w' where "k_write k fd (Extent_data x) (Extent_size x) w = (r, w')" by force
  moreover from this assms(1) have "r < 0" unfolding broken_def by (metis fst_conv)
  ultimately show ?thesis by (simp add: xs xwrite_def)
qed

definition completes :: "(rid \<rightharpoonup> WriteRequest) \<Rightarrow> rid \<Rightarrow> cb_event list" where
  "completes h r = (case wr_callback (the (h r)) of None \<Rightarrow> [] | Some cb \<Rightarrow> [Write_Complete cb])"

definition fails :: "(rid \<rightharpoonup> WriteRequest) \<Rightarrow> rid \<Rightarrow> cb_event list" where
  "fails h r = (case wr_callback (the (h r)) of None \<Rightarrow> [] | Some cb \<Rightarrow> [Write_Error cb ''Write failed''])"

definition req_extents :: "(rid \<rightharpoonup> WriteRequest) \<Rightarrow> rid \<Rightarrow> Extent list" where
  "req_extents h r = Buffer_peek_extents (- 1) (wr_buffer (the (h r))) []"

lemma req_extents_ok:
  assumes "req_good h r"
  shows "concat (map Extent_bytes (req_extents h r)) = req_bytes h r" "sized (req_extents h r)"
    "req_extents h r \<noteq> []"
proof -
  have inv: "buf_inv (wr_buffer (the (h r)))" and ne: "req_bytes h r \<noteq> []"
    using assms by (simp_all add: req_good_def)
  show c: "concat (map Extent_bytes (req_extents h r)) = req_bytes h r"
    using bq.view_max [OF inv] by (simp add: req_extents_def req_bytes_def)
  show "sized (req_extents h r)"
    using peek_extents_ok(2) [OF inv] by (simp add: sized_def req_extents_def)
  show "req_extents h r \<noteq> []" using c ne by auto
qed

lemma stream_ok_Cons:
  assumes "stream_ok env s (r # rs)"
  obtains q where "reqs s r = Some q" "linked (reqs s) (wr_next q) rs" "r \<notin> set rs" "req_good (reqs s) r"
    "req_head s = Some r" "alive s" "distinct rs" "\<forall>r \<in> set rs. req_good (reqs s) r"
    "reg_inv (env_le env) (sbase s)" "may_register (env_self env) (sbase s) (sock s)"
  using assms unfolding stream_ok_def linked_Cons_iff by auto

text \<open>One \<open>write\<close> for each extent of the first request, and the request's buffer drained.\<close>

lemma head_written:
  assumes ok: "stream_ok env s (r # rs)" and pw: "posix_write (env_kernel env) written"
    and ord: "in_order (env_kernel env) (req_extents (reqs s) r)"
  obtains t b f w where
    "write_extents (env_kernel env) (the_fd s) (req_extents (reqs s) r) 0 False (os s) = (of_nat t, b, f, w)"
    "written (the_fd s) w = written (the_fd s) (os s) @ take t (req_bytes (reqs s) r)"
    "t \<le> length (req_bytes (reqs s) r)" "(b \<or> f) = (t < length (req_bytes (reqs s) r))"
    "buf_inv (Buffer_drain (of_nat t) (wr_buffer (the (reqs s r))))"
    "contents (Buffer_drain (of_nat t) (wr_buffer (the (reqs s r)))) = drop t (req_bytes (reqs s) r)"
proof -
  from ok have good: "req_good (reqs s) r" by (auto simp: stream_ok_def)
  note ext = req_extents_ok [OF good]
  from write_extents_in_order [OF pw ext(2) ord ext(3), of "the_fd s" "os s", unfolded ext(1)]
  obtain t b f w where e:
    "write_extents (env_kernel env) (the_fd s) (req_extents (reqs s) r) 0 False (os s) = (of_nat t, b, f, w)"
    "written (the_fd s) w = written (the_fd s) (os s) @ take t (req_bytes (reqs s) r)"
    "t \<le> length (req_bytes (reqs s) r)" "(b \<or> f) = (t < length (req_bytes (reqs s) r))" by blast
  have inv: "buf_inv (wr_buffer (the (reqs s r)))" using good by (simp add: req_good_def)
  have "length (req_bytes (reqs s) r) < 2 ^ 64" unfolding req_bytes_def by (rule buf_inv_bound [OF inv])
  then have "unat (of_nat t :: size_t) = t" using e(3) by (intro unat_of_nat_size) simp
  then show thesis using that [OF e] drain_ok [OF inv, of "of_nat t"] by (simp add: req_bytes_def)
qed

text \<open>
  The first request went out whole. \<open>invoke_opt\<close> is the call of its callback, if it has one.
\<close>

definition invoke_opt :: "('l, 'w) stream_env \<Rightarrow> (cbid \<Rightarrow> cb_event) \<Rightarrow> cbid option \<Rightarrow> ('l, 'w) stream \<Rightarrow>
    fault + ('l, 'w) stream" where
  "invoke_opt env f c s = (case c of Some cb \<Rightarrow> invoke_callback env (f cb) s | None \<Rightarrow> Inr s)"

lemma invoke_opt_inert:
  "inert env \<Longrightarrow> invoke_opt env f c s = Inr (s\<lparr>events := events s @ (case c of None \<Rightarrow> [] | Some cb \<Rightarrow> [f cb])\<rparr>)"
  by (simp add: invoke_opt_def invoke_inert split: option.split)

lemma write_turn_pops:
  assumes le: "libevent_ok (env_le env)" and ok: "stream_ok env s (r # rs)"
    and ext: "write_extents (env_kernel env) (the_fd s) (req_extents (reqs s) r) 0 False (os s) =
      (n, False, False, w)"
  shows "\<exists>s1. write_loop (Suc fuel) env (Some r) s =
      bindE (invoke_opt env Write_Complete (wr_callback (the (reqs s r))) s1) (write_loop fuel env (req_head s1)) \<and>
    stream_ok env s1 rs \<and> os s1 = w \<and> frame s s1 \<and> reqs s1 = (reqs s)(r := None) \<and>
    (rs \<noteq> [] \<longrightarrow> req_tail s1 = req_tail s) \<and> events s1 = events s \<and>
    the_watched env s1 = (if rs = [] then removeWrite (the_watched env s) else the_watched env s)"
proof -
  from ok obtain q where q: "reqs s r = Some q" "linked (reqs s) (wr_next q) rs" "r \<notin> set rs"
    "req_good (reqs s) r" "req_head s = Some r" "alive s" "distinct rs" "\<forall>r \<in> set rs. req_good (reqs s) r"
    "reg_inv (env_le env) (sbase s)" "may_register (env_self env) (sbase s) (sock s)"
    by (rule stream_ok_Cons)
  let ?q = "q\<lparr>wr_buffer := Buffer_drain n (wr_buffer q)\<rparr>"
  let ?s1 = "s\<lparr>os := w, req_head := wr_next q,
    req_tail := (if wr_next q = None then None else req_tail s), reqs := (reqs s)(r := None)\<rparr>"
  have xs: "Buffer_peek_extents (- 1) (wr_buffer q) [] = req_extents (reqs s) r"
    using q(1) by (simp add: req_extents_def)
  have fd: "sock_fd s = Inr (the_fd s)" by (rule sock_fd_ok [OF q(6,10)])
  have nxt: "wr_next q = None \<longleftrightarrow> rs = []" using q(2) by (cases rs) auto
  have w1: "sock_watched env ?s1 = Inr (the_watched env s)"
    using sock_watched_ok [of ?s1 "env_self env" env] q(6,10) by (simp add: the_watched_def)
  obtain b where b: "sock_register env (removeWrite (the_watched env s)) ?s1 = Inr (?s1\<lparr>sbase := b\<rparr>)"
    "reg_inv (env_le env) b" "may_register (env_self env) b (sock s)"
    "the_watched env (?s1\<lparr>sbase := b\<rparr>) = removeWrite (the_watched env s)"
    "the_fd (?s1\<lparr>sbase := b\<rparr>) = the_fd s"
    using sock_register_ok [OF le, of ?s1 "removeWrite (the_watched env s)"] q(9,10)
    by (auto simp: the_fd_def)
  let ?b = "if rs = [] then b else sbase s"
  let ?s2 = "?s1\<lparr>sbase := ?b\<rparr>"
  have "write_loop (Suc fuel) env (Some r) s =
      bindE (invoke_opt env Write_Complete (wr_callback q) ?s2) (write_loop fuel env (req_head ?s2))"
    using q(1,5) xs fd ext nxt w1 b(1) req_extents_ok(3) [OF q(4)]
    by (cases "wr_callback q")
      (auto simp: lookup_req_def Let_def consumeFront_def invoke_opt_def fun_upd_def cong: if_cong)
  moreover have "stream_ok env ?s2 rs"
    using q b(2,3) nxt by (auto simp: stream_ok_def req_good_def req_bytes_def)
  moreover have "the_watched env ?s2 = (if rs = [] then removeWrite (the_watched env s) else the_watched env s)"
    using b(4) by (auto simp: the_watched_def)
  moreover have "the_fd ?s2 = the_fd s" using b(5) by (auto simp: the_fd_def)
  ultimately show ?thesis using nxt q(1) by (intro exI [of _ ?s2]) (auto simp: frame_def)
qed

lemma stream_ok_events [simp]: "stream_ok env (s\<lparr>events := e\<rparr>) rs = stream_ok env s rs"
  by (simp add: stream_ok_def)

lemma write_turn_done:
  assumes le: "libevent_ok (env_le env)" and ok: "stream_ok env s (r # rs)" and q: "quiet env fd J" "J w"
    and ext: "write_extents (env_kernel env) (the_fd s) (req_extents (reqs s) r) 0 False (os s) =
      (n, False, False, w)"
  shows "\<exists>s'. write_loop (Suc fuel) env (Some r) s = write_loop fuel env (req_head s') s' \<and>
    stream_ok env s' rs \<and> os s' = w \<and> frame s s' \<and> reqs s' = (reqs s)(r := None) \<and>
    (rs \<noteq> [] \<longrightarrow> req_tail s' = req_tail s) \<and> events s' = events s @ completes (reqs s) r \<and>
    the_watched env s' = (if rs = [] then removeWrite (the_watched env s) else the_watched env s)"
proof -
  from write_turn_pops [OF le ok ext, of fuel] obtain s1 where
    s1: "write_loop (Suc fuel) env (Some r) s =
      bindE (invoke_opt env Write_Complete (wr_callback (the (reqs s r))) s1) (write_loop fuel env (req_head s1))"
    "stream_ok env s1 rs" "os s1 = w" "frame s s1" "reqs s1 = (reqs s)(r := None)"
    "rs \<noteq> [] \<longrightarrow> req_tail s1 = req_tail s" "events s1 = events s"
    "the_watched env s1 = (if rs = [] then removeWrite (the_watched env s) else the_watched env s)" by blast
  let ?s = "s1\<lparr>events := events s @ completes (reqs s) r\<rparr>"
  have "invoke_opt env Write_Complete (wr_callback (the (reqs s r))) s1 = Inr ?s"
    using q s1(3,7) by (auto simp: invoke_opt_def invoke_callback_def quiet_def completes_def split: option.splits)
  then have "write_loop (Suc fuel) env (Some r) s = write_loop fuel env (req_head ?s) ?s" using s1(1) by simp
  then show ?thesis using s1 by (intro exI [of _ ?s]) (auto simp: frame_def the_fd_def the_watched_def)
qed

text \<open>The kernel took less than the first request, or reported an error.\<close>

lemma write_turn_keeps:
  assumes ok: "stream_ok env s (r # rs)" and bf: "b \<or> f"
    and ext: "write_extents (env_kernel env) (the_fd s) (req_extents (reqs s) r) 0 False (os s) = (n, b, f, w)"
    and drain: "buf_inv (Buffer_drain n (wr_buffer (the (reqs s r))))"
      "contents (Buffer_drain n (wr_buffer (the (reqs s r)))) = bs" "bs \<noteq> []"
  shows "\<exists>s1. write_loop (Suc fuel) env (Some r) s =
      (if f then invoke_opt env (\<lambda>cb. Write_Error cb ''Write failed'') (wr_callback (the (reqs s r))) s1 else Inr s1) \<and>
    stream_ok env s1 (r # rs) \<and> os s1 = w \<and>
    sbase s1 = sbase s \<and> frame s s1 \<and> req_bytes (reqs s1) r = bs \<and> req_tail s1 = req_tail s \<and>
    wr_buffer (the (reqs s1 r)) = Buffer_drain n (wr_buffer (the (reqs s r))) \<and>
    wr_callback (the (reqs s1 r)) = wr_callback (the (reqs s r)) \<and>
    (\<forall>r'. r' \<noteq> r \<longrightarrow> reqs s1 r' = reqs s r') \<and> events s1 = events s"
proof -
  from ok obtain q where q: "reqs s r = Some q" "linked (reqs s) (wr_next q) rs" "r \<notin> set rs"
    "req_good (reqs s) r" "req_head s = Some r" "alive s" "distinct rs" "\<forall>r \<in> set rs. req_good (reqs s) r"
    "reg_inv (env_le env) (sbase s)" "may_register (env_self env) (sbase s) (sock s)"
    by (rule stream_ok_Cons)
  let ?q = "q\<lparr>wr_buffer := Buffer_drain n (wr_buffer q)\<rparr>"
  let ?s = "s\<lparr>os := w, reqs := (reqs s)(r \<mapsto> ?q)\<rparr>"
  have xs: "Buffer_peek_extents (- 1) (wr_buffer q) [] = req_extents (reqs s) r"
    using q(1) by (simp add: req_extents_def)
  have fd: "sock_fd s = Inr (the_fd s)" by (rule sock_fd_ok [OF q(6,10)])
  have "write_loop (Suc fuel) env (Some r) s =
      (if f then invoke_opt env (\<lambda>cb. Write_Error cb ''Write failed'') (wr_callback q) ?s else Inr ?s)"
    using q(1) xs fd ext bf req_extents_ok(3) [OF q(4)]
    by (cases "wr_callback q") (auto simp: lookup_req_def Let_def write_failed_def invoke_opt_def)
  moreover have "stream_ok env ?s (r # rs)"
    using q drain by (auto simp: stream_ok_def req_good_def req_bytes_def linked_Cons_iff)
  ultimately show ?thesis using q(1,3) drain(2) by (intro exI [of _ ?s]) (auto simp: req_bytes_def frame_def the_fd_def)
qed

lemma write_turn_stops:
  assumes ok: "stream_ok env s (r # rs)" and inert: "inert env" and bf: "b \<or> f"
    and ext: "write_extents (env_kernel env) (the_fd s) (req_extents (reqs s) r) 0 False (os s) = (n, b, f, w)"
    and drain: "buf_inv (Buffer_drain n (wr_buffer (the (reqs s r))))"
      "contents (Buffer_drain n (wr_buffer (the (reqs s r)))) = bs" "bs \<noteq> []"
  shows "\<exists>s'. write_loop (Suc fuel) env (Some r) s = Inr s' \<and> stream_ok env s' (r # rs) \<and> os s' = w \<and>
    sbase s' = sbase s \<and> frame s s' \<and> req_bytes (reqs s') r = bs \<and> req_tail s' = req_tail s \<and>
    wr_buffer (the (reqs s' r)) = Buffer_drain n (wr_buffer (the (reqs s r))) \<and>
    (\<forall>r'. r' \<noteq> r \<longrightarrow> reqs s' r' = reqs s r') \<and> completes (reqs s') r = completes (reqs s) r \<and>
    events s' = events s @ (if f then fails (reqs s) r else [])"
proof -
  from write_turn_keeps [OF ok bf ext drain, of fuel] obtain s1 where
    s1: "write_loop (Suc fuel) env (Some r) s =
      (if f then invoke_opt env (\<lambda>cb. Write_Error cb ''Write failed'') (wr_callback (the (reqs s r))) s1 else Inr s1)"
    "stream_ok env s1 (r # rs)" "os s1 = w" "sbase s1 = sbase s" "frame s s1" "req_bytes (reqs s1) r = bs"
    "req_tail s1 = req_tail s" "wr_buffer (the (reqs s1 r)) = Buffer_drain n (wr_buffer (the (reqs s r)))"
    "wr_callback (the (reqs s1 r)) = wr_callback (the (reqs s r))"
    "\<forall>r'. r' \<noteq> r \<longrightarrow> reqs s1 r' = reqs s r'" "events s1 = events s" by blast
  let ?s = "s1\<lparr>events := events s @ (if f then fails (reqs s) r else [])\<rparr>"
  have "write_loop (Suc fuel) env (Some r) s = Inr ?s"
    using s1(1,11) by (auto simp: invoke_opt_inert [OF inert] fails_def)
  then show ?thesis using s1 by (intro exI [of _ ?s]) (auto simp: frame_def the_fd_def completes_def)
qed

subsection \<open>The write loop\<close>

text \<open>
  The requests whose bytes go out in order whatever the kernel does: those with one extent, as
  \<open>write(const char*, size_t, \<dots>)\<close> makes them.
\<close>

definition orderly :: "'w kernel \<Rightarrow> (rid \<rightharpoonup> WriteRequest) \<Rightarrow> rid list \<Rightarrow> bool" where
  "orderly k h rs \<longleftrightarrow> (\<forall>r \<in> set rs. takes_all k \<or> length (extents (wr_buffer (the (h r)))) \<le> 1)"

lemma length_peek_loop: "length (peek_loop n tot xs) \<le> length xs"
proof (induction xs arbitrary: tot)
  case (Cons x xs)
  from Cons.IH [of "tot + readable x"] show ?case by (auto simp: Let_def)
qed simp

lemma length_drain_loop: "length (snd (drain_loop n xs)) \<le> length xs"
  by (induction xs arbitrary: n) (auto simp: drain_loop_Cons le_SucI)

lemma length_drain: "length (extents (Buffer_drain n b)) \<le> length (extents b)"
  using length_drain_loop [of n "extents b"] by (simp add: Buffer_drain_def split_def Let_def)

lemma orderly_in_order: "orderly k h (r # rs) \<Longrightarrow> in_order k (req_extents h r)"
  using length_peek_loop [of "- 1" 0 "extents (wr_buffer (the (h r)))"]
  by (auto simp: orderly_def in_order_def req_extents_def Buffer_peek_extents_def)

lemma queued_cong: "(\<And>r. r \<in> set rs \<Longrightarrow> h' r = h r) \<Longrightarrow> queued h' rs = queued h rs"
  by (induction rs) (auto simp: req_bytes_def)

definition errors :: "(rid \<rightharpoonup> WriteRequest) \<Rightarrow> rid list \<Rightarrow> cb_event list set" where
  "errors h rs = (case rs of [] \<Rightarrow> {[]} | r # _ \<Rightarrow> {[], fails h r})"

text \<open>
  What a run of the loop over the queue \<open>rs\<close> has done when it ends: the requests \<open>fin\<close> have gone
  out and been completed, \<open>rest\<close> is still queued, and the bytes written followed by those still
  queued are the bytes written before followed by those queued before.
\<close>

definition wrote :: "('l, 'w) stream_env \<Rightarrow> (int \<Rightarrow> 'w \<Rightarrow> byte array) \<Rightarrow> ('l, 'w) stream \<Rightarrow> rid list \<Rightarrow>
    ('l, 'w) stream \<Rightarrow> rid list \<Rightarrow> rid list \<Rightarrow> cb_event list \<Rightarrow> bool" where
  "wrote env written s rs s' fin rest evs \<longleftrightarrow>
    rs = fin @ rest \<and>
    stream_ok env s' rest \<and> orderly (env_kernel env) (reqs s') rest \<and>
    written (the_fd s) (os s') @ queued (reqs s') rest = written (the_fd s) (os s) @ queued (reqs s) rs \<and>
    frame s s' \<and> (\<forall>r. r \<notin> set rs \<longrightarrow> reqs s' r = reqs s r) \<and>
    (\<forall>r \<in> set fin. reqs s' r = None) \<and> (rest \<noteq> [] \<longrightarrow> req_tail s' = req_tail s) \<and>
    (\<forall>r \<in> set rest. completes (reqs s') r = completes (reqs s) r) \<and>
    events s' = events s @ concat (map (completes (reqs s)) fin) @ evs \<and> evs \<in> errors (reqs s) rest \<and>
    the_watched env s' = (if fin \<noteq> [] \<and> rest = [] then removeWrite (the_watched env s) else the_watched env s) \<and>
    (takes_all (env_kernel env) \<longrightarrow> rest = [])"

lemma wrote_Nil: "stream_ok env s [] \<Longrightarrow> wrote env written s [] s [] [] []"
  by (simp add: wrote_def errors_def orderly_def)

text \<open>The run ends with the first request, of which the kernel took the first \<open>t\<close> bytes only.\<close>

lemma wrote_stop:
  assumes ord: "orderly (env_kernel env) (reqs s) (r # rs)" and ok: "stream_ok env s (r # rs)"
    and pw: "posix_write (env_kernel env) written" and bf: "b \<or> f"
    and e: "write_extents (env_kernel env) (the_fd s) (req_extents (reqs s) r) 0 False (os s) = (n, b, f, os s1)"
      "written (the_fd s) (os s1) = written (the_fd s) (os s) @ take t (req_bytes (reqs s) r)"
    and s1: "stream_ok env s1 (r # rs)" "sbase s1 = sbase s" "frame s s1" "req_tail s1 = req_tail s"
      "req_bytes (reqs s1) r = drop t (req_bytes (reqs s) r)"
      "wr_buffer (the (reqs s1 r)) = Buffer_drain n (wr_buffer (the (reqs s r)))"
      "wr_callback (the (reqs s1 r)) = wr_callback (the (reqs s r))"
      "\<And>r'. r' \<noteq> r \<Longrightarrow> reqs s1 r' = reqs s r'" "events s1 = events s"
  shows "wrote env written s (r # rs) s1 [] (r # rs) []"
proof -
  have "r \<notin> set rs" using ok by (simp add: stream_ok_def)
  then have eq: "reqs s1 r' = reqs s r'" if "r' \<in> set rs" for r' using that by (intro s1(8)) auto
  have "length (extents (wr_buffer (the (reqs s1 r)))) \<le> length (extents (wr_buffer (the (reqs s r))))"
    unfolding s1(6) by (rule length_drain)
  then have "orderly (env_kernel env) (reqs s1) (r # rs)" using ord eq by (auto simp: orderly_def)
  moreover have "written (the_fd s) (os s1) @ queued (reqs s1) (r # rs) =
      written (the_fd s) (os s) @ queued (reqs s) (r # rs)"
    using e(2) s1(5) queued_cong [of rs "reqs s1" "reqs s", OF eq] by simp
  moreover have "the_watched env s1 = the_watched env s" using s1(2,3) by (simp add: frame_def the_watched_def)
  moreover have "\<forall>r' \<in> set (r # rs). completes (reqs s1) r' = completes (reqs s) r'"
    using s1(7) eq by (auto simp: completes_def)
  moreover have "\<forall>r'. r' \<notin> set (r # rs) \<longrightarrow> reqs s1 r' = reqs s r'" using s1(8) by auto
  moreover have "\<not> takes_all (env_kernel env)"
  proof
    assume "takes_all (env_kernel env)"
    moreover have "req_good (reqs s) r" using ok by (simp add: stream_ok_def)
    ultimately show False
      using write_extents_all [OF _ pw req_extents_ok(2), of "reqs s" r "the_fd s" 0 False "os s"] e(1) bf by auto
  qed
  ultimately show ?thesis using s1(1,3,4,9) by (simp add: wrote_def errors_def)
qed

text \<open>The first request has gone out, and the run goes on from \<open>s1\<close>.\<close>

lemma wrote_Cons:
  assumes ok: "stream_ok env s (r # rs)"
    and s1: "written (the_fd s) (os s1) = written (the_fd s) (os s) @ req_bytes (reqs s) r" "frame s s1"
      "reqs s1 = (reqs s)(r := None)" "rs \<noteq> [] \<longrightarrow> req_tail s1 = req_tail s"
      "events s1 = events s @ completes (reqs s) r"
      "the_watched env s1 = (if rs = [] then removeWrite (the_watched env s) else the_watched env s)"
    and w: "wrote env written s1 rs s' fin rest evs"
  shows "wrote env written s (r # rs) s' (r # fin) rest evs"
proof -
  note w' = w [unfolded wrote_def]
  have rn: "r \<notin> set rs" using ok by (simp add: stream_ok_def)
  then have eq: "reqs s1 r' = reqs s r'" if "r' \<in> set rs" for r' using that s1(3) by auto
  have q: "queued (reqs s1) rs = queued (reqs s) rs" by (rule queued_cong) (rule eq)
  have c: "concat (map (completes (reqs s1)) fin) = concat (map (completes (reqs s)) fin)"
    using eq w' by (intro arg_cong [of _ _ concat] map_cong) (simp_all add: completes_def)
  show ?thesis
    unfolding wrote_def
  proof (intro conjI)
    show "written (the_fd s) (os s') @ queued (reqs s') rest = written (the_fd s) (os s) @ queued (reqs s) (r # rs)"
      using w' s1(1) frame_fd [OF s1(2)] q by simp
    show "frame s s'" using frame_trans [OF s1(2)] w' by blast
    show "\<forall>r' \<in> set rest. completes (reqs s') r' = completes (reqs s) r'" using w' eq by (simp add: completes_def)
    show "events s' = events s @ concat (map (completes (reqs s)) (r # fin)) @ evs" using w' s1(5) c by simp
    show "evs \<in> errors (reqs s) rest" using w' eq by (auto simp: errors_def fails_def split: list.splits)
    show "\<forall>r' \<in> set (r # fin). reqs s' r' = None" using w' rn s1(3) by simp
    show "\<forall>r'. r' \<notin> set (r # rs) \<longrightarrow> reqs s' r' = reqs s r'" using w' s1(3) by simp
    show "the_watched env s' =
        (if r # fin \<noteq> [] \<and> rest = [] then removeWrite (the_watched env s) else the_watched env s)"
      using w' s1(6) by (auto split: if_splits)
    show "rest \<noteq> [] \<longrightarrow> req_tail s' = req_tail s" using w' s1(4) by auto
  qed (use w' in simp_all)
qed

text \<open>
  A run of the loop with quiet completion callbacks: it ends in \<open>s1\<close>, and if a \<open>write\<close> failed the
  error callback of the first request left is called there.
\<close>

lemma write_loop_runs:
  assumes le: "libevent_ok (env_le env)" and pw: "posix_write (env_kernel env) written"
    and "stream_ok env s rs" "orderly (env_kernel env) (reqs s) rs" "length rs \<le> fuel" "J (os s)" "quiet env (the_fd s) J"
  shows "\<exists>s1 fin rest failed. write_loop fuel env (req_head s) s =
      (if failed then invoke_opt env (\<lambda>cb. Write_Error cb ''Write failed'') (wr_callback (the (reqs s1 (hd rest)))) s1
       else Inr s1) \<and>
    wrote env written s rs s1 fin rest [] \<and> J (os s1) \<and> (failed \<longrightarrow> rest \<noteq> [] \<and> \<not> never_fails (env_kernel env)) \<and>
    (broken (env_kernel env) \<longrightarrow> rs \<noteq> [] \<longrightarrow> failed)"
  using assms(3-)
proof (induction rs arbitrary: s fuel)
  case Nil
  have "req_head s = None" using Nil by (simp add: stream_ok_def)
  then show ?case using Nil wrote_Nil [OF Nil(1)] by (intro exI [of _ s] exI [of _ "[]"] exI [of _ False]) simp
next
  case (Cons r rs)
  then obtain k where fuel: "fuel = Suc k" "length rs \<le> k" by (cases fuel) auto
  have head: "req_head s = Some r" using Cons.prems(1) by (simp add: stream_ok_def)
  obtain t b f w where e:
    "write_extents (env_kernel env) (the_fd s) (req_extents (reqs s) r) 0 False (os s) = (of_nat t, b, f, w)"
    "written (the_fd s) w = written (the_fd s) (os s) @ take t (req_bytes (reqs s) r)"
    "t \<le> length (req_bytes (reqs s) r)" "(b \<or> f) = (t < length (req_bytes (reqs s) r))"
    "buf_inv (Buffer_drain (of_nat t) (wr_buffer (the (reqs s r))))"
    "contents (Buffer_drain (of_nat t) (wr_buffer (the (reqs s r)))) = drop t (req_bytes (reqs s) r)"
    by (rule head_written [OF Cons.prems(1) pw orderly_in_order [OF Cons.prems(2)]])
  have J: "J w" by (rule quiet_extents [OF Cons.prems(5,4) e(1)])
  have "req_good (reqs s) r" using Cons.prems(1) by (simp add: stream_ok_def)
  then have bf: "broken (env_kernel env) \<longrightarrow> f"
    using write_extents_broken [of "env_kernel env" "req_extents (reqs s) r" "the_fd s" 0 False "os s"] e(1)
      req_extents_ok(3) by auto
  show ?case
  proof (cases "b \<or> f")
    case False
    with e(1) have "write_extents (env_kernel env) (the_fd s) (req_extents (reqs s) r) 0 False (os s) =
      (of_nat t, False, False, w)" by simp
    from write_turn_done [OF le Cons.prems(1,5) J this, of k] obtain s1 where
      s1: "write_loop (Suc k) env (Some r) s = write_loop k env (req_head s1) s1" "stream_ok env s1 rs"
      "os s1 = w" "frame s s1" "reqs s1 = (reqs s)(r := None)" "rs \<noteq> [] \<longrightarrow> req_tail s1 = req_tail s"
      "events s1 = events s @ completes (reqs s) r"
      "the_watched env s1 = (if rs = [] then removeWrite (the_watched env s) else the_watched env s)" by blast
    have "r \<notin> set rs" using Cons.prems(1) by (simp add: stream_ok_def)
    then have "orderly (env_kernel env) (reqs s1) rs" using Cons.prems(2) s1(5) by (auto simp: orderly_def)
    moreover have "quiet env (the_fd s1) J" using Cons.prems(5) frame_fd [OF s1(4)] by simp
    ultimately obtain s2 fin rest failed where ih:
      "write_loop k env (req_head s1) s1 =
        (if failed then invoke_opt env (\<lambda>cb. Write_Error cb ''Write failed'') (wr_callback (the (reqs s2 (hd rest)))) s2
         else Inr s2)"
      "wrote env written s1 rs s2 fin rest []" "J (os s2)" "failed \<longrightarrow> rest \<noteq> [] \<and> \<not> never_fails (env_kernel env)"
      using Cons.IH [OF s1(2) _ fuel(2)] J s1(3) by blast
    have "written (the_fd s) (os s1) = written (the_fd s) (os s) @ req_bytes (reqs s) r"
      using e(2-4) False s1(3) by simp
    from wrote_Cons [OF Cons.prems(1) this s1(4-8) ih(2)] ih(1,3,4) s1(1) head fuel(1) bf False show ?thesis
      by - (rule exI [of _ s2], rule exI [of _ "r # fin"], rule exI [of _ rest], rule exI [of _ failed],
        simp del: write_loop.simps)
  next
    case True
    have ne: "drop t (req_bytes (reqs s) r) \<noteq> []" using True e(4) by simp
    from write_turn_keeps [OF Cons.prems(1) True e(1,5,6) ne, of k] obtain s1 where
      s1: "write_loop (Suc k) env (Some r) s = (if f then invoke_opt env (\<lambda>cb. Write_Error cb ''Write failed'')
        (wr_callback (the (reqs s r))) s1 else Inr s1)" "stream_ok env s1 (r # rs)" "os s1 = w"
      "sbase s1 = sbase s" "frame s s1" "req_bytes (reqs s1) r = drop t (req_bytes (reqs s) r)"
      "req_tail s1 = req_tail s"
      "wr_buffer (the (reqs s1 r)) = Buffer_drain (of_nat t) (wr_buffer (the (reqs s r)))"
      "wr_callback (the (reqs s1 r)) = wr_callback (the (reqs s r))"
      "\<And>r'. r' \<noteq> r \<Longrightarrow> reqs s1 r' = reqs s r'" "events s1 = events s" by blast
    have "wrote env written s (r # rs) s1 [] (r # rs) []"
      using e(1,2) by (intro wrote_stop [OF Cons.prems(2,1) pw True _ _ s1(2,4,5,7,6,8,9,10,11)]) (simp_all add: s1(3))
    then show ?thesis using s1(1,3,9) head fuel(1) J never_fails_extents [OF _ e(1)] bf
      by (intro exI [of _ s1] exI [of _ "[]"] exI [of _ "r # rs"] exI [of _ f]) (auto simp del: write_loop.simps)
  qed
qed

lemma events_simps [simp]:
  "the_fd (s\<lparr>events := e\<rparr>) = the_fd s" "the_watched env (s\<lparr>events := e\<rparr>) = the_watched env s"
  "frame s (s1\<lparr>events := e\<rparr>) = frame s s1"
  by (simp_all add: the_fd_def the_watched_def frame_def)

lemma wrote_events:
  assumes "wrote env written s rs s1 fin rest []" "evs \<in> errors (reqs s) rest"
  shows "wrote env written s rs (s1\<lparr>events := events s1 @ evs\<rparr>) fin rest evs"
  using assms by (simp add: wrote_def)

lemma write_loop_ok:
  assumes le: "libevent_ok (env_le env)" and inert: "inert env" and pw: "posix_write (env_kernel env) written"
    and ok: "stream_ok env s rs" "orderly (env_kernel env) (reqs s) rs" "length rs \<le> fuel"
  shows "\<exists>s' fin rest evs. write_loop fuel env (req_head s) s = Inr s' \<and> wrote env written s rs s' fin rest evs"
proof -
  from write_loop_runs [OF le pw ok _ inert_quiet [OF inert]] obtain s1 fin rest failed where r:
    "write_loop fuel env (req_head s) s =
      (if failed then invoke_opt env (\<lambda>cb. Write_Error cb ''Write failed'') (wr_callback (the (reqs s1 (hd rest)))) s1
       else Inr s1)"
    "wrote env written s rs s1 fin rest []" "failed \<longrightarrow> rest \<noteq> []" by blast
  show ?thesis
  proof (cases failed)
    case True
    then obtain r rest' where rest: "rest = r # rest'" using r(3) by (cases rest) auto
    then have "completes (reqs s1) r = completes (reqs s) r" using r(2) by (simp add: wrote_def)
    then have "fails (reqs s1) r = fails (reqs s) r" by (auto simp: completes_def fails_def split: option.splits)
    then have "fails (reqs s1) r \<in> errors (reqs s) rest" by (simp add: errors_def rest)
    from wrote_events [OF r(2) this] r(1) True rest show ?thesis
      by (auto simp: invoke_opt_inert [OF inert] fails_def)
  qed (use r(1,2) in auto)
qed

end
