(* ===== verification/Stream_Queue.thy ===== *)
theory Stream_Queue
  imports Stream_Correct
begin

text \<open>
  Enqueueing write requests and the writable events that send them: what \<open>write\<close> does to the queue
  for every position of the tail pointer, the life of a request from \<open>write\<close> to its completion
  callback, and the properties of the write side of \<open>src/src/stream.cc\<close>.
\<close>

subsection \<open>New requests\<close>

text \<open>The allocator grants the space for the bytes, and there is at least one.\<close>

definition can_write :: "('l, 'w) stream_env \<Rightarrow> byte list \<Rightarrow> bool" where
  "can_write env bs \<longleftrightarrow> bs \<noteq> [] \<and> length bs < 2 ^ 64 \<and>
     alloc_bounded (env_alloc env) \<and> env_alloc env (of_nat (length bs))"

text \<open>A request that is not linked yet, with the bytes \<open>bs\<close> in one extent.\<close>

definition carries :: "WriteRequest \<Rightarrow> byte list \<Rightarrow> cbid option \<Rightarrow> bool" where
  "carries q bs cb \<longleftrightarrow> buf_inv (wr_buffer q) \<and> contents (wr_buffer q) = map Some bs \<and> bs \<noteq> [] \<and>
     length (extents (wr_buffer q)) = 1 \<and> wr_callback q = cb \<and> wr_next q = None"

lemma new_buffer:
  assumes "can_write env bs"
  shows "\<exists>b. Buffer_append (env_alloc env) bs (of_nat (length bs)) BufferImpl_init = Inr b \<and>
    buf_inv b \<and> contents b = map Some bs \<and> length (extents b) = 1"
proof -
  have len: "unat (of_nat (length bs) :: size_t) = length bs"
    using assms by (intro unat_of_nat_size) (simp add: can_write_def)
  have al: "env_alloc env (of_nat (length bs))" "alloc_bounded (env_alloc env)"
    using assms by (simp_all add: can_write_def)
  obtain e where e: "append_loop (env_alloc env) bs (of_nat (length bs)) (of_nat (length bs)) [] = Inr ([] @ [e])"
    using append_loop_ok [of "[]" "env_alloc env" "of_nat (length bs)" bs] al len by auto
  let ?b = "BufferImpl_init\<lparr>extents := [e], buf_size := buf_size BufferImpl_init + of_nat (length bs)\<rparr>"
  have ap: "Buffer_append (env_alloc env) bs (of_nat (length bs)) BufferImpl_init = Inr ?b"
    using e by (simp add: Buffer_append_def BufferImpl_init_def)
  obtain b' where "Buffer_append (env_alloc env) bs (of_nat (length bs)) BufferImpl_init = Inr b'" "buf_inv b'"
    "contents b' = map Some bs"
    using append_string_ok [OF init_ok(1) al(2,1)] assms by (auto simp: Buffer_append_string_def can_write_def)
  with ap show ?thesis by (intro exI [of _ ?b]) auto
qed

lemma new_request:
  assumes "can_write env bs"
  shows "\<exists>q. WriteRequest_bytes env bs (of_nat (length bs)) cb = Inr q \<and> carries q bs cb"
  using new_buffer [OF assms] assms by (auto simp: WriteRequest_bytes_def carries_def can_write_def)

subsection \<open>Enqueueing\<close>

lemma linked_extend:
  assumes "linked h p (pre @ t # post)" "distinct (pre @ t # post)" "a \<notin> set (pre @ t # post)"
  shows "linked (h(a \<mapsto> x, t \<mapsto> (the (h t))\<lparr>wr_next := Some a\<rparr>)) p (pre @ [t, a]) = (wr_next x = None)"
  using assms
proof (induction pre arbitrary: p)
  case Nil
  then have "a \<noteq> t" by auto
  with Nil show ?case by (auto simp: linked_Cons_iff)
next
  case (Cons r pre)
  then obtain q where q: "p = Some r" "h r = Some q" "linked h (wr_next q) (pre @ t # post)"
    by (auto split: option.splits)
  have "r \<noteq> a" "r \<noteq> t" using Cons.prems by auto
  with q Cons.IH [OF q(3)] Cons.prems show ?case by simp
qed

text \<open>What \<open>write\<close> has done when it returns: \<open>rs'\<close> is the new queue.\<close>

definition enqueued :: "('l, 'w) stream_env \<Rightarrow> ('l, 'w) stream \<Rightarrow> rid list \<Rightarrow> rid \<Rightarrow> byte list \<Rightarrow> cbid option \<Rightarrow>
    ('l, 'w) stream \<Rightarrow> bool" where
  "enqueued env s rs a bs cb s' \<longleftrightarrow> stream_ok env s' (rs @ [a]) \<and>
     (orderly (env_kernel env) (reqs s) rs \<longrightarrow> orderly (env_kernel env) (reqs s') (rs @ [a])) \<and>
     queued (reqs s') (rs @ [a]) = queued (reqs s) rs @ map Some bs \<and>
     (\<forall>r \<in> set rs. completes (reqs s') r = completes (reqs s) r \<and> req_bytes (reqs s') r = req_bytes (reqs s) r) \<and>
     completes (reqs s') a = (case cb of None \<Rightarrow> [] | Some c \<Rightarrow> [Write_Complete c]) \<and>
     os s' = os s \<and> frame s s' \<and> events s' = events s \<and>
     req_tail s' = (if rs = [] then Some a else req_tail s) \<and>
     (\<forall>r. r \<noteq> a \<longrightarrow> reqs s r = None \<longrightarrow> reqs s' r = None) \<and>
     the_watched env s' = ensureWrite (the_watched env s)"

lemma queued_append [simp]: "queued h (xs @ ys) = queued h xs @ queued h ys"
  by (simp add: queued_def)

lemma enqueue_registers:
  assumes le: "libevent_ok (env_le env)" and "alive s" "reg_inv (env_le env) (sbase s)"
    "may_register (env_self env) (sbase s) (sock s)"
    and s1: "Requests_append a (s\<lparr>reqs := (reqs s)(a \<mapsto> req)\<rparr>) = Inr s1"
    "sbase s1 = sbase s" "sock s1 = sock s" "alive s1"
  shows "\<exists>b. enqueue env a req s = Inr (s1\<lparr>sbase := b\<rparr>) \<and> reg_inv (env_le env) b \<and>
    may_register (env_self env) b (sock s) \<and> the_watched env (s1\<lparr>sbase := b\<rparr>) = ensureWrite (the_watched env s) \<and>
    the_fd (s1\<lparr>sbase := b\<rparr>) = the_fd s"
proof -
  have "sock_watched env s1 = Inr (the_watched env s)"
    using sock_watched_ok [of s1 "env_self env" env] assms by (simp add: the_watched_def)
  moreover have "the_fd s1 = the_fd s" using assms by (simp add: the_fd_def)
  ultimately show ?thesis
    using sock_register_ok [OF le, of s1 "ensureWrite (the_watched env s)"] assms by (auto simp: enqueue_def)
qed

lemma enqueue_empty:
  assumes le: "libevent_ok (env_le env)" and ok: "stream_ok env s []" and q: "carries q bs cb"
  shows "\<exists>s'. enqueue env a q s = Inr s' \<and> enqueued env s [] a bs cb s'"
proof -
  let ?s = "s\<lparr>reqs := (reqs s)(a \<mapsto> q), req_head := Some a, req_tail := Some a\<rparr>"
  have st: "alive s" "req_head s = None" "req_tail s = None" "reg_inv (env_le env) (sbase s)"
    "may_register (env_self env) (sbase s) (sock s)" using ok by (simp_all add: stream_ok_def)
  have "Requests_append a (s\<lparr>reqs := (reqs s)(a \<mapsto> q)\<rparr>) = Inr ?s"
    using st by (simp add: Requests_append_def)
  from enqueue_registers [OF le st(1,4,5) this] st(1) obtain b' where
    b': "enqueue env a q s = Inr (?s\<lparr>sbase := b'\<rparr>)" "reg_inv (env_le env) b'"
    "may_register (env_self env) b' (sock s)"
    "the_watched env (?s\<lparr>sbase := b'\<rparr>) = ensureWrite (the_watched env s)"
    "the_fd (?s\<lparr>sbase := b'\<rparr>) = the_fd s" by auto
  have "enqueued env s [] a bs cb (?s\<lparr>sbase := b'\<rparr>)"
    using b' st q
    by (auto simp: enqueued_def stream_ok_def req_good_def req_bytes_def orderly_def completes_def frame_def
      carries_def)
  with b'(1) show ?thesis by blast
qed

text \<open>The heap once \<open>a\<close> is linked behind \<open>t\<close>.\<close>

lemma chained:
  assumes lk: "linked h p (pre @ t # post)" "distinct (pre @ t # post)" and fresh: "h a = None" and q: "carries q bs cb"
    and good: "\<forall>r \<in> set (pre @ t # post). req_good h r" and h': "h' = h(a \<mapsto> q, t \<mapsto> (the (h t))\<lparr>wr_next := Some a\<rparr>)"
  shows "linked h' p ((pre @ [t]) @ [a])" "distinct ((pre @ [t]) @ [a])" "\<forall>r \<in> set ((pre @ [t]) @ [a]). req_good h' r"
    "\<forall>r \<in> set (pre @ [t]). completes h' r = completes h r \<and> req_bytes h' r = req_bytes h r"
    "completes h' a = (case cb of None \<Rightarrow> [] | Some c \<Rightarrow> [Write_Complete c])"
    "queued h' ((pre @ [t]) @ [a]) = queued h (pre @ [t]) @ map Some bs"
    "orderly k h (pre @ [t]) \<Longrightarrow> orderly k h' ((pre @ [t]) @ [a])"
proof -
  have na: "a \<notin> set (pre @ t # post)" using linked_Some [OF lk(1), of a] fresh by auto
  obtain qt where qt: "h t = Some qt" using linked_Some [OF lk(1), of t] by auto
  show "linked h' p ((pre @ [t]) @ [a])" using linked_extend [OF lk na, of q] q by (simp add: h' carries_def)
  show "distinct ((pre @ [t]) @ [a])" using lk(2) na by auto
  have new: "h' a = Some q" using na by (simp add: h')
  have same: "wr_buffer (the (h' r)) = wr_buffer (the (h r))" "completes h' r = completes h r"
    "req_bytes h' r = req_bytes h r" if "r \<in> set (pre @ [t])" for r
    using that qt na by (auto simp: h' completes_def req_bytes_def)
  then show "\<forall>r \<in> set (pre @ [t]). completes h' r = completes h r \<and> req_bytes h' r = req_bytes h r" by blast
  show "completes h' a = (case cb of None \<Rightarrow> [] | Some c \<Rightarrow> [Write_Complete c])"
    using new q by (simp add: completes_def carries_def)
  have nb: "req_bytes h' a = map Some bs" using new q by (simp add: req_bytes_def carries_def)
  have "queued h' (pre @ [t]) = queued h (pre @ [t])"
    unfolding queued_def by (intro arg_cong [of _ _ concat] map_cong) (simp_all only: same(3))
  with nb show "queued h' ((pre @ [t]) @ [a]) = queued h (pre @ [t]) @ map Some bs" by simp
  have "req_good h' r" if "r \<in> set (pre @ [t])" for r
  proof -
    have "req_good h r" using good that by auto
    then show ?thesis using same [OF that] by (simp add: req_good_def)
  qed
  moreover have "req_good h' a" using new nb q by (auto simp: req_good_def carries_def)
  ultimately show "\<forall>r \<in> set ((pre @ [t]) @ [a]). req_good h' r" by auto
  show "orderly k h' ((pre @ [t]) @ [a])" if "orderly k h (pre @ [t])"
    using that same(1) new q unfolding orderly_def carries_def by (metis Un_iff empty_iff insert_iff le_refl
      list.set option.sel set_append)
qed

text \<open>The new request goes behind the one \<open>tail\<close> points to; whatever was behind it is dropped.\<close>

lemma enqueue_at_tail:
  assumes le: "libevent_ok (env_le env)" and ok: "stream_ok env s (pre @ t # post)" and q: "carries q bs cb"
    and tail: "req_tail s = Some t" and fresh: "reqs s a = None"
  shows "\<exists>s'. enqueue env a q s = Inr s' \<and> enqueued env s (pre @ [t]) a bs cb s'"
proof -
  have st: "alive s" "linked (reqs s) (req_head s) (pre @ t # post)" "distinct (pre @ t # post)"
    "\<forall>r \<in> set (pre @ t # post). req_good (reqs s) r"
    "reg_inv (env_le env) (sbase s)" "may_register (env_self env) (sbase s) (sock s)"
    using ok by (simp_all add: stream_ok_def)
  obtain qt where qt: "reqs s t = Some qt" using linked_Some [OF st(2), of t] by auto
  obtain h0 where hd: "req_head s = Some h0" using st(2) by (cases pre) auto
  define h where "h = (reqs s)(a \<mapsto> q, t \<mapsto> (the (reqs s t))\<lparr>wr_next := Some a\<rparr>)"
  let ?s = "s\<lparr>reqs := h\<rparr>"
  note ch = chained [OF st(2,3) fresh q st(4) h_def]
  have "Requests_append a (s\<lparr>reqs := (reqs s)(a \<mapsto> q)\<rparr>) = Inr ?s"
    using hd tail qt fresh by (auto simp: Requests_append_def lookup_req_def h_def)
  from enqueue_registers [OF le st(1,5,6) this] st(1) obtain b' where
    b': "enqueue env a q s = Inr (?s\<lparr>sbase := b'\<rparr>)" "reg_inv (env_le env) b'"
    "may_register (env_self env) b' (sock s)"
    "the_watched env (?s\<lparr>sbase := b'\<rparr>) = ensureWrite (the_watched env s)"
    "the_fd (?s\<lparr>sbase := b'\<rparr>) = the_fd s" by auto
  have "stream_ok env (?s\<lparr>sbase := b'\<rparr>) ((pre @ [t]) @ [a])"
    using st(1) ch(1-3) b'(2,3) by (simp add: stream_ok_def)
  then have "enqueued env s (pre @ [t]) a bs cb (?s\<lparr>sbase := b'\<rparr>)"
    unfolding enqueued_def using ch(4-7) b'(4,5) qt tail by (auto simp: frame_def h_def)
  with b'(1) show ?thesis by blast
qed

lemma write_empty:
  assumes "libevent_ok (env_le env)" "stream_ok env s []" "can_write env bs"
  shows "\<exists>s'. Stream_write env a bs (of_nat (length bs)) cb s = Inr s' \<and> enqueued env s [] a bs cb s'"
  using new_request [OF assms(3), of cb] enqueue_empty [OF assms(1,2)] by (auto simp: Stream_write_def)

lemma write_at_tail:
  assumes "libevent_ok (env_le env)" "stream_ok env s (pre @ t # post)" "can_write env bs"
    "req_tail s = Some t" "reqs s a = None"
  shows "\<exists>s'. Stream_write env a bs (of_nat (length bs)) cb s = Inr s' \<and> enqueued env s (pre @ [t]) a bs cb s'"
  using new_request [OF assms(3), of cb] enqueue_at_tail [OF assms(1,2) _ assms(4,5)] by (auto simp: Stream_write_def)

subsection \<open>Writable events\<close>

fun writables :: "nat \<Rightarrow> nat \<Rightarrow> ('l, 'w) stream_env \<Rightarrow> ('l, 'w) stream \<Rightarrow> fault + ('l, 'w) stream" where
  "writables 0 fuel env s = Inr s"
| "writables (Suc n) fuel env s = bindE (SockHandler_ready fuel env WRITE s) (writables n fuel env)"

lemma ready_write:
  assumes "libevent_ok (env_le env)" "inert env" "posix_write (env_kernel env) written"
    "stream_ok env s rs" "orderly (env_kernel env) (reqs s) rs" "length rs \<le> fuel" "connectCallback s = None"
  shows "\<exists>s' fin rest evs. SockHandler_ready fuel env WRITE s = Inr s' \<and> wrote env written s rs s' fin rest evs"
proof -
  have "SockHandler_ready fuel env WRITE s = write_loop fuel env (req_head s) s"
    using assms(4,7) by (simp add: SockHandler_ready_def writeHelper_def deref_stream_def stream_ok_def
      bindE_def split: sum.split)
  then show ?thesis using write_loop_ok [OF assms(1-6)] by simp
qed

text \<open>
  A request on its way: it is queued alone, or it has been completed and the queue is empty. \<open>old\<close>
  is what had been written, \<open>bs\<close> the bytes of the request, \<open>n\<close> how often its callback had been
  told of a completion.
\<close>

definition completions :: "cbid \<Rightarrow> ('l, 'w) stream \<Rightarrow> nat" where
  "completions cb s = length (filter (\<lambda>e. e = Write_Complete cb) (events s))"

definition on_its_way :: "('l, 'w) stream_env \<Rightarrow> (int \<Rightarrow> 'w \<Rightarrow> byte array) \<Rightarrow> rid \<Rightarrow> cbid \<Rightarrow> byte array \<Rightarrow> nat \<Rightarrow>
    ('l, 'w) stream \<Rightarrow> byte array \<Rightarrow> bool" where
  "on_its_way env written a cb out n s rest \<longleftrightarrow> connectCallback s = None \<and> written (the_fd s) (os s) @ rest = out \<and>
     (stream_ok env s [a] \<and> orderly (env_kernel env) (reqs s) [a] \<and> rest = req_bytes (reqs s) a \<and>
        completes (reqs s) a = [Write_Complete cb] \<and> completions cb s = n \<and> isWrite (the_watched env s) \<or>
      stream_ok env s [] \<and> rest = [] \<and> completions cb s = n + 1 \<and> \<not> isWrite (the_watched env s))"

lemma on_its_way_facts:
  assumes "on_its_way env written a cb out n s rest"
  shows "written (the_fd s) (os s) @ rest = out" "completions cb s = n + (if rest = [] then 1 else 0)"
    "isWrite (the_watched env s) = (rest \<noteq> [])"
    "\<exists>rs. stream_ok env s rs \<and> rs = (if rest = [] then [] else [a]) \<and> queued (reqs s) rs = rest"
proof -
  have ne: "stream_ok env s [a] \<Longrightarrow> req_bytes (reqs s) a \<noteq> []" by (simp add: stream_ok_def req_good_def)
  show "written (the_fd s) (os s) @ rest = out" using assms by (simp add: on_its_way_def)
  show "completions cb s = n + (if rest = [] then 1 else 0)" using assms ne by (auto simp: on_its_way_def)
  show "isWrite (the_watched env s) = (rest \<noteq> [])" using assms ne by (auto simp: on_its_way_def)
  show "\<exists>rs. stream_ok env s rs \<and> rs = (if rest = [] then [] else [a]) \<and> queued (reqs s) rs = rest"
    using assms ne by (auto simp: on_its_way_def)
qed

lemma enqueued_facts:
  assumes "enqueued env s rs a bs cb s'"
  shows "stream_ok env s' (rs @ [a])" "queued (reqs s') (rs @ [a]) = queued (reqs s) rs @ map Some bs"
    "\<And>r. r \<in> set rs \<Longrightarrow> completes (reqs s') r = completes (reqs s) r"
    "completes (reqs s') a = (case cb of None \<Rightarrow> [] | Some c \<Rightarrow> [Write_Complete c])"
    "os s' = os s" "frame s s'" "events s' = events s"
    "req_tail s' = (if rs = [] then Some a else req_tail s)"
    "\<And>r. r \<noteq> a \<Longrightarrow> reqs s r = None \<Longrightarrow> reqs s' r = None"
    "the_watched env s' = ensureWrite (the_watched env s)"
    "orderly (env_kernel env) (reqs s) rs \<Longrightarrow> orderly (env_kernel env) (reqs s') (rs @ [a])"
    "connectCallback s' = connectCallback s" "the_fd s' = the_fd s"
    "\<And>r. r \<in> set rs \<Longrightarrow> req_bytes (reqs s') r = req_bytes (reqs s) r"
  using assms by (auto simp: enqueued_def frame_def)

lemma fails_no_completion: "evs \<in> errors h rs \<Longrightarrow> filter (\<lambda>e. e = Write_Complete cb) evs = []"
  by (auto simp: errors_def fails_def split: list.splits option.splits)

lemma on_its_way_step:
  assumes "libevent_ok (env_le env)" "inert env" "posix_write (env_kernel env) written"
    "on_its_way env written a cb out n s rest"
  shows "\<exists>s' rest'. SockHandler_ready 1 env WRITE s = Inr s' \<and> on_its_way env written a cb out n s' rest'"
proof (cases "rest = []")
  case True
  then have ok: "stream_ok env s []" "connectCallback s = None"
    using assms(4) by (auto simp: on_its_way_def stream_ok_def req_good_def)
  have "SockHandler_ready 1 env WRITE s = Inr s"
    using ok by (simp add: SockHandler_ready_def writeHelper_def deref_stream_def stream_ok_def)
  with assms(4) show ?thesis by blast
next
  case False
  then have s: "stream_ok env s [a]" "orderly (env_kernel env) (reqs s) [a]" "connectCallback s = None"
    "rest = req_bytes (reqs s) a" "completes (reqs s) a = [Write_Complete cb]" "completions cb s = n"
    "written (the_fd s) (os s) @ rest = out" "isWrite (the_watched env s)"
    using assms(4) by (auto simp: on_its_way_def)
  from ready_write [OF assms(1-3) s(1,2) _ s(3), of 1] obtain s' fin rst evs where
    w: "SockHandler_ready 1 env WRITE s = Inr s'" "wrote env written s [a] s' fin rst evs" by auto
  note w2 = w(2) [unfolded wrote_def]
  have ev: "filter (\<lambda>e. e = Write_Complete cb) evs = []" using w2 fails_no_completion by blast
  have fd: "the_fd s' = the_fd s" "connectCallback s' = None" using w2 s(3) by (simp_all add: frame_def)
  consider "fin = [a]" "rst = []" | "fin = []" "rst = [a]" using w2 by (auto simp: Cons_eq_append_conv)
  then have "on_its_way env written a cb out n s' (queued (reqs s') rst)"
    using w2 s fd ev by cases (auto simp: on_its_way_def completions_def)
  with w(1) show ?thesis by blast
qed

lemma on_its_way_all:
  assumes "libevent_ok (env_le env)" "inert env" "posix_write (env_kernel env) written"
    "on_its_way env written a cb out n s rest"
  shows "\<exists>s' rest'. writables k 1 env s = Inr s' \<and> on_its_way env written a cb out n s' rest'"
  using assms(4)
proof (induction k arbitrary: s rest)
  case (Suc k)
  from on_its_way_step [OF assms(1-3) Suc.prems] obtain s' rest' where
    "SockHandler_ready 1 env WRITE s = Inr s'" "on_its_way env written a cb out n s' rest'" by blast
  with Suc.IH [of s' rest'] show ?case by simp
qed auto

subsection \<open>A scripted kernel\<close>

text \<open>
  The state of the kernel is the script, the results that the next calls of \<open>write\<close> give (a result
  larger than the request means the whole request, and so does an empty script), and the bytes
  written so far. Reads find nothing to read.
\<close>

type_synonym script = "int list \<times> byte array"

definition script_write :: "int \<Rightarrow> byte array \<Rightarrow> size_t \<Rightarrow> script \<Rightarrow> int \<times> script" where
  "script_write fd buf n w = (let r = (case fst w of [] \<Rightarrow> int (unat n) | k # _ \<Rightarrow> min k (int (unat n)))
     in (r, (tl (fst w), snd w @ take (nat r) buf)))"

definition script_kernel :: "script kernel" where
  "script_kernel = \<lparr>k_write = script_write, k_read = (\<lambda>fd n w. (- 1, [], w)), k_close = (\<lambda>fd w. (0, w)),
     k_socket = (\<lambda>w. (7, w)), make_socket_nonblocking = (\<lambda>fd w. (0, w)),
     make_listen_socket_reuseable = (\<lambda>fd w. (0, w)), k_inet_pton = (\<lambda>_. 1),
     k_connect = (\<lambda>fd ip p w. (- 1, w)), k_bind = (\<lambda>fd ip p w. (0, w)),
     k_getsockname = (\<lambda>fd w. (0, 4242, w)), k_listen = (\<lambda>fd n w. (0, w)), k_accept = (\<lambda>fd w. (9, w)),
     socket_geterror = (\<lambda>fd w. 115), getsockopt_error = (\<lambda>fd w. (0, 111, w)),
     EINPROGRESS = 115, EAGAIN = 11, EWOULDBLOCK = 11\<rparr>"

definition script_env :: "(event \<Rightarrow> 16 word \<times> bool, script) stream_env" where
  "script_env = \<lparr>env_le = libevent_model, env_kernel = script_kernel, env_alloc = malloc_model,
     env_self = 5, env_invoke = (\<lambda>ev s. Inr s)\<rparr>"

definition script_stream :: "int list \<Rightarrow> (event \<Rightarrow> 16 word \<times> bool, script) stream" where
  "script_stream rs = StreamImpl_init base_model 1 8 (rs, [])"

lemma script_write_ok: "posix_write script_kernel (\<lambda>fd w. snd w)"
  by (auto simp: posix_write_def script_kernel_def script_write_def Let_def split: list.splits)

lemma script_env_ok [simp]:
  "libevent_ok (env_le script_env)" "inert script_env" "env_kernel script_env = script_kernel"
  by (simp_all add: script_env_def libevent_model_ok inert_def)

lemma script_can_write [simp]:
  "can_write script_env bs \<longleftrightarrow> bs \<noteq> [] \<and> length bs < 2 ^ 64 \<and> malloc_model (of_nat (length bs))"
  by (simp add: can_write_def script_env_def malloc_model_bounded)

lemma script_stream_ok:
  "stream_ok script_env (script_stream rs) []" "connectCallback (script_stream rs) = None"
  "the_fd (script_stream rs) = 8" "events (script_stream rs) = []" "os (script_stream rs) = (rs, [])"
  "the_watched script_env (script_stream rs) = NONE" "reqs (script_stream rs) = Map.empty"
  by (auto simp: stream_ok_def script_stream_def StreamImpl_init_def script_env_def reg_inv_def
    base_model_def libevent_model_def may_register_def inLoopThread_def usable_def EventHandler_new_def
    eh_defs the_fd_def the_watched_def watching_def)

text \<open>A kernel that takes everything.\<close>

definition taking_kernel :: "script kernel" where
  "taking_kernel = script_kernel\<lparr>k_write := (\<lambda>fd buf n w. (int (unat n), (fst w, snd w @ take (unat n) buf)))\<rparr>"

definition taking_env :: "(event \<Rightarrow> 16 word \<times> bool, script) stream_env" where
  "taking_env = script_env\<lparr>env_kernel := taking_kernel\<rparr>"

lemma taking_env_ok [simp]:
  "libevent_ok (env_le taking_env)" "inert taking_env" "env_kernel taking_env = taking_kernel"
  "posix_write taking_kernel (\<lambda>fd w. snd w)" "takes_all taking_kernel"
  "can_write taking_env bs \<longleftrightarrow> bs \<noteq> [] \<and> length bs < 2 ^ 64 \<and> malloc_model (of_nat (length bs))"
  "stream_ok taking_env s rs = stream_ok script_env s rs" "the_watched taking_env s = the_watched script_env s"
  using script_can_write [of bs]
  by (auto simp: taking_env_def taking_kernel_def script_env_def libevent_model_ok inert_def posix_write_def
    takes_all_def can_write_def malloc_model_bounded stream_ok_def the_watched_def)

text \<open>Evaluation of the stream on concrete states.\<close>

lemmas stream_eval = buf_eval Extent_bytes_def Stream_write_def WriteRequest_bytes_def enqueue_def
  Requests_append_def sock_watched_def sock_register_def registerHandler_def registerHandlerInternal_def
  lookup_handler_def lookup_req_def deref_stream_def inLoopThread_def EventHandler_base_def
  EventHandler_registered_def EventHandler_watched_def impl_watched_def what_defs toFlags_def
  fromFlags_def ALL_BITS_SET_def short_def libevent_model_def script_env_def script_kernel_def
  script_write_def script_stream_def StreamImpl_init_def EventHandler_new_def base_model_def
  SockHandler_ready_def writeHelper_def Buffer_peek_extents_def xwrite_def sock_fd_def
  consumeFront_def invoke_callback_def write_failed_def unregisterHandler_def

end
