(* ===== verification/Stream_Write.thy ===== *)
theory Stream_Write
  imports Stream_Queue
begin

text \<open>
  The properties of the write side of \<open>src/src/stream.cc\<close>: what reaches the descriptor and which
  callbacks run, for one request under every behaviour of the kernel, for a queue of requests, and
  in the situations in which the code loses, repeats or reorders bytes.
\<close>

lemma write_on_its_way:
  assumes "libevent_ok (env_le env)" "stream_ok env s []" "connectCallback s = None" "can_write env bs"
  shows "\<exists>s'. Stream_write env a bs (of_nat (length bs)) (Some cb) s = Inr s' \<and>
    on_its_way env written a cb (written (the_fd s) (os s) @ map Some bs) (completions cb s) s' (map Some bs)"
proof -
  from write_empty [OF assms(1,2,4), of a "Some cb"] obtain s' where
    s': "Stream_write env a bs (of_nat (length bs)) (Some cb) s = Inr s'" "enqueued env s [] a bs (Some cb) s'"
    by blast
  have "on_its_way env written a cb (written (the_fd s) (os s) @ map Some bs) (completions cb s) s' (map Some bs)"
    using s'(2) assms(3)
    by (auto simp: enqueued_def on_its_way_def frame_def completions_def orderly_def)
  with s'(1) show ?thesis by blast
qed

lemma write_second:
  assumes "libevent_ok (env_le env)" "stream_ok env s (r # rs)" "req_tail s = Some r" "can_write env bs"
    "reqs s a = None"
  shows "\<exists>s'. Stream_write env a bs (of_nat (length bs)) cb s = Inr s' \<and> enqueued env s [r] a bs cb s' \<and>
    req_tail s' = Some r"
  using write_at_tail [of env s "[]" r rs bs a cb] assms by (auto simp: enqueued_def)

subsection \<open>Properties\<close>

text \<open>C9: A write is delivered exactly once. With callbacks that leave the stream alone, after
  \<open>write\<close> of at least one byte on a stream with an empty queue and no connect under
  way, and any number of writable events during which the kernel takes any number of bytes at each
  of its calls or fails, nothing faults; the bytes that have gone into the descriptor are, in order,
  a prefix of the request and the rest is still queued, in that one request: what the queue of the
  stream holds are exactly the bytes that are missing; the completion callback has run exactly once
  when nothing is left and not at all before; and the stream stays registered for writing exactly as
  long as something is left.\<close>

theorem stream_write_delivers:
  assumes "libevent_ok (env_le env)" and "inert env" and "posix_write (env_kernel env) written"
    and "stream_ok env s []" and "connectCallback s = None" and "can_write env bs"
  shows "\<exists>s1 s2 rest rs. Stream_write env a bs (of_nat (length bs)) (Some cb) s = Inr s1 \<and>
    writables k 1 env s1 = Inr s2 \<and>
    written (the_fd s2) (os s2) @ rest = written (the_fd s) (os s) @ map Some bs \<and>
    stream_ok env s2 rs \<and> rs = (if rest = [] then [] else [a]) \<and> queued (reqs s2) rs = rest \<and>
    completions cb s2 = completions cb s + (if rest = [] then 1 else 0) \<and>
    isWrite (the_watched env s2) = (rest \<noteq> [])"
proof -
  from write_on_its_way [OF assms(1,4,5,6), of a cb written] obtain s1 where
    s1: "Stream_write env a bs (of_nat (length bs)) (Some cb) s = Inr s1"
    "on_its_way env written a cb (written (the_fd s) (os s) @ map Some bs) (completions cb s) s1 (map Some bs)"
    by blast
  from on_its_way_all [OF assms(1-3) s1(2), of k] obtain s2 rest where
    s2: "writables k 1 env s1 = Inr s2"
    "on_its_way env written a cb (written (the_fd s) (os s) @ map Some bs) (completions cb s) s2 rest" by blast
  show ?thesis using s1(1) s2(1) on_its_way_facts [OF s2(2)] by blast
qed

theorem stream_write_delivers_witness:
  "\<exists>s1 s2 rest rs. Stream_write script_env 0 ''hello'' 5 (Some 3) (script_stream [2, 0, - 1, 1]) = Inr s1 \<and>
    writables 4 1 script_env s1 = Inr s2 \<and> snd (os s2) @ rest = map Some ''hello'' \<and>
    stream_ok script_env s2 rs \<and> rs = (if rest = [] then [] else [0]) \<and> queued (reqs s2) rs = rest \<and>
    completions 3 s2 = (if rest = [] then 1 else 0) \<and> isWrite (the_watched script_env s2) = (rest \<noteq> [])"
  using stream_write_delivers [OF script_env_ok(1,2) _ script_stream_ok(1,2), where written = "\<lambda>fd w. snd w"
    and bs = "''hello''" and a = 0 and cb = 3 and k = 4] script_write_ok
  by (simp add: script_stream_ok malloc_model_def completions_def del: writables.simps)

text \<open>C25: A queue is flushed in order. When the kernel takes what it is offered, one writable event
  writes the bytes of all queued requests, whatever their number and their extents, in order,
  completes them in order, empties the queue and takes the stream off the writable set, keeping
  its other direction.\<close>

theorem stream_flushes_queue:
  assumes "libevent_ok (env_le env)" and "inert env" and "posix_write (env_kernel env) written"
    and "takes_all (env_kernel env)" and "stream_ok env s rs" and "rs \<noteq> []" and "connectCallback s = None"
  shows "\<exists>s'. SockHandler_ready (length rs) env WRITE s = Inr s' \<and> stream_ok env s' [] \<and>
    written (the_fd s) (os s') = written (the_fd s) (os s) @ queued (reqs s) rs \<and>
    events s' = events s @ concat (map (completes (reqs s)) rs) \<and>
    the_watched env s' = removeWrite (the_watched env s)"
proof -
  have "orderly (env_kernel env) (reqs s) rs" using assms(4) by (simp add: orderly_def)
  from ready_write [OF assms(1-3,5) this order_refl assms(7)] obtain s' fin rest evs where
    s': "SockHandler_ready (length rs) env WRITE s = Inr s'" "wrote env written s rs s' fin rest evs" by blast
  then have "rest = []" "evs = []" "fin = rs" using assms(4) by (auto simp: wrote_def errors_def)
  then show ?thesis using s' assms(6) by (auto simp: wrote_def)
qed

theorem stream_flushes_queue_witness:
  "\<exists>s1 s2 s'. Stream_write taking_env 0 ''ab'' 2 (Some 3) (script_stream []) = Inr s1 \<and>
    Stream_write taking_env 1 ''cd'' 2 None s1 = Inr s2 \<and> SockHandler_ready 2 taking_env WRITE s2 = Inr s' \<and>
    snd (os s') = map Some ''abcd'' \<and> events s' = [Write_Complete 3]"
proof -
  have ok0: "stream_ok taking_env (script_stream []) []" by (simp add: script_stream_ok)
  have cw: "can_write taking_env ''ab''" "can_write taking_env ''cd''" by (simp_all add: malloc_model_def)
  from write_empty [OF taking_env_ok(1) ok0 cw(1), of 0 "Some 3"] obtain s1 where
    s1: "Stream_write taking_env 0 ''ab'' 2 (Some 3) (script_stream []) = Inr s1"
    "enqueued taking_env (script_stream []) [] 0 ''ab'' (Some 3) s1" by auto
  note f1 = enqueued_facts [OF s1(2)]
  have "stream_ok taking_env s1 [0]" "req_tail s1 = Some 0" "reqs s1 1 = None"
    using f1(1,8,9) by (simp_all add: script_stream_ok)
  from write_second [OF taking_env_ok(1) this(1,2) cw(2) this(3), of None] obtain s2 where
    s2: "Stream_write taking_env 1 ''cd'' 2 None s1 = Inr s2" "enqueued taking_env s1 [0] 1 ''cd'' None s2" by auto
  note f2 = enqueued_facts [OF s2(2)]
  have ok2: "stream_ok taking_env s2 [0, 1]" "connectCallback s2 = None"
    using f1(12) f2(1,12) by (simp_all add: script_stream_ok)
  have q: "queued (reqs s2) [0, 1] = map Some ''abcd''" using f1(2) f2(2) by simp
  have c: "concat (map (completes (reqs s2)) [0, 1]) = [Write_Complete 3]" using f1(4) f2(3,4) by simp
  from stream_flushes_queue [OF taking_env_ok(1,2) _ _ ok2(1) _ ok2(2), of "\<lambda>fd w. snd w"] obtain s' where
    "SockHandler_ready 2 taking_env WRITE s2 = Inr s'" "snd (os s') = snd (os s2) @ queued (reqs s2) [0, 1]"
    "events s' = events s2 @ concat (map (completes (reqs s2)) [0, 1])"
    by (auto simp: numeral_2_eq_2)
  with s1(1) s2(1) f1(5,7) f2(5,7) q c show ?thesis by (auto simp: script_stream_ok)
qed

text \<open>A third queued write drops the second. \<open>Requests::append\<close> links a new request behind \<open>tail\<close> but
  never moves \<open>tail\<close>, so of three writes queued on an idle stream the second is unlinked: its bytes are
  never written, even by a kernel that takes everything, and its callback is never called.\<close>

theorem stream_third_write_drops_second:
  assumes "libevent_ok (env_le env)" and "inert env" and "posix_write (env_kernel env) written"
    and "takes_all (env_kernel env)" and "stream_ok env s []" and "connectCallback s = None"
    and "\<forall>bs \<in> {x, y, z}. can_write env bs" and "distinct [a, b, c]" and "\<forall>r \<in> {a, b, c}. reqs s r = None"
  shows "\<exists>s1 s2 s3 s4. Stream_write env a x (of_nat (length x)) (Some 1) s = Inr s1 \<and>
    Stream_write env b y (of_nat (length y)) (Some 2) s1 = Inr s2 \<and>
    Stream_write env c z (of_nat (length z)) (Some 3) s2 = Inr s3 \<and>
    SockHandler_ready 2 env WRITE s3 = Inr s4 \<and> stream_ok env s4 [] \<and>
    written (the_fd s) (os s4) = written (the_fd s) (os s) @ map Some x @ map Some z \<and>
    events s4 = events s @ [Write_Complete 1, Write_Complete 3]"
proof -
  have cw: "can_write env x" "can_write env y" "can_write env z" using assms(7) by simp_all
  from write_empty [OF assms(1,5) cw(1), of a "Some 1"] obtain s1 where
    s1: "Stream_write env a x (of_nat (length x)) (Some 1) s = Inr s1" "enqueued env s [] a x (Some 1) s1" by blast
  note f1 = enqueued_facts [OF s1(2)]
  have "stream_ok env s1 [a]" "req_tail s1 = Some a" "reqs s1 b = None" "reqs s1 c = None"
    using f1(1,8,9) assms(8,9) by auto
  note n1 = this
  from write_second [OF assms(1) n1(1,2) cw(2) n1(3), of "Some 2"] obtain s2 where
    s2: "Stream_write env b y (of_nat (length y)) (Some 2) s1 = Inr s2" "enqueued env s1 [a] b y (Some 2) s2"
    "req_tail s2 = Some a" by blast
  note f2 = enqueued_facts [OF s2(2)]
  have n2: "stream_ok env s2 [a, b]" "reqs s2 c = None" using f2(1,9) n1(4) assms(8) by auto
  from write_second [OF assms(1) n2(1) s2(3) cw(3) n2(2), of "Some 3"] obtain s3 where
    s3: "Stream_write env c z (of_nat (length z)) (Some 3) s2 = Inr s3" "enqueued env s2 [a] c z (Some 3) s3"
    by blast
  note f3 = enqueued_facts [OF s3(2)]
  have n3: "stream_ok env s3 [a, c]" "connectCallback s3 = None" "the_fd s3 = the_fd s" "os s3 = os s"
    "events s3 = events s" using f1 f2 f3 assms(6) by simp_all
  have q: "queued (reqs s3) [a, c] = map Some x @ map Some z"
    using f3(2) f2(14) f1(2) by simp
  have c: "completes (reqs s3) a = [Write_Complete 1]" "completes (reqs s3) c = [Write_Complete 3]"
    using f3(3,4) f2(3) f1(4) by simp_all
  from assms(4) have "orderly (env_kernel env) (reqs s3) [a, c]" by (simp add: orderly_def)
  from ready_write [OF assms(1-3) n3(1) this _ n3(2), of 2] obtain s4 fin rest evs where
    s4: "SockHandler_ready 2 env WRITE s3 = Inr s4" "wrote env written s3 [a, c] s4 fin rest evs" by auto
  then have "rest = []" "fin = [a, c]" "evs = []" using assms(4) by (auto simp: wrote_def errors_def)
  with s4 q c n3 have "stream_ok env s4 []"
    "written (the_fd s) (os s4) = written (the_fd s) (os s) @ map Some x @ map Some z"
    "events s4 = events s @ [Write_Complete 1, Write_Complete 3]" by (simp_all add: wrote_def)
  with s1(1) s2(1) s3(1) s4(1) show ?thesis by blast
qed

theorem stream_third_write_drops_second_witness:
  "\<exists>s1 s2 s3 s4. Stream_write taking_env 0 ''ab'' 2 (Some 1) (script_stream []) = Inr s1 \<and>
    Stream_write taking_env 1 ''cd'' 2 (Some 2) s1 = Inr s2 \<and>
    Stream_write taking_env 2 ''ef'' 2 (Some 3) s2 = Inr s3 \<and>
    SockHandler_ready 2 taking_env WRITE s3 = Inr s4 \<and> snd (os s4) = map Some ''abef'' \<and>
    events s4 = [Write_Complete 1, Write_Complete 3]"
proof -
  have "stream_ok taking_env (script_stream []) []" by (simp add: script_stream_ok)
  from stream_third_write_drops_second [OF taking_env_ok(1,2) _ _ this script_stream_ok(2),
    of "\<lambda>fd w. snd w" "''ab''" "''cd''" "''ef''" 0 1 2] show ?thesis
    by (auto simp: script_stream_ok malloc_model_def)
qed

text \<open>The tail pointer dangles. When two writes are queued and a writable event completes the first
  but not the second, \<open>tail\<close> still points to the first request, which has been deleted; the next
  write, at whatever other address its request is allocated, dereferences it.\<close>

theorem stream_tail_dangles:
  assumes "libevent_ok (env_le env)" and "inert env" and "posix_write (env_kernel env) written"
    and "stream_ok env s []" and "connectCallback s = None" and "can_write env x" and "can_write env y"
    and "can_write env z" and "a \<noteq> b" and "reqs s b = None" and "c \<noteq> a" and "2 \<le> fuel"
    and "Stream_write env a x (of_nat (length x)) cb s = Inr s1"
    and "Stream_write env b y (of_nat (length y)) cb' s1 = Inr s2"
    and "SockHandler_ready fuel env WRITE s2 = Inr s3" and "req_head s3 = Some b"
  shows "Stream_write env c z (of_nat (length z)) cb'' s3 = Inl Use_After_Free"
proof -
  from write_empty [OF assms(1,4,6), of a cb] assms(13) have "enqueued env s [] a x cb s1" by auto
  note f1 = enqueued_facts [OF this]
  have n1: "stream_ok env s1 [a]" "req_tail s1 = Some a" "reqs s1 b = None"
    using f1(1,8,9) assms(9,10) by auto
  from write_second [OF assms(1) n1(1,2) assms(7) n1(3), of cb'] assms(14) have
    e2: "enqueued env s1 [a] b y cb' s2" "req_tail s2 = Some a" by auto
  note f2 = enqueued_facts [OF e2(1)]
  have n2: "stream_ok env s2 [a, b]" "connectCallback s2 = None" "orderly (env_kernel env) (reqs s2) [a, b]"
    using f1(11,12) f2(1,11,12) assms(5) by (simp_all add: orderly_def)
  from ready_write [OF assms(1-3) n2(1,3) _ n2(2), of fuel] assms(12,15) obtain fin rest evs where
    w: "wrote env written s2 [a, b] s3 fin rest evs" by auto
  then have "linked (reqs s3) (Some b) rest" "[a, b] = fin @ rest"
    using assms(16) by (auto simp: wrote_def stream_ok_def)
  then have "rest = [b]" "fin = [a]" using assms(9) by (auto simp: Cons_eq_append_conv)
  with w e2(2) have "req_tail s3 = Some a" "reqs s3 a = None" by (simp_all add: wrote_def)
  moreover obtain q where "WriteRequest_bytes env z (of_nat (length z)) cb'' = Inr q"
    using new_request [OF assms(8)] by blast
  ultimately show ?thesis
    using assms(11,16) by (simp add: Stream_write_def enqueue_def Requests_append_def lookup_req_def)
qed

theorem stream_tail_dangles_witness:
  "\<exists>s1 s2 s3. Stream_write script_env 0 ''ab'' 2 (Some 1) (script_stream [2, 0]) = Inr s1 \<and>
    Stream_write script_env 1 ''cd'' 2 (Some 2) s1 = Inr s2 \<and>
    SockHandler_ready (Suc (Suc 0)) script_env WRITE s2 = Inr s3 \<and>
    Stream_write script_env 2 ''ef'' 2 (Some 3) s3 = Inl Use_After_Free"
proof -
  have "\<exists>s1 s2 s3. Stream_write script_env 0 ''ab'' 2 (Some 1) (script_stream [2, 0]) = Inr s1 \<and>
    Stream_write script_env 1 ''cd'' 2 (Some 2) s1 = Inr s2 \<and>
    SockHandler_ready (Suc (Suc 0)) script_env WRITE s2 = Inr s3 \<and> req_head s3 = Some 1"
    by (simp add: stream_eval)
  then obtain s1 s2 s3 where
    s: "Stream_write script_env 0 ''ab'' 2 (Some 1) (script_stream [2, 0]) = Inr s1"
    "Stream_write script_env 1 ''cd'' 2 (Some 2) s1 = Inr s2"
    "SockHandler_ready (Suc (Suc 0)) script_env WRITE s2 = Inr s3" "req_head s3 = Some 1" by blast
  have "can_write script_env ''ab''" "can_write script_env ''cd''" "can_write script_env ''ef''"
    by (simp_all add: malloc_model_def)
  from stream_tail_dangles [OF script_env_ok(1,2) _ script_stream_ok(1,2) this, of "\<lambda>fd w. snd w" 0 1
    "[2, 0]" 2 "Suc (Suc 0)" "Some 1" s1 "Some 2" s2 s3 "Some 3"] s script_write_ok
  show ?thesis by (auto simp: script_stream_ok)
qed

text \<open>A failing write is reported again and again. When \<open>write\<close> on the descriptor fails, and that
  includes the transient \<open>EAGAIN\<close>, the error callback of the first request runs, but the request
  stays at the head of the queue and the stream stays registered, so that every further writable
  event reports the same request once more.\<close>

theorem stream_write_error_repeats:
  assumes "libevent_ok (env_le env)" and "inert env" and "stream_ok env s (r # rs)" and "connectCallback s = None"
    and "\<forall>fd buf n w. k_write (env_kernel env) fd buf n w = (- 1, w)" and "wr_callback (the (reqs s r)) = Some cb"
    and "1 \<le> fuel"
  shows "\<exists>s'. writables k fuel env s = Inr s' \<and> events s' = events s @ replicate k (Write_Error cb ''Write failed'') \<and>
    stream_ok env s' (r # rs) \<and> queued (reqs s') (r # rs) = queued (reqs s) (r # rs) \<and>
    the_watched env s' = the_watched env s"
  using assms(3,4,6)
proof (induction k arbitrary: s)
  case (Suc k)
  have good: "req_good (reqs s) r" using Suc.prems(1) by (simp add: stream_ok_def)
  obtain x xs where xs: "req_extents (reqs s) r = x # xs" using req_extents_ok(3) [OF good] by (cases "req_extents (reqs s) r") auto
  have ext: "write_extents (env_kernel env) (the_fd s) (req_extents (reqs s) r) 0 False (os s) = (0, False, True, os s)"
    using assms(5) by (simp add: xs xwrite_def)
  have inv: "buf_inv (wr_buffer (the (reqs s r)))" using good by (simp add: req_good_def)
  have d: "buf_inv (Buffer_drain 0 (wr_buffer (the (reqs s r))))"
    "contents (Buffer_drain 0 (wr_buffer (the (reqs s r)))) = req_bytes (reqs s) r" "req_bytes (reqs s) r \<noteq> []"
    using drain_ok [OF inv, of 0] good by (simp_all add: req_bytes_def req_good_def)
  obtain f where fuel: "fuel = Suc f" using assms(7) by (cases fuel) auto
  have "False \<or> True" by simp
  from write_turn_stops [OF Suc.prems(1) assms(2) this ext d, of f] obtain s1 where
    s1: "write_loop fuel env (Some r) s = Inr s1" "stream_ok env s1 (r # rs)" "sbase s1 = sbase s" "frame s s1"
    "req_bytes (reqs s1) r = req_bytes (reqs s) r" "\<And>r'. r' \<noteq> r \<Longrightarrow> reqs s1 r' = reqs s r'"
    "completes (reqs s1) r = completes (reqs s) r" "events s1 = events s @ fails (reqs s) r"
    unfolding fuel by auto
  have "SockHandler_ready fuel env WRITE s = Inr s1"
    using s1(1) Suc.prems(1,2) by (simp add: SockHandler_ready_def writeHelper_def deref_stream_def stream_ok_def)
  moreover have "connectCallback s1 = None" "the_watched env s1 = the_watched env s"
    using s1(3,4) Suc.prems(2) by (simp_all add: frame_def the_watched_def)
  moreover have cb: "wr_callback (the (reqs s1 r)) = Some cb" "fails (reqs s) r = [Write_Error cb ''Write failed'']"
    using s1(7) Suc.prems(3) by (auto simp: completes_def fails_def split: option.splits)
  moreover have "queued (reqs s1) rs = queued (reqs s) rs"
    using Suc.prems(1) by (intro queued_cong s1(6)) (auto simp: stream_ok_def)
  ultimately show ?case using Suc.IH [OF s1(2), of] s1(5,8) by auto
qed simp

theorem stream_write_error_repeats_witness:
  "\<exists>s1 s'. Stream_write (script_env\<lparr>env_kernel := script_kernel\<lparr>k_write := (\<lambda>fd buf n w. (- 1, w))\<rparr>\<rparr>)
      0 ''ab'' 2 (Some 4) (script_stream []) = Inr s1 \<and>
    writables 2 1 (script_env\<lparr>env_kernel := script_kernel\<lparr>k_write := (\<lambda>fd buf n w. (- 1, w))\<rparr>\<rparr>) s1 = Inr s' \<and>
    events s' = [Write_Error 4 ''Write failed'', Write_Error 4 ''Write failed'']"
proof -
  let ?k = "script_kernel\<lparr>k_write := (\<lambda>fd buf n w. (- 1, w))\<rparr>"
  let ?env = "script_env\<lparr>env_kernel := ?k\<rparr>"
  have e: "libevent_ok (env_le ?env)" "inert ?env" "can_write ?env ''ab''"
    using script_env_ok(1) script_can_write [of "''ab''"]
    by (simp_all add: inert_def script_env_def malloc_model_def can_write_def)
  have "stream_ok ?env (script_stream []) []" using script_stream_ok(1) [of "[]"] by (simp add: stream_ok_def)
  from write_empty [OF e(1) this e(3), of 0 "Some 4"] obtain s1 where
    s1: "Stream_write ?env 0 ''ab'' 2 (Some 4) (script_stream []) = Inr s1"
    "enqueued ?env (script_stream []) [] 0 ''ab'' (Some 4) s1" by auto
  note f = enqueued_facts [OF s1(2)]
  have s: "stream_ok ?env s1 [0]" "connectCallback s1 = None" "events s1 = []"
    using f(1,7,12) by (simp_all add: script_stream_ok)
  have cb: "wr_callback (the (reqs s1 0)) = Some 4" using f(4) by (auto simp: completes_def split: option.splits)
  from stream_write_error_repeats [OF e(1,2) s(1,2) _ cb, of 1 2] obtain s' where
    "writables 2 1 ?env s1 = Inr s'" "events s' = replicate 2 (Write_Error 4 ''Write failed'')"
    using s(3) by auto
  with s1(1) show ?thesis by (simp add: numeral_2_eq_2 del: writables.simps)
qed

text \<open>A second write stops reading. On a stream that is registered for reading, the first \<open>write\<close>
  registers it for both directions; the second, through \<open>ensureWrite(READ_WRITE)\<close>, registers it for
  writing only, and once the requests have gone out it is not registered at all, although the read
  callback is still installed: it will not run again.\<close>

theorem stream_second_write_stops_reading:
  assumes "libevent_ok (env_le env)" and "inert env" and "posix_write (env_kernel env) written"
    and "takes_all (env_kernel env)" and "stream_ok env s []" and "connectCallback s = None"
    and "can_write env x" and "can_write env y" and "a \<noteq> b" and "reqs s b = None" and "the_watched env s = READ"
  shows "\<exists>s1 s2 s3. Stream_write env a x (of_nat (length x)) cb s = Inr s1 \<and> the_watched env s1 = READ_WRITE \<and>
    Stream_write env b y (of_nat (length y)) cb' s1 = Inr s2 \<and> the_watched env s2 = WRITE \<and>
    SockHandler_ready 2 env WRITE s2 = Inr s3 \<and> the_watched env s3 = NONE \<and>
    readCallback s3 = readCallback s"
proof -
  from write_empty [OF assms(1,5,7), of a cb] obtain s1 where
    s1: "Stream_write env a x (of_nat (length x)) cb s = Inr s1" "enqueued env s [] a x cb s1" by blast
  note f1 = enqueued_facts [OF s1(2)]
  have n1: "stream_ok env s1 [a]" "req_tail s1 = Some a" "reqs s1 b = None"
    using f1(1,8,9) assms(9,10) by auto
  from write_second [OF assms(1) n1(1,2) assms(8) n1(3), of cb'] obtain s2 where
    s2: "Stream_write env b y (of_nat (length y)) cb' s1 = Inr s2" "enqueued env s1 [a] b y cb' s2" by blast
  note f2 = enqueued_facts [OF s2(2)]
  have n2: "stream_ok env s2 [a, b]" "connectCallback s2 = None" "orderly (env_kernel env) (reqs s2) [a, b]"
    using f1(12) f2(1,12) assms(4,6) by (simp_all add: orderly_def)
  have w: "the_watched env s1 = READ_WRITE" "the_watched env s2 = WRITE"
    using f1(10) f2(10) assms(11) by (simp_all add: what_defs)
  from ready_write [OF assms(1-3) n2(1,3) _ n2(2), of 2] obtain s3 fin rest evs where
    s3: "SockHandler_ready 2 env WRITE s2 = Inr s3" "wrote env written s2 [a, b] s3 fin rest evs" by auto
  then have "rest = []" "fin = [a, b]" using assms(4) by (auto simp: wrote_def)
  with s3(2) w(2) have "the_watched env s3 = NONE" "frame s2 s3" by (simp_all add: wrote_def what_defs)
  moreover have "frame s s3" using f1(6) f2(6) \<open>frame s2 s3\<close> frame_trans by blast
  ultimately show ?thesis using s1(1) s2(1) s3(1) w by (auto simp: frame_def)
qed

text \<open>A stream whose socket is registered for reading.\<close>

definition reading_stream :: "(event \<Rightarrow> 16 word \<times> bool, script) stream" where
  "reading_stream = (script_stream [])\<lparr>readCallback := Some 6, sbase :=
     (sbase (script_stream []))\<lparr>lbase := (\<lambda>_. (0, False))(Ev_Handler 1 := (18, True)),
       handlers := [1 \<mapsto> \<lparr>eh_fd = 8, eh_impl = Some \<lparr>he_base = 1, he_registered = True\<rparr>\<rparr>]\<rparr>\<rparr>"

lemma reading_stream_ok:
  "stream_ok script_env reading_stream []" "the_watched script_env reading_stream = READ"
  "connectCallback reading_stream = None" "reqs reading_stream = Map.empty" "readCallback reading_stream = Some 6"
  by (auto simp: reading_stream_def stream_ok_def script_stream_def StreamImpl_init_def script_env_def reg_inv_def
    base_model_def libevent_model_def may_register_def inLoopThread_def usable_def eh_defs the_watched_def
    watching_def handler_registered_def timeout_registered_def fromFlags_def ALL_BITS_SET_def short_def)

theorem stream_second_write_stops_reading_witness:
  "\<exists>s1 s2 s3. Stream_write taking_env 0 ''ab'' 2 None reading_stream = Inr s1 \<and>
    Stream_write taking_env 1 ''cd'' 2 None s1 = Inr s2 \<and> SockHandler_ready 2 taking_env WRITE s2 = Inr s3 \<and>
    the_watched taking_env s3 = NONE \<and> readCallback s3 = Some 6"
proof -
  have ok: "stream_ok taking_env reading_stream []" "the_watched taking_env reading_stream = READ"
    by (simp_all add: reading_stream_ok)
  from stream_second_write_stops_reading [OF taking_env_ok(1,2) _ _ ok(1) reading_stream_ok(3) _ _ _ _ ok(2),
    of "\<lambda>fd w. snd w" "''ab''" "''cd''" 0 1 None None] show ?thesis
    by (auto simp: reading_stream_ok malloc_model_def)
qed

text \<open>A zero-length write aborts the loop. \<open>write(buf, 0, cb)\<close> queues a request without bytes; at the
  next writable event the assertion that the request has extents fails.\<close>

theorem stream_empty_write_aborts:
  assumes "libevent_ok (env_le env)" and "stream_ok env s []" and "connectCallback s = None" and "env_alloc env 0"
    and "1 \<le> fuel"
  shows "\<exists>s'. Stream_write env a [] 0 cb s = Inr s' \<and>
    SockHandler_ready fuel env WRITE s' = Inl (Assert_Failed ''!extents.empty()'')"
proof -
  let ?e = "\<lparr>ext_size = 0, ext_data = [], read_offset = 0, write_offset = 0\<rparr>"
  let ?q = "\<lparr>wr_buffer = \<lparr>extents = [?e], buf_size = 0\<rparr>, wr_callback = cb, wr_next = None\<rparr>"
  let ?s = "s\<lparr>reqs := (reqs s)(a \<mapsto> ?q), req_head := Some a, req_tail := Some a\<rparr>"
  have q: "WriteRequest_bytes env [] 0 cb = Inr ?q"
    using assms(4) by (simp add: WriteRequest_bytes_def Buffer_append_def append_loop.simps append_node_def
      new_extent_def BufferImpl_init_def ie_append_def Let_def)
  have st: "alive s" "req_head s = None" "req_tail s = None" "reg_inv (env_le env) (sbase s)"
    "may_register (env_self env) (sbase s) (sock s)" using assms(2) by (simp_all add: stream_ok_def)
  have "Requests_append a (s\<lparr>reqs := (reqs s)(a \<mapsto> ?q)\<rparr>) = Inr ?s"
    using st by (simp add: Requests_append_def)
  from enqueue_registers [OF assms(1) st(1,4,5) this] st(1) obtain b where
    b: "enqueue env a ?q s = Inr (?s\<lparr>sbase := b\<rparr>)" "may_register (env_self env) b (sock s)" by auto
  obtain f where "fuel = Suc f" using assms(5) by (cases fuel) auto
  then have "SockHandler_ready fuel env WRITE (?s\<lparr>sbase := b\<rparr>) = Inl (Assert_Failed ''!extents.empty()'')"
    using st(1) assms(3) by (simp add: SockHandler_ready_def writeHelper_def deref_stream_def lookup_req_def
      Buffer_peek_extents_def readable_def assertE_def)
  then show ?thesis using q b(1) by (simp add: Stream_write_def)
qed

theorem stream_empty_write_aborts_witness:
  "\<exists>s'. Stream_write script_env 0 [] 0 None (script_stream []) = Inr s' \<and>
    SockHandler_ready 1 script_env WRITE s' = Inl (Assert_Failed ''!extents.empty()'')"
  by (rule stream_empty_write_aborts [OF script_env_ok(1) script_stream_ok(1,2)])
    (simp_all add: script_env_def malloc_model_def)

text \<open>A short write inside a chained buffer reorders bytes. The loop over the extents of a request
  does not stop when the kernel takes only a part of one. Of a buffer holding \<open>ab\<close> and \<open>cd\<close> in two
  extents, with a kernel that takes one byte of the first and then everything, the bytes that go out
  in the end are \<open>acdd\<close>: \<open>b\<close> is lost and \<open>d\<close> is sent twice.\<close>

theorem stream_short_write_reorders:
  "bindE (Buffer_append_string malloc_model ''cd'' BufferImpl_init) (\<lambda>t.
   bindE (Buffer_append_string malloc_model ''ab'' BufferImpl_init) (\<lambda>h.
   let (buf, _) = Buffer_append_buffer h t in
   bindE (Stream_write_buffer script_env 0 buf (Some 3) (script_stream [1])) (\<lambda>(_, s).
   bindE (SockHandler_ready (Suc 0) script_env WRITE s) (\<lambda>s.
   bindE (SockHandler_ready (Suc 0) script_env WRITE s) (\<lambda>s.
   Inr (snd (os s), events s)))))) = Inr (map Some ''acdd'', [Write_Complete 3])"
  by (simp add: stream_eval Stream_write_buffer_def WriteRequest_buffer_def Buffer_append_buffer_def
    list_empty_def reset_def)

end
