(* ===== verification/Stream_Close.thy ===== *)
theory Stream_Close
  imports Stream_Correct
begin

text \<open>
  The end of a stream of \<open>src/src/stream.cc\<close>: \<open>stopRead\<close>, \<open>close\<close> and the destructor, for a stream
  with any queue of write requests.
\<close>

subsection \<open>Unregistering\<close>

lemma sock_unregister_ok:
  assumes le: "libevent_ok (env_le env)" and inv: "reg_inv (env_le env) (sbase s)"
    and mr: "may_register (env_self env) (sbase s) (sock s)"
  shows "\<exists>b. EventHandler_unregister (env_le env) (env_self env) (sock s) (sbase s) = Inr b \<and>
    reg_inv (env_le env) b \<and> may_register (env_self env) b (sock s) \<and>
    watching (env_le env) b = (watching (env_le env) (sbase s))(sock s := NONE) \<and>
    same_base (sbase s) b \<and> the_fd (s\<lparr>sbase := b\<rparr>) = the_fd s \<and>
    \<not> event_pending (env_le env) (Ev_Handler (sock s)) (lbase b) \<and>
    (\<not> EventHandler_registered (the (handlers (sbase s) (sock s))) \<longrightarrow> b = sbase s)"
proof -
  obtain eh where eh: "handlers (sbase s) (sock s) = Some eh" using may_register_handler [OF mr] by blast
  have th: "inLoopThread (env_self env) (sbase s)" "usable (sbase s) (sock s)"
    using mr by (simp_all add: may_register_def)
  show ?thesis
  proof (cases "EventHandler_registered eh")
    case True
    from unregister_ok [OF le inv th] obtain b where
      b: "unregisterHandler (env_le env) (env_self env) (sock s) (sbase s) = Inr b" "reg_inv (env_le env) b"
      "watching (env_le env) b = (watching (env_le env) (sbase s))(sock s := NONE)" "same_base (sbase s) b"
      "\<not> event_pending (env_le env) (Ev_Handler (sock s)) (lbase b)" by blast
    have "map_option eh_fd (handlers b (sock s)) = Some (eh_fd eh)" using b(4) eh by (simp add: same_base_def)
    then have "the_fd (s\<lparr>sbase := b\<rparr>) = the_fd s" using eh by (auto simp: the_fd_def)
    moreover have "EventHandler_base eh \<noteq> None" using True by (auto simp: eh_defs split: option.splits)
    ultimately show ?thesis
      using True b eh may_register_same_base [OF b(4) mr]
      by (intro exI [of _ b]) (auto simp: EventHandler_unregister_def lookup_handler_def)
  next
    case False
    then have w: "watching (env_le env) (sbase s) (sock s) = NONE"
      using eh by (auto simp: watching_def eh_defs split: option.splits)
    have "EventHandler_unregister (env_le env) (env_self env) (sock s) (sbase s) = Inr (sbase s)"
      using False eh th by (auto simp: EventHandler_unregister_def unregisterHandler_def lookup_handler_def
        usable_def eh_defs split: option.splits)
    moreover have "\<not> event_pending (env_le env) (Ev_Handler (sock s)) (lbase (sbase s))"
      using inv False eh by (auto simp: reg_inv_def handler_registered_def)
    ultimately show ?thesis using inv mr w by (intro exI [of _ "sbase s"]) (auto simp: fun_eq_iff)
  qed
qed

lemma stream_ok_sbase:
  "stream_ok env s rs \<Longrightarrow> reg_inv (env_le env) b \<Longrightarrow> may_register (env_self env) b (sock s) \<Longrightarrow>
   stream_ok env (s\<lparr>sbase := b\<rparr>) rs"
  by (simp add: stream_ok_def)

lemma stream_ok_fields [simp]:
  "stream_ok env (s\<lparr>readCallback := c\<rparr>) rs = stream_ok env s rs" "stream_ok env (s\<lparr>os := w\<rparr>) rs = stream_ok env s rs"
  "stream_ok env (s\<lparr>readBuffer := b\<rparr>) rs = stream_ok env s rs"
  "stream_ok env (s\<lparr>connectCallback := c\<rparr>) rs = stream_ok env s rs"
  by (simp_all add: stream_ok_def)

lemma the_fields [simp]:
  "the_fd (s\<lparr>readCallback := c\<rparr>) = the_fd s" "the_watched env (s\<lparr>readCallback := c\<rparr>) = the_watched env s"
  "the_fd (s\<lparr>os := w\<rparr>) = the_fd s" "the_watched env (s\<lparr>os := w\<rparr>) = the_watched env s"
  "the_fd (s\<lparr>readBuffer := b\<rparr>) = the_fd s" "the_watched env (s\<lparr>readBuffer := b\<rparr>) = the_watched env s"
  by (simp_all add: the_fd_def the_watched_def)

lemma stopRead_ok:
  assumes le: "libevent_ok (env_le env)" and ok: "stream_ok env s rs" and cb: "readCallback s = Some cb"
  shows "\<exists>b. stopRead env s = Inr (s\<lparr>readCallback := None, sbase := b\<rparr>) \<and>
    stream_ok env (s\<lparr>readCallback := None, sbase := b\<rparr>) rs \<and>
    the_fd (s\<lparr>readCallback := None, sbase := b\<rparr>) = the_fd s \<and>
    the_watched env (s\<lparr>readCallback := None, sbase := b\<rparr>) =
      (if the_watched env s = READ_WRITE then WRITE else the_watched env s)"
proof -
  have s: "alive s" "reg_inv (env_le env) (sbase s)" "may_register (env_self env) (sbase s) (sock s)"
    using ok by (simp_all add: stream_ok_def)
  let ?s = "s\<lparr>readCallback := None\<rparr>"
  have w: "sock_watched env ?s = Inr (the_watched env s)"
    using sock_watched_ok [of ?s "env_self env" env] s by (simp add: the_watched_def)
  obtain b where b: "sock_register env WRITE ?s = Inr (?s\<lparr>sbase := b\<rparr>)"
    "reg_inv (env_le env) b" "may_register (env_self env) b (sock s)" "the_watched env (?s\<lparr>sbase := b\<rparr>) = WRITE"
    "the_fd (?s\<lparr>sbase := b\<rparr>) = the_fd s"
    using sock_register_ok [OF le, of ?s WRITE] s by (auto simp: the_fd_def)
  let ?b = "if the_watched env s = READ_WRITE then b else sbase s"
  let ?t = "s\<lparr>readCallback := None, sbase := ?b\<rparr>"
  have "stopRead env s = Inr ?t" using cb w b(1)
    by (cases "the_watched env s") (auto simp: stopRead_def Let_def what_defs)
  moreover have "stream_ok env ?t rs" using ok b by (auto simp: stream_ok_def)
  ultimately show ?thesis using b(4,5) by (intro exI [of _ ?b]) (auto simp: the_watched_def the_fd_def)
qed

subsection \<open>Closing\<close>

text \<open>\<open>close\<close>, once it has called the callbacks.\<close>

definition close_rest :: "('l, 'w) stream_env \<Rightarrow> ('l, 'w) stream \<Rightarrow> fault + ('l, 'w) stream" where
  "close_rest env s =
     bindE (deref_stream s) (\<lambda>_.
     bindE (lookup_handler (sock s) (sbase s)) (\<lambda>eh.
     bindE (if EventHandler_registered eh
            then EventHandler_unregister (env_le env) (env_self env) (sock s) (sbase s)
            else Inr (sbase s)) (\<lambda>b.
     bindE (sock_fd (s\<lparr>sbase := b\<rparr>)) (\<lambda>fd.
     Inr (if fd \<noteq> - 1 then s\<lparr>sbase := b, os := snd (xclose (env_kernel env) fd (os s))\<rparr> else s\<lparr>sbase := b\<rparr>)))))"

lemma Stream_close_rest:
  assumes "alive s" "connectCallback s = None"
  shows "readCallback s = None \<Longrightarrow> Stream_close env s = close_rest env s"
    and "readCallback s = Some cb \<Longrightarrow> inert env \<Longrightarrow>
      Stream_close env s = close_rest env (s\<lparr>events := events s @ [Read_Eof cb]\<rparr>)"
  using assms
  by (simp_all add: Stream_close_def close_rest_def deref_stream_def Let_def invoke_inert cong: if_cong)

lemma close_rest_ok:
  assumes le: "libevent_ok (env_le env)" and ok: "stream_ok env s rs" and fd: "the_fd s \<noteq> - 1"
  shows "\<exists>b. close_rest env s = Inr (s\<lparr>sbase := b, os := snd (xclose (env_kernel env) (the_fd s) (os s))\<rparr>) \<and>
    stream_ok env (s\<lparr>sbase := b\<rparr>) rs \<and> the_watched env (s\<lparr>sbase := b\<rparr>) = NONE \<and> the_fd (s\<lparr>sbase := b\<rparr>) = the_fd s"
proof -
  have s: "alive s" "reg_inv (env_le env) (sbase s)" "may_register (env_self env) (sbase s) (sock s)"
    using ok by (simp_all add: stream_ok_def)
  obtain eh where eh: "handlers (sbase s) (sock s) = Some eh" using may_register_handler [OF s(3)] by blast
  from sock_unregister_ok [OF le s(2,3)] obtain b where
    b: "EventHandler_unregister (env_le env) (env_self env) (sock s) (sbase s) = Inr b" "reg_inv (env_le env) b"
    "may_register (env_self env) b (sock s)" "watching (env_le env) b = (watching (env_le env) (sbase s))(sock s := NONE)"
    "the_fd (s\<lparr>sbase := b\<rparr>) = the_fd s" "\<not> EventHandler_registered eh \<longrightarrow> b = sbase s"
    using eh by auto
  have "sock_fd (s\<lparr>sbase := b\<rparr>) = Inr (the_fd s)"
    using sock_fd_ok [of "s\<lparr>sbase := b\<rparr>" "env_self env"] s(1) b(3,5) by simp
  then have "close_rest env s = Inr (s\<lparr>sbase := b, os := snd (xclose (env_kernel env) (the_fd s) (os s))\<rparr>)"
    using s(1) eh b(1,6) fd
    by (cases "EventHandler_registered eh") (simp_all add: close_rest_def deref_stream_def lookup_handler_def)
  moreover have "stream_ok env (s\<lparr>sbase := b\<rparr>) rs" by (rule stream_ok_sbase [OF ok b(2,3)])
  ultimately show ?thesis using b(4,5) by (intro exI [of _ b]) (simp add: the_watched_def)
qed

subsection \<open>The destructor\<close>

text \<open>Only the queue has changed, and every request in it has been deleted.\<close>

lemma consume_all_ok:
  assumes "linked (reqs s) (req_head s) rs" "distinct rs" "length rs \<le> fuel" "0 < fuel"
  shows "\<exists>p t. consume_all fuel s = Inr (s\<lparr>req_head := p, req_tail := t, reqs := (\<lambda>r. if r \<in> set rs then None else reqs s r)\<rparr>)"
  using assms
proof (induction rs arbitrary: s fuel)
  case Nil
  then obtain k where "fuel = Suc k" by (cases fuel) auto
  with Nil show ?case by (intro exI [of _ "req_head s"] exI [of _ "req_tail s"]) (simp add: consumeFront_def)
next
  case (Cons r rs)
  then obtain k where fuel: "fuel = Suc k" "length rs \<le> k" by (cases fuel) auto
  from Cons.prems(1) obtain q where q: "req_head s = Some r" "reqs s r = Some q" "linked (reqs s) (wr_next q) rs"
    unfolding linked_Cons_iff by blast
  let ?t = "if wr_next q = None then None else req_tail s"
  let ?s = "s\<lparr>req_head := wr_next q, req_tail := ?t, reqs := (reqs s)(r := None)\<rparr>"
  have front: "consumeFront s = Inr (wr_next q, ?s)" using q by (simp add: consumeFront_def lookup_req_def fun_upd_def)
  show ?case
  proof (cases "rs = []")
    case True
    then have "wr_next q = None" using q(3) by simp
    moreover have "(reqs s)(r := None) = (\<lambda>x. if x \<in> set (r # rs) then None else reqs s x)" using True by auto
    ultimately show ?thesis using front fuel(1) by (intro exI [of _ None]) simp
  next
    case False
    then have ne: "wr_next q \<noteq> None" "0 < k" using q(3) fuel(2) by (cases rs; auto)+
    have "linked (reqs ?s) (req_head ?s) rs" "distinct rs" using q(3) Cons.prems(2) by simp_all
    from Cons.IH [OF this fuel(2) ne(2)] obtain p t where
      "consume_all k ?s = Inr (?s\<lparr>req_head := p, req_tail := t, reqs := (\<lambda>x. if x \<in> set rs then None else reqs ?s x)\<rparr>)"
      by blast
    moreover have "(\<lambda>x. if x \<in> set rs then None else reqs ?s x) = (\<lambda>x. if x \<in> set (r # rs) then None else reqs s x)" by auto
    ultimately show ?thesis using front fuel(1) ne(1) by (intro exI [of _ p] exI [of _ t]) simp
  qed
qed

text \<open>What is left of a stream once it has been deleted: \<open>rs\<close> was its queue.\<close>

definition destroyed :: "('l, 'w) stream_env \<Rightarrow> ('l, 'w) stream \<Rightarrow> rid list \<Rightarrow> ('l, 'w) stream \<Rightarrow> bool" where
  "destroyed env s rs s' \<longleftrightarrow> \<not> alive s' \<and> sock s' = sock s \<and> os s' = os s \<and> events s' = events s \<and>
     reqs s' = (\<lambda>r. if r \<in> set rs then None else reqs s r) \<and> handlers (sbase s') (sock s) = None \<and>
     reg_inv (env_le env) (sbase s') \<and> \<not> event_pending (env_le env) (Ev_Handler (sock s)) (lbase (sbase s'))"

lemma StreamImpl_destroy_ok:
  assumes le: "libevent_ok (env_le env)" and ok: "stream_ok env s rs" and fuel: "length rs \<le> fuel" "0 < fuel"
  shows "\<exists>s'. StreamImpl_destroy fuel env s = Inr s' \<and> destroyed env s rs s'"
proof -
  have s: "linked (reqs s) (req_head s) rs" "distinct rs" "reg_inv (env_le env) (sbase s)"
    "may_register (env_self env) (sbase s) (sock s)"
    using ok by (simp_all add: stream_ok_def)
  from sock_unregister_ok [OF le s(3,4)] obtain b where
    b: "EventHandler_unregister (env_le env) (env_self env) (sock s) (sbase s) = Inr b" "reg_inv (env_le env) b"
    "may_register (env_self env) b (sock s)" "\<not> event_pending (env_le env) (Ev_Handler (sock s)) (lbase b)" by blast
  obtain eh where eh: "handlers b (sock s) = Some eh" using may_register_handler [OF b(3)] by blast
  have "linked (reqs (s\<lparr>sbase := b\<rparr>)) (req_head (s\<lparr>sbase := b\<rparr>)) rs" using s(1) by simp
  from consume_all_ok [OF this s(2) fuel] obtain p t where
    c: "consume_all fuel (s\<lparr>sbase := b\<rparr>) = Inr (s\<lparr>sbase := b, req_head := p, req_tail := t,
      reqs := (\<lambda>r. if r \<in> set rs then None else reqs s r)\<rparr>)" by (auto cong: if_cong)
  let ?b = "b\<lparr>handlers := (handlers b)(sock s := None)\<rparr>"
  let ?s = "s\<lparr>sbase := ?b, req_head := p, req_tail := t, reqs := (\<lambda>r. if r \<in> set rs then None else reqs s r), alive := False\<rparr>"
  have "StreamImpl_destroy fuel env s = Inr ?s"
    using b(1) c eh by (simp add: StreamImpl_destroy_def EventHandler_destroy_def lookup_handler_def)
  moreover have "reg_inv (env_le env) ?b"
    using b(2,4) by (auto simp: reg_inv_def handler_registered_def timeout_registered_def)
  ultimately show ?thesis using b(4) by (intro exI [of _ ?s]) (simp add: destroyed_def)
qed

end
