(* ===== verification/Stream_Read.thy ===== *)
theory Stream_Read
  imports Stream_Queue Stream_Close
begin

text \<open>
  The read side, connecting and closing of \<open>src/src/stream.cc\<close>: what \<open>readHelper\<close> delivers and why
  it ends, which events \<open>startRead\<close> and \<open>stopRead\<close> register, the outcomes of \<open>connect\<close>, and the
  properties.
\<close>

subsection \<open>Reading\<close>

text \<open>The allocator grants what a chunk of input needs.\<close>

definition can_read :: "('l, 'w) stream_env \<Rightarrow> bool" where
  "can_read env \<longleftrightarrow> alloc_bounded (env_alloc env) \<and> (\<forall>n. n \<le> read_chunk \<longrightarrow> env_alloc env n)"

text \<open>
  What the calls of \<open>read\<close> deliver that a readable event is entitled to make: full chunks of 4096
  bytes as long as they come, then one shorter chunk or none. \<open>reads k fd w cs e w'\<close>: from the state
  \<open>w\<close> of the system these calls deliver the chunks \<open>cs\<close>, end for the reason \<open>e\<close> and leave the state
  \<open>w'\<close>. They end because the descriptor is drained (a short chunk, or a result that says so), because
  the peer has ended its side, or because a call failed.
\<close>

datatype read_end = Drained | At_Eof | Failed

inductive reads :: "'w kernel \<Rightarrow> int \<Rightarrow> 'w \<Rightarrow> byte list list \<Rightarrow> read_end \<Rightarrow> 'w \<Rightarrow> bool" for k fd where
  nothing: "k_read k fd 4096 w = (r, bs, w') \<Longrightarrow> r < 0 \<Longrightarrow>
    socket_geterror k fd w' = EAGAIN k \<or> socket_geterror k fd w' = EWOULDBLOCK k \<Longrightarrow> reads k fd w [] Drained w'"
| fails: "k_read k fd 4096 w = (r, bs, w') \<Longrightarrow> r < 0 \<Longrightarrow>
    socket_geterror k fd w' \<noteq> EAGAIN k \<Longrightarrow> socket_geterror k fd w' \<noteq> EWOULDBLOCK k \<Longrightarrow> reads k fd w [] Failed w'"
| ends: "k_read k fd 4096 w = (0, bs, w') \<Longrightarrow> reads k fd w [] At_Eof w'"
| short: "k_read k fd 4096 w = (r, bs, w') \<Longrightarrow> 0 < r \<Longrightarrow> r < 4096 \<Longrightarrow> reads k fd w [bs] Drained w'"
| full: "k_read k fd 4096 w = (4096, bs, w') \<Longrightarrow> reads k fd w' cs e w'' \<Longrightarrow> reads k fd w (bs # cs) e w''"

text \<open>What the read callback is told of them: one call per chunk, and how it ended.\<close>

definition read_reports :: "cbid option \<Rightarrow> byte list list \<Rightarrow> read_end \<Rightarrow> cb_event list" where
  "read_reports c cs e = (case c of None \<Rightarrow> [] | Some cb \<Rightarrow> map (\<lambda>_. Read_Available cb) cs @
     (case e of Drained \<Rightarrow> [] | At_Eof \<Rightarrow> [Read_Eof cb] | Failed \<Rightarrow> [Read_Error cb ''Read failed'']))"

text \<open>\<open>s'\<close> has received the chunks \<open>cs\<close> and been told of them.\<close>

definition received :: "('l, 'w) stream \<Rightarrow> byte list list \<Rightarrow> read_end \<Rightarrow> ('l, 'w) stream \<Rightarrow> bool" where
  "received s cs e s' \<longleftrightarrow> buf_inv (readBuffer s') \<and>
     contents (readBuffer s') = contents (readBuffer s) @ map Some (concat cs) \<and>
     events s' = events s @ read_reports (readCallback s) cs e"

lemma reads_chunks:
  assumes "posix_read k unread" "reads k fd w cs e w'"
  shows "unread fd w = concat cs @ unread fd w' \<and> [] \<notin> set cs"
  using assms(2)
proof induction
  case (short w r bs w')
  then have "bs \<noteq> []" "unread fd w = bs @ unread fd w'" using assms(1) by (fastforce simp: posix_read_def)+
  then show ?case by simp
next
  case (full w bs w' cs e w'')
  then have "bs \<noteq> []" "unread fd w = bs @ unread fd w'" using assms(1) by (fastforce simp: posix_read_def)+
  with full.IH show ?case by simp
qed (use assms(1) in \<open>fastforce simp: posix_read_def\<close>)+

lemma chunk_facts: "unat read_chunk = 4096"
  by (simp add: read_chunk_def)

lemma chunk_size:
  assumes "0 < r" "r \<le> int (unat read_chunk)"
  shows "unat (of_int r :: size_t) = nat r" "(of_int r :: size_t) \<le> read_chunk"
    "((of_int r :: size_t) < read_chunk) = (nat r < 4096)"
proof -
  have "of_int r = (of_nat (nat r) :: size_t)" using assms(1) by (simp add: of_nat_nat)
  moreover have "unat (of_nat (nat r) :: size_t) = nat r"
    using assms by (intro unat_of_nat_size) (simp add: chunk_facts)
  ultimately show u: "unat (of_int r :: size_t) = nat r" by simp
  show "(of_int r :: size_t) \<le> read_chunk" "((of_int r :: size_t) < read_chunk) = (nat r < 4096)"
    using assms u by (simp_all add: word_le_nat_alt word_less_nat_alt chunk_facts)
qed

text \<open>One turn of \<open>readHelper\<close> that gets a chunk.\<close>

lemma readHelper_turn:
  assumes inert: "inert env" and al: "can_read env" and live: "alive s" "may_register self (sbase s) (sock s)"
    and buf: "buf_inv (readBuffer s)" and r: "0 < r" "r \<le> int (unat read_chunk)" "length bs = nat r"
    and len: "length (contents (readBuffer s)) + length bs < 2 ^ 64"
    and kr: "k_read (env_kernel env) (the_fd s) read_chunk (os s) = (r, bs, w)"
  shows "\<exists>b evs. let s1 = s\<lparr>os := w, readBuffer := b, events := events s @ evs\<rparr> in
    readHelper (Suc fuel) env s = (if length bs < 4096 then Inr s1 else readHelper fuel env s1) \<and> buf_inv b \<and>
    contents b = contents (readBuffer s) @ map Some bs \<and> evs = (case readCallback s of None \<Rightarrow> [] | Some cb \<Rightarrow> [Read_Available cb])"
proof -
  let ?n = "of_int r :: size_t"
  have fd: "sock_fd s = Inr (the_fd s)" by (rule sock_fd_ok [OF live])
  note sz = chunk_size [OF r(1,2)]
  have al': "env_alloc env ?n" "alloc_bounded (env_alloc env)" using al sz(2) by (simp_all add: can_read_def)
  have len: "length (contents (readBuffer s)) + unat ?n < 2 ^ 64" "unat ?n \<le> length bs"
    using len r(3) sz(1) by simp_all
  from append_ok [OF buf al' len(2,1)] obtain b where
    b: "Buffer_append (env_alloc env) bs ?n (readBuffer s) = Inr b" "buf_inv b"
    "contents b = contents (readBuffer s) @ map Some bs" using sz(1) r(3) by auto
  define evs where "evs = (case readCallback s of None \<Rightarrow> [] | Some cb \<Rightarrow> [Read_Available cb])"
  let ?s = "s\<lparr>os := w, readBuffer := b, events := events s @ evs\<rparr>"
  have "readHelper (Suc fuel) env s = (if length bs < 4096 then Inr ?s else readHelper fuel env ?s)"
    using fd kr r(1,3) b(1) sz(3) invoke_inert [OF inert]
    by (cases "readCallback s") (auto simp: xread_def Let_def evs_def)
  then show ?thesis unfolding Let_def using b(2,3) evs_def by (intro exI [of _ b] exI [of _ evs]) blast
qed

lemma readHelper_ok:
  assumes pr: "posix_read (env_kernel env) unread" and inert: "inert env" and al: "can_read env"
    and "alive s" "may_register self (sbase s) (sock s)" "buf_inv (readBuffer s)"
    "length (contents (readBuffer s)) + length (unread (the_fd s) (os s)) < 2 ^ 64"
    "length (unread (the_fd s) (os s)) div 4096 < fuel"
  shows "\<exists>s' cs e. readHelper fuel env s = Inr s' \<and> received s cs e s' \<and>
    reads (env_kernel env) (the_fd s) (os s) cs e (os s')"
  using assms(4-)
proof (induction fuel arbitrary: s)
  case (Suc fuel)
  let ?k = "env_kernel env"
  obtain r bs w where kr: "k_read ?k (the_fd s) read_chunk (os s) = (r, bs, w)" by (metis prod_cases3)
  have kr': "k_read ?k (the_fd s) 4096 (os s) = (r, bs, w)" using kr by (simp add: read_chunk_def)
  have r: "r \<le> int (unat read_chunk)" "length bs = nat r" "unread (the_fd s) (os s) = bs @ unread (the_fd s) w"
    using pr kr by (simp_all add: posix_read_def)
  show ?case
  proof (cases "r > 0")
    case False
    define e where "e = (if r = 0 then At_Eof else if isReadRetryable ?k (socket_geterror ?k (the_fd s) w)
      then Drained else Failed)"
    let ?s = "s\<lparr>os := w, events := events s @ read_reports (readCallback s) [] e\<rparr>"
    have "reads ?k (the_fd s) (os s) [] e w"
      using False kr' reads.ends [of ?k "the_fd s"] reads.fails [OF kr'] reads.nothing [OF kr']
      by (auto simp: e_def isReadRetryable_def)
    moreover have "readHelper (Suc fuel) env s = Inr ?s"
      using sock_fd_ok [OF Suc.prems(1,2)] kr False invoke_inert [OF inert]
      by (cases "readCallback s") (auto simp: xread_def Let_def read_reports_def e_def)
    ultimately show ?thesis using Suc.prems(3)
      by (intro exI [of _ ?s] exI [of _ "[]"] exI [of _ e]) (simp add: received_def)
  next
    case True
    have "length (contents (readBuffer s)) + length bs < 2 ^ 64" using Suc.prems(4) r(3) by simp
    from readHelper_turn [OF inert al Suc.prems(1-3) True r(1,2) this kr, of fuel] obtain b evs where
      evs: "evs = (case readCallback s of None \<Rightarrow> [] | Some cb \<Rightarrow> [Read_Available cb])"
      and b: "buf_inv b" "contents b = contents (readBuffer s) @ map Some bs"
      and step: "readHelper (Suc fuel) env s = (if length bs < 4096
        then Inr (s\<lparr>os := w, readBuffer := b, events := events s @ evs\<rparr>)
        else readHelper fuel env (s\<lparr>os := w, readBuffer := b, events := events s @ evs\<rparr>))" unfolding Let_def by blast
    define s1 where "s1 = s\<lparr>os := w, readBuffer := b, events := events s @ evs\<rparr>"
    show ?thesis
    proof (cases "length bs < 4096")
      case short: True
      then have "reads ?k (the_fd s) (os s) [bs] Drained w" using reads.short [OF kr' True] r(2) by simp
      moreover have "received s [bs] Drained s1"
        using b by (auto simp: received_def s1_def evs read_reports_def split: option.split)
      ultimately show ?thesis using step short
        by (intro exI [of _ s1] exI [of _ "[bs]"] exI [of _ Drained]) (simp add: s1_def)
    next
      case False
      then have lb: "length bs = 4096" "r = 4096" using r(1,2) True by (simp_all add: chunk_facts)
      have s1: "alive s1" "may_register self (sbase s1) (sock s1)" "buf_inv (readBuffer s1)" "the_fd s1 = the_fd s"
        "os s1 = w" "readCallback s1 = readCallback s"
        using Suc.prems(1,2) b(1) by (simp_all add: s1_def the_fd_def)
      have "length (contents (readBuffer s1)) + length (unread (the_fd s1) (os s1)) < 2 ^ 64"
        using Suc.prems(4) r(3) b(2) s1(4,5) by (simp add: s1_def)
      moreover have "length (unread (the_fd s1) (os s1)) div 4096 < fuel"
        using Suc.prems(5) r(3) lb s1(4,5) by simp
      ultimately obtain s' cs e where
        ih: "readHelper fuel env s1 = Inr s'" "received s1 cs e s'" "reads ?k (the_fd s) w cs e (os s')"
        using Suc.IH [OF s1(1-3)] s1(4,5) by auto
      have "received s (bs # cs) e s'"
        using ih(2) by (auto simp: received_def s1_def evs read_reports_def b(2) split: option.splits)
      moreover have "reads ?k (the_fd s) (os s) (bs # cs) e (os s')"
        by (rule reads.full [OF kr' [unfolded lb(2)] ih(3)])
      ultimately show ?thesis using step False ih(1) unfolding s1_def by auto
    qed
  qed
qed simp

subsection \<open>Registration for reading\<close>

lemma startRead_ok:
  assumes le: "libevent_ok (env_le env)" and ok: "stream_ok env s rs" and cb: "readCallback s \<noteq> Some cb"
  shows "\<exists>b. startRead env (Some cb) s = Inr (s\<lparr>readCallback := Some cb, sbase := b\<rparr>) \<and>
    stream_ok env (s\<lparr>readCallback := Some cb, sbase := b\<rparr>) rs \<and>
    the_watched env (s\<lparr>readCallback := Some cb, sbase := b\<rparr>) = ensureRead (the_watched env s) \<and>
    the_fd (s\<lparr>readCallback := Some cb, sbase := b\<rparr>) = the_fd s"
proof -
  have s: "alive s" "reg_inv (env_le env) (sbase s)" "may_register (env_self env) (sbase s) (sock s)"
    using ok by (simp_all add: stream_ok_def)
  let ?s = "s\<lparr>readCallback := Some cb\<rparr>"
  have "sock_watched env ?s = Inr (the_watched env s)"
    using sock_watched_ok [of ?s "env_self env" env] s by (simp add: the_watched_def)
  moreover obtain b where "sock_register env (ensureRead (the_watched env s)) ?s = Inr (?s\<lparr>sbase := b\<rparr>)"
    "reg_inv (env_le env) b" "may_register (env_self env) b (sock s)"
    "the_watched env (?s\<lparr>sbase := b\<rparr>) = ensureRead (the_watched env s)" "the_fd (?s\<lparr>sbase := b\<rparr>) = the_fd s"
    using sock_register_ok [OF le, of ?s "ensureRead (the_watched env s)"] s by auto
  ultimately show ?thesis using cb ok by (intro exI [of _ b]) (auto simp: startRead_def stream_ok_def)
qed

subsection \<open>Properties\<close>

text \<open>C15: Reading delivers the input, in order, and ends. For every kernel whose
  \<open>read\<close> behaves as POSIX says, callbacks that leave the stream alone and an allocator
  that grants the chunks, a readable event makes exactly the calls of \<open>read\<close> that
  \<open>reads\<close> allows: it goes on after a full chunk of 4096 bytes and stops at a shorter
  one, at the end of the input and at a failure. It appends to the read buffer exactly the bytes
  that these calls take from the descriptor, in order; it calls \<open>available\<close> exactly
  once per chunk, each of which is non-empty, then \<open>eof\<close> once if and only if the last
  call returned zero and \<open>error\<close> once if and only if it failed for another reason than
  that nothing was ready, and nothing at all when no callback is installed; and it returns after no
  more turns than the unread input has chunks of 4096 bytes, plus one.\<close>

theorem stream_read_delivers:
  assumes "posix_read (env_kernel env) unread" and "inert env" and "can_read env" and "stream_ok env s rs"
    and "buf_inv (readBuffer s)"
    and "length (contents (readBuffer s)) + length (unread (the_fd s) (os s)) < 2 ^ 64"
    and "length (unread (the_fd s) (os s)) div 4096 < fuel"
  shows "\<exists>s' cs e. SockHandler_ready fuel env READ s = Inr s' \<and>
    reads (env_kernel env) (the_fd s) (os s) cs e (os s') \<and> [] \<notin> set cs \<and>
    unread (the_fd s) (os s) = concat cs @ unread (the_fd s) (os s') \<and> buf_inv (readBuffer s') \<and>
    contents (readBuffer s') = contents (readBuffer s) @ map Some (concat cs) \<and>
    events s' = events s @ read_reports (readCallback s) cs e"
proof -
  have "alive s" "may_register (env_self env) (sbase s) (sock s)" using assms(4) by (simp_all add: stream_ok_def)
  from readHelper_ok [OF assms(1-3) this assms(5-7)] obtain s' cs e where
    s': "readHelper fuel env s = Inr s'" "received s cs e s'" "reads (env_kernel env) (the_fd s) (os s) cs e (os s')"
    by blast
  with reads_chunks [OF assms(1) s'(3)] show ?thesis by (auto simp: SockHandler_ready_def received_def)
qed

text \<open>A kernel with input: every \<open>read\<close> delivers what is unread, up to the size of the request.\<close>

definition input_kernel :: "byte list kernel" where
  "input_kernel = \<lparr>k_write = (\<lambda>fd buf n w. (0, w)),
     k_read = (\<lambda>fd n w. if w = [] then (- 1, [], w)
       else (int (min (unat n) (length w)), take (unat n) w, drop (unat n) w)),
     k_close = (\<lambda>fd w. (0, w)), k_socket = (\<lambda>w. (7, w)), make_socket_nonblocking = (\<lambda>fd w. (0, w)),
     make_listen_socket_reuseable = (\<lambda>fd w. (0, w)), k_inet_pton = (\<lambda>_. 1),
     k_connect = (\<lambda>fd ip p w. (0, w)), k_bind = (\<lambda>fd ip p w. (0, w)),
     k_getsockname = (\<lambda>fd w. (0, 4242, w)), k_listen = (\<lambda>fd n w. (0, w)), k_accept = (\<lambda>fd w. (9, w)),
     socket_geterror = (\<lambda>fd w. 11), getsockopt_error = (\<lambda>fd w. (0, 0, w)),
     EINPROGRESS = 115, EAGAIN = 11, EWOULDBLOCK = 11\<rparr>"

definition input_env :: "(event \<Rightarrow> 16 word \<times> bool, byte list) stream_env" where
  "input_env = \<lparr>env_le = libevent_model, env_kernel = input_kernel, env_alloc = malloc_model,
     env_self = 5, env_invoke = (\<lambda>ev s. Inr s)\<rparr>"

definition input_stream :: "byte list \<Rightarrow> (event \<Rightarrow> 16 word \<times> bool, byte list) stream" where
  "input_stream inp = (StreamImpl_init base_model 1 8 inp)\<lparr>readCallback := Some 6\<rparr>"

lemma input_facts:
  "posix_read (env_kernel input_env) (\<lambda>fd w. w)" "inert input_env" "can_read input_env"
  "libevent_ok (env_le input_env)" "stream_ok input_env (input_stream inp) []"
  "readBuffer (input_stream inp) = BufferImpl_init" "os (input_stream inp) = inp"
  "readCallback (input_stream inp) = Some 6" "events (input_stream inp) = []" "connectCallback (input_stream inp) = None"
  "the_watched input_env (input_stream inp) = NONE"
proof -
  show "can_read input_env"
    using malloc_model_bounded by (auto simp: can_read_def input_env_def malloc_model_def word_less_nat_alt
      word_le_nat_alt chunk_facts)
  show "posix_read (env_kernel input_env) (\<lambda>fd w. w)"
    unfolding posix_read_def
  proof (intro allI impI, goal_cases)
    case (1 fd n w r bs w')
    then consider "r = - 1" "bs = []" "w' = w"
      | "r = int (min (unat n) (length w))" "bs = take (unat n) w" "w' = drop (unat n) w"
      by (auto simp: input_env_def input_kernel_def split: if_splits)
    then show ?case
    proof cases
      case 1
      have "(0 :: int) \<le> int (unat n)" by (rule of_nat_0_le_iff)
      with 1 show ?thesis by (intro conjI) (linarith, simp_all)
    next
      case 2
      have "r \<le> int (unat n)" unfolding 2 by (rule of_nat_mono [OF min.cobounded1])
      with 2 show ?thesis by auto
    qed
  qed
  show "libevent_ok (env_le input_env)" by (simp add: input_env_def libevent_model_ok)
qed (auto simp: input_env_def inert_def stream_ok_def input_stream_def StreamImpl_init_def
    reg_inv_def base_model_def libevent_model_def may_register_def inLoopThread_def usable_def
    EventHandler_new_def eh_defs the_watched_def watching_def)

lemma input_fd: "the_fd (input_stream inp) = 8"
  by (simp add: input_stream_def StreamImpl_init_def the_fd_def EventHandler_new_def)

theorem stream_read_delivers_witness:
  "\<exists>s' cs e. SockHandler_ready 1 input_env READ (input_stream ''ping'') = Inr s' \<and>
    reads input_kernel 8 ''ping'' cs e (os s') \<and> [] \<notin> set cs \<and> ''ping'' = concat cs @ os s' \<and>
    contents (readBuffer s') = map Some (concat cs) \<and> events s' = read_reports (Some 6) cs e"
  using stream_read_delivers [OF input_facts(1-3) input_facts(5), of "''ping''" 1]
  by (auto simp: input_facts input_fd input_env_def)

text \<open>\<open>stopRead\<close> silences the read callback. After \<open>startRead\<close> and \<open>stopRead\<close> no readable event runs a
  callback, whatever arrives; pending writes stay registered. A stream that was registered for
  reading only stays registered for reading, so that its input is still consumed.\<close>

theorem stream_stopRead_silences:
  assumes "libevent_ok (env_le env)" and "posix_read (env_kernel env) unread" and "inert env" and "can_read env"
    and "stream_ok env s rs" and "readCallback s = Some cb" and "buf_inv (readBuffer s)"
    and "length (contents (readBuffer s)) + length (unread (the_fd s) (os s)) < 2 ^ 64"
    and "length (unread (the_fd s) (os s)) div 4096 < fuel"
  shows "\<exists>s1 s2. stopRead env s = Inr s1 \<and> SockHandler_ready fuel env READ s1 = Inr s2 \<and> events s2 = events s \<and>
    isWrite (the_watched env s1) = isWrite (the_watched env s) \<and>
    (the_watched env s = READ \<longrightarrow> the_watched env s1 = READ)"
proof -
  from stopRead_ok [OF assms(1,5,6)] obtain s1 where
    s1: "stopRead env s = Inr s1" "stream_ok env s1 rs" "readCallback s1 = None" "events s1 = events s"
    "os s1 = os s" "readBuffer s1 = readBuffer s" "the_fd s1 = the_fd s"
    "the_watched env s1 = (if the_watched env s = READ_WRITE then WRITE else the_watched env s)" by auto
  have live: "alive s1" "may_register (env_self env) (sbase s1) (sock s1)"
    using s1(2) by (simp_all add: stream_ok_def)
  have "buf_inv (readBuffer s1)" "length (unread (the_fd s1) (os s1)) div 4096 < fuel"
    "length (contents (readBuffer s1)) + length (unread (the_fd s1) (os s1)) < 2 ^ 64"
    using assms(7-9) s1(5-7) by simp_all
  from readHelper_ok [OF assms(2-4) live this(1,3,2)] obtain s2 cs e where
    s2: "readHelper fuel env s1 = Inr s2" "received s1 cs e s2" by blast
  then have "events s2 = events s" using s1(3,4) by (simp add: received_def read_reports_def)
  with s1(1,8) s2(1) show ?thesis by (auto simp: SockHandler_ready_def)
qed

theorem stream_stopRead_silences_witness:
  "\<exists>s1 s2. stopRead input_env (input_stream ''ping'') = Inr s1 \<and> SockHandler_ready 1 input_env READ s1 = Inr s2 \<and>
    events s2 = []"
  using stream_stopRead_silences [OF input_facts(4,1-3,5,8), of "''ping''" 1] by (auto simp: input_facts)

text \<open>A new read callback stops writing. When \<open>startRead\<close> installs another callback on a stream that
  is registered for both directions, \<open>ensureRead(READ_WRITE)\<close> registers it for reading only: queued
  writes are no longer sent. On every other stream \<open>startRead\<close> adds the read direction and keeps
  the write direction; installing the same callback again changes nothing.\<close>

theorem stream_startRead_directions:
  assumes "libevent_ok (env_le env)" and "stream_ok env s rs"
  shows "(readCallback s = Some cb \<longrightarrow> startRead env (Some cb) s = Inr s) \<and>
    (readCallback s \<noteq> Some cb \<longrightarrow> (\<exists>s'. startRead env (Some cb) s = Inr s' \<and> readCallback s' = Some cb \<and>
       isRead (the_watched env s') \<and> stream_ok env s' rs \<and>
       (isWrite (the_watched env s') \<longleftrightarrow> the_watched env s = WRITE)))"
proof (cases "readCallback s = Some cb")
  case False
  from startRead_ok [OF assms False] obtain b where
    b: "startRead env (Some cb) s = Inr (s\<lparr>readCallback := Some cb, sbase := b\<rparr>)"
    "stream_ok env (s\<lparr>readCallback := Some cb, sbase := b\<rparr>) rs"
    "the_watched env (s\<lparr>readCallback := Some cb, sbase := b\<rparr>) = ensureRead (the_watched env s)" by blast
  have "isWrite (ensureRead (the_watched env s)) \<longleftrightarrow> the_watched env s = WRITE"
    by (cases "the_watched env s") (simp_all add: what_defs)
  with b False show ?thesis
    by (intro conjI impI exI [of _ "s\<lparr>readCallback := Some cb, sbase := b\<rparr>"]) simp_all
qed (simp add: startRead_def)

theorem stream_startRead_directions_witness:
  "\<exists>s'. startRead input_env (Some 7) (input_stream ''ping'') = Inr s' \<and> readCallback s' = Some 7 \<and>
    isRead (the_watched input_env s') \<and> \<not> isWrite (the_watched input_env s')"
  using stream_startRead_directions [OF input_facts(4,5), of "''ping''" 7] by (auto simp: input_facts)

subsection \<open>Connecting and closing\<close>

lemma sock_setFd_ok:
  assumes "may_register self (sbase s) (sock s)" "\<not> handler_registered (sbase s) (sock s)"
  shows "\<exists>b. sock_setFd fd s = Inr (s\<lparr>sbase := b\<rparr>) \<and> the_fd (s\<lparr>sbase := b\<rparr>) = fd \<and>
    the_watched env (s\<lparr>sbase := b\<rparr>) = the_watched env s \<and> may_register self b (sock s) \<and>
    (reg_inv (env_le env) (sbase s) \<longrightarrow> reg_inv (env_le env) b)"
proof -
  obtain eh where eh: "handlers (sbase s) (sock s) = Some eh" using may_register_handler [OF assms(1)] by blast
  have nr: "\<not> EventHandler_registered eh" using assms(2) eh by (simp add: handler_registered_def)
  let ?b = "(sbase s)\<lparr>handlers := (handlers (sbase s))(sock s \<mapsto> eh\<lparr>eh_fd := fd\<rparr>)\<rparr>"
  have "sock_setFd fd s = Inr (s\<lparr>sbase := ?b\<rparr>)"
    using eh nr by (simp add: sock_setFd_def lookup_handler_def EventHandler_setFd_def)
  moreover have "the_watched env (s\<lparr>sbase := ?b\<rparr>) = the_watched env s"
    using eh by (simp add: the_watched_def watching_def eh_defs)
  moreover have "may_register self ?b (sock s)"
    using assms(1) eh by (simp add: may_register_def inLoopThread_def usable_def eh_defs)
  moreover have "reg_inv (env_le env) (sbase s) \<longrightarrow> reg_inv (env_le env) ?b"
    using eh by (auto simp: reg_inv_def handler_registered_def timeout_registered_def eh_defs split: option.splits)
  ultimately show ?thesis by (intro exI [of _ ?b]) (simp add: the_fd_def)
qed

lemma connect_waits:
  assumes "libevent_ok (env_le env)" "alive s" "reg_inv (env_le env) (sbase s)"
    "may_register (env_self env) (sbase s) (sock s)" "\<not> handler_registered (sbase s) (sock s)"
  shows "\<exists>s'. bindE (sock_setFd fd s) (\<lambda>s. let s = s\<lparr>connectCallback := Some cb\<rparr> in
      bindE (sock_watched env s) (\<lambda>what. sock_register env (ensureWrite what) s)) = Inr s' \<and>
    connectCallback s' = Some cb \<and> events s' = events s \<and> isWrite (the_watched env s') \<and> the_fd s' = fd \<and>
    os s' = os s"
proof -
  from sock_setFd_ok [of "env_self env" s fd env] assms(3-5) obtain b where
    b: "sock_setFd fd s = Inr (s\<lparr>sbase := b\<rparr>)" "the_fd (s\<lparr>sbase := b\<rparr>) = fd" "reg_inv (env_le env) b"
    "may_register (env_self env) b (sock s)" by auto
  let ?s = "s\<lparr>sbase := b, connectCallback := Some cb\<rparr>"
  have "sock_watched env ?s = Inr (the_watched env ?s)"
    using sock_watched_ok [of ?s "env_self env" env] assms(2) b(4) by simp
  moreover from sock_register_ok [OF assms(1), of ?s "ensureWrite (the_watched env ?s)"] b(3,4) obtain b2 where
    "sock_register env (ensureWrite (the_watched env ?s)) ?s = Inr (?s\<lparr>sbase := b2\<rparr>)"
    "the_watched env (?s\<lparr>sbase := b2\<rparr>) = ensureWrite (the_watched env ?s)"
    "the_fd (?s\<lparr>sbase := b2\<rparr>) = the_fd ?s" by auto
  moreover have "the_fd ?s = fd" using b(2) by (simp add: the_fd_def)
  ultimately show ?thesis using b(1) by (intro exI [of _ "?s\<lparr>sbase := b2\<rparr>"]) simp
qed

lemma connect_done:
  assumes "inert env" "may_register (env_self env) (sbase s) (sock s)" "\<not> handler_registered (sbase s) (sock s)"
  shows "\<exists>s'. bindE (sock_setFd fd s) (invoke_callback env (Connect_Complete cb)) = Inr s' \<and>
    connectCallback s' = connectCallback s \<and> events s' = events s @ [Connect_Complete cb] \<and> the_fd s' = fd \<and>
    os s' = os s"
proof -
  from sock_setFd_ok [of "env_self env" s fd env] assms(2,3) obtain b where
    b: "sock_setFd fd s = Inr (s\<lparr>sbase := b\<rparr>)" "the_fd (s\<lparr>sbase := b\<rparr>) = fd" by auto
  then show ?thesis
    by (intro exI [of _ "s\<lparr>sbase := b, events := events s @ [Connect_Complete cb]\<rparr>"])
      (simp add: invoke_inert [OF assms(1)] the_fd_def)
qed

text \<open>C34: Every \<open>connect\<close> on an unconnected stream has exactly one outcome, and
  it is the one that the socket calls decide. With \<open>fd\<close>, \<open>rc2\<close> and
  \<open>rc3\<close> the results of \<open>socket\<close>, of making it non-blocking and of
  \<open>::connect\<close>: when a call before \<open>::connect\<close> fails, or
  \<open>::connect\<close> fails with another error than \<open>EINPROGRESS\<close>, then
  \<open>error\<close> has been called, the descriptor that was allocated has been closed, and the
  stream has none and is as it was, so that it can be connected again; when it fails with
  \<open>EINPROGRESS\<close>, no callback has been called, the callback is installed and the stream
  waits for writability on the new descriptor; and when it succeeds, \<open>complete\<close> has
  been called and the stream has the new descriptor.\<close>

theorem stream_connect_outcome:
  assumes "libevent_ok (env_le env)" and "inert env" and "alive s" and "reg_inv (env_le env) (sbase s)"
    and "may_register (env_self env) (sbase s) (sock s)" and "\<not> handler_registered (sbase s) (sock s)"
    and "the_fd s = - 1" and "connectCallback s = None" and k: "k = env_kernel env"
    and sk: "k_socket k (os s) = (fd, w1)" and nb: "make_socket_nonblocking k fd w1 = (rc2, w2)"
    and cn: "k_connect k fd ip port w2 = (rc3, w3)"
    and early: "early = (rc2 = - 1 \<or> k_inet_pton k ip \<noteq> 1)"
  shows "\<exists>s'. Stream_connect env ip port cb s = Inr s' \<and>
    (if fd = - 1 \<or> early \<or> rc3 = - 1 \<and> socket_geterror k fd w3 \<noteq> EINPROGRESS k
     then connectCallback s' = None \<and> (\<exists>msg. events s' = events s @ [Connect_Error cb msg]) \<and> the_fd s' = - 1 \<and>
       alive s' \<and> sbase s' = sbase s \<and>
       os s' = (if fd = - 1 then w1 else snd (k_close k fd (if early then w2 else w3)))
     else if rc3 = - 1
     then connectCallback s' = Some cb \<and> events s' = events s \<and> isWrite (the_watched env s') \<and> the_fd s' = fd \<and>
       os s' = w3
     else connectCallback s' = None \<and> events s' = events s @ [Connect_Complete cb] \<and> the_fd s' = fd \<and> os s' = w3)"
proof -
  note inv = invoke_inert [OF assms(2)]
  have fd0: "sock_fd s = Inr (- 1)" using sock_fd_ok [OF assms(3,5)] assms(7) by simp
  have fails: "connect_fails env f msg cb (s\<lparr>os := w\<rparr>) = Inr (s\<lparr>os := w', events := events s @ [Connect_Error cb msg]\<rparr>)"
    if "w' = (if f \<noteq> - 1 then snd (xclose k f w) else w)" for f w w' msg
    using that by (simp add: connect_fails_def inv k)
  note sc = sk [unfolded k] nb [unfolded k] cn [unfolded k]
  note start = Stream_connect_def fd0 sc assms(8) Let_def early k isConnectRetryable_def
  have err: ?thesis if "Stream_connect env ip port cb s = Inr (s\<lparr>os := w, events := events s @ [Connect_Error cb msg]\<rparr>)"
    "w = (if fd = - 1 then w1 else snd (k_close k fd (if early then w2 else w3)))"
    "fd = - 1 \<or> early \<or> rc3 = - 1 \<and> socket_geterror k fd w3 \<noteq> EINPROGRESS k" for w msg
    using that assms(3,7,8)
    by (intro exI [of _ "s\<lparr>os := w, events := events s @ [Connect_Error cb msg]\<rparr>"]) (simp add: the_fd_def)
  consider "fd = - 1" | "fd \<noteq> - 1" "rc2 = - 1" | "fd \<noteq> - 1" "rc2 \<noteq> - 1" "k_inet_pton k ip \<noteq> 1"
    | "fd \<noteq> - 1" "rc2 \<noteq> - 1" "k_inet_pton k ip = 1" "rc3 = - 1" "socket_geterror k fd w3 \<noteq> EINPROGRESS k"
    | "fd \<noteq> - 1" "rc2 \<noteq> - 1" "k_inet_pton k ip = 1" "rc3 = - 1" "socket_geterror k fd w3 = EINPROGRESS k"
    | "fd \<noteq> - 1" "rc2 \<noteq> - 1" "k_inet_pton k ip = 1" "rc3 \<noteq> - 1" by blast
  then show ?thesis
  proof cases
    case 1 then show ?thesis by (intro err) (simp_all add: start fails xclose_def)
  next
    case 2 then show ?thesis by (intro err) (simp_all add: start fails xclose_def)
  next
    case 3 then show ?thesis by (intro err) (simp_all add: start fails xclose_def)
  next
    case 4 then show ?thesis by (intro err) (simp_all add: start fails xclose_def)
  next
    case 5
    from connect_waits [OF assms(1), of "s\<lparr>os := w3\<rparr>" fd cb] assms(3-6) 5 show ?thesis by (auto simp: start)
  next
    case 6
    from connect_done [OF assms(2), of "s\<lparr>os := w3\<rparr>" fd cb] assms(5,6,8) 6 show ?thesis by (auto simp: start)
  qed
qed

text \<open>An unconnected stream over the scripted kernel, whose \<open>connect\<close> reports \<open>EINPROGRESS\<close>.\<close>

definition unconnected :: "(event \<Rightarrow> 16 word \<times> bool, script) stream" where
  "unconnected = StreamImpl_init base_model 1 (- 1) ([], [])"

lemma unconnected_facts:
  "alive unconnected" "reg_inv (env_le script_env) (sbase unconnected)"
  "may_register (env_self script_env) (sbase unconnected) (sock unconnected)"
  "\<not> handler_registered (sbase unconnected) (sock unconnected)" "the_fd unconnected = - 1"
  "connectCallback unconnected = None" "events unconnected = []"
  by (auto simp: unconnected_def StreamImpl_init_def script_env_def reg_inv_def base_model_def libevent_model_def
    may_register_def inLoopThread_def usable_def EventHandler_new_def eh_defs handler_registered_def the_fd_def)

theorem stream_connect_outcome_witness:
  "\<exists>s'. Stream_connect script_env ''127.0.0.1'' 80 4 unconnected = Inr s' \<and> connectCallback s' = Some 4 \<and>
    events s' = [] \<and> isWrite (the_watched script_env s') \<and> the_fd s' = 7 \<and> os s' = ([], [])"
  using stream_connect_outcome [OF script_env_ok(1,2) unconnected_facts(1-6), of script_kernel 7 "([], [])" 0 "([], [])"
      "''127.0.0.1''" 80 "- 1" "([], [])" False 4]
  by (simp add: unconnected_facts(7) script_env_def script_kernel_def unconnected_def StreamImpl_init_def)

text \<open>A refused connection is reported as complete. When the descriptor becomes writable while a
  connect is pending, \<open>connectHelper\<close> asks for \<open>SO_ERROR\<close> but tests its own message variable instead of
  the result: whatever error the socket reports, \<open>complete\<close> is called.\<close>

theorem stream_connect_error_ignored:
  assumes "inert env" and "alive s" and "may_register self (sbase s) (sock s)"
    and "connectCallback s = Some cb" and "getsockopt_error (env_kernel env) (the_fd s) (os s) = (0, err, w)"
  shows "connectHelper env s = Inr (s\<lparr>os := w, connectCallback := None, events := events s @ [Connect_Complete cb]\<rparr>)"
  using assms sock_fd_ok [OF assms(2,3)] by (simp add: connectHelper_def invoke_inert)

theorem stream_connect_error_ignored_witness:
  "\<exists>s'. connectHelper script_env (unconnected\<lparr>connectCallback := Some 4\<rparr>) = Inr s' \<and>
    fst (snd (getsockopt_error (env_kernel script_env) (- 1) ([], []))) = 111 \<and> events s' = [Connect_Complete 4]"
  using stream_connect_error_ignored [OF script_env_ok(2), of "unconnected\<lparr>connectCallback := Some 4\<rparr>" 5 4 111 "([], [])"]
    unconnected_facts
  by (simp add: script_kernel_def script_env_def the_fd_def unconnected_def StreamImpl_init_def)

text \<open>Closing twice closes the descriptor twice. \<open>close\<close> does not forget the descriptor, so a second
  \<open>close\<close>, and likewise every later operation, acts on a number that the system may have given to
  another file by then; and the read callback is told of the end of the stream again.\<close>

theorem stream_close_twice:
  assumes "libevent_ok (env_le env)" and "inert env" and "stream_ok env s rs" and "readCallback s = Some cb"
    and "connectCallback s = None" and "the_fd s \<noteq> - 1"
  shows "\<exists>s1 s2. Stream_close env s = Inr s1 \<and> Stream_close env s1 = Inr s2 \<and>
    the_watched env s1 = NONE \<and> events s2 = events s @ [Read_Eof cb, Read_Eof cb] \<and>
    os s2 = snd (xclose (env_kernel env) (the_fd s) (snd (xclose (env_kernel env) (the_fd s) (os s))))"
proof -
  have one: "\<exists>s1. Stream_close env t = Inr s1 \<and> stream_ok env s1 rs \<and> the_watched env s1 = NONE \<and>
      readCallback s1 = Some cb \<and> connectCallback s1 = None \<and> the_fd s1 = the_fd t \<and>
      events s1 = events t @ [Read_Eof cb] \<and> os s1 = snd (xclose (env_kernel env) (the_fd t) (os t))"
    if ok: "stream_ok env t rs" and t: "readCallback t = Some cb" "connectCallback t = None" "the_fd t \<noteq> - 1" for t
  proof -
    let ?t = "t\<lparr>events := events t @ [Read_Eof cb]\<rparr>"
    have "stream_ok env ?t rs" "the_fd ?t \<noteq> - 1" "alive t" using ok t(3) by (simp_all add: stream_ok_def)
    from close_rest_ok [OF assms(1) this(1,2)] Stream_close_rest(2) [OF this(3) t(2,1) assms(2)]
    show ?thesis using t by (auto simp: the_watched_def the_fd_def)
  qed
  from one [OF assms(3-6)] obtain s1 where
    s1: "Stream_close env s = Inr s1" "stream_ok env s1 rs" "the_watched env s1 = NONE" "readCallback s1 = Some cb"
    "connectCallback s1 = None" "the_fd s1 = the_fd s" "events s1 = events s @ [Read_Eof cb]"
    "os s1 = snd (xclose (env_kernel env) (the_fd s) (os s))" by blast
  from one [OF s1(2,4,5)] s1(6) assms(6) obtain s2 where
    "Stream_close env s1 = Inr s2" "events s2 = events s1 @ [Read_Eof cb]"
    "os s2 = snd (xclose (env_kernel env) (the_fd s) (os s1))" by auto
  with s1 show ?thesis by auto
qed

theorem stream_close_twice_witness:
  "\<exists>s1 s2. Stream_close input_env (input_stream ''ping'') = Inr s1 \<and> Stream_close input_env s1 = Inr s2 \<and>
    events s2 = [Read_Eof 6, Read_Eof 6]"
proof -
  have "the_fd (input_stream ''ping'') \<noteq> - 1" by (simp add: input_fd)
  from stream_close_twice [OF input_facts(4,2,5,8,10) this] obtain s1 s2 where
    "Stream_close input_env (input_stream ''ping'') = Inr s1" "Stream_close input_env s1 = Inr s2"
    "events s2 = events (input_stream ''ping'') @ [Read_Eof 6, Read_Eof 6]" by blast
  then show ?thesis by (auto simp: input_facts)
qed

end
