(* ===== verification/Event_Loop.thy ===== *)
theory Event_Loop
  imports Event_Handling Sys_Kernel Mpsc_Queue
begin

text \<open>
  The event loop half of \<open>src/src/libevent_event_base.cc\<close>: construction and destruction of a base,
  \<open>loop\<close>, \<open>stop\<close>, \<open>runOnEventLoop\<close>, \<open>runOnEventLoopAndWait\<close> and the notification descriptor, in
  the POSIX build without \<open>HAVE_EVENTFD\<close> (no build file defines it).

  \<^item> Operations handed to the base are closures in the source; here they are the values of
    \<open>loop_op\<close>, one constructor for each closure of the file and one for those of clients.
  \<^item> \<open>event_base_loop\<close> is a parameter that is given the dispatcher \<open>dispatch\<close>, so that it can run
    any of the callbacks that the program has registered. Client code (operations, handlers,
    timeouts) is a parameter too and may change the state of the base.
  \<^item> A call that blocks on a condition variable is cut at the wait: it returns whether, or on
    which, it waits. The accesses of \<open>push\<close> and \<open>pop\<close> are interleaved in \<open>Mpsc_Queue\<close>; here each
    queue operation is one step.
  \<^item> The variable \<open>done\<close> of \<open>runOnEventLoopAndWait\<close> lives in the frame of that call: \<open>frames\<close> maps
    the frames that exist to its value.
\<close>

datatype loop_op =
    Empty_Op
  | Client_Op nat
  | Stop_Op
  | Notify_Op loop_op nat

datatype Notify_Type = PIPE | SOCKETPAIR | EVENTFD

datatype LoopMode = ONCE | UNTIL_EMPTY | FOREVER

text \<open>\<open>ran\<close> is a history variable, the operations that have been invoked.\<close>

record ('l, 'w) LibeventEventBase =
  reg :: "'l EventBase"
  terminate :: bool
  finished :: bool
  notify_type :: Notify_Type
  notify_queue :: "loop_op mpsc"
  notify_fds :: "int \<times> int"
  notify_handler :: hid
  frames :: "nat \<rightharpoonup> bool"
  bos :: 'w
  ran :: "loop_op list"

text \<open>
  \<open>lp_pipe\<close> returns the result of \<open>pipe\<close> and the two descriptors, \<open>lp_fuel\<close> bounds the turns of
  \<open>runOpsInQueue\<close>, and \<open>lp_client\<close>, \<open>lp_ready\<close> and \<open>lp_expired\<close> are the code of clients.
\<close>

record ('l, 'w) loop_env =
  lp_le :: "'l libevent"
  lp_kernel :: "'w kernel"
  lp_pipe :: "'w \<Rightarrow> int \<times> int \<times> int \<times> 'w"
  lp_loopexit :: "'l \<Rightarrow> 'l"
  lp_base_free :: "'l \<Rightarrow> 'l"
  lp_client :: "nat \<Rightarrow> ('l, 'w) LibeventEventBase \<Rightarrow> fault + ('l, 'w) LibeventEventBase"
  lp_ready :: "hid \<Rightarrow> What \<Rightarrow> ('l, 'w) LibeventEventBase \<Rightarrow> fault + ('l, 'w) LibeventEventBase"
  lp_expired :: "tid \<Rightarrow> ('l, 'w) LibeventEventBase \<Rightarrow> fault + ('l, 'w) LibeventEventBase"
  lp_loop :: "(callback \<Rightarrow> 16 word \<Rightarrow> ('l, 'w) LibeventEventBase \<Rightarrow> fault + ('l, 'w) LibeventEventBase) \<Rightarrow>
    ('l, 'w) LibeventEventBase \<Rightarrow> fault + int \<times> ('l, 'w) LibeventEventBase"
  lp_fuel :: nat

subsection \<open>Construction and destruction\<close>

definition initNotify ::
  "('l, 'w) loop_env \<Rightarrow> 'w \<Rightarrow> fault + Notify_Type \<times> int \<times> int \<times> 'w" where
  "initNotify env w =
     (let (rc, fd0, fd1, w) = lp_pipe env w in
      if rc \<noteq> 0 then Inl (Runtime_Error ''Error configuring notification descriptors'')
      else Inr (PIPE, fd0, fd1, w))"

text \<open>
  \<open>l\<close> is the result of \<open>event_base_new\<close>, \<open>h\<close> the new notification handler, \<open>a\<close> the address of the
  first node of the queue, \<open>b\<close> the identity of the base and the handlers and timeouts of the
  program.
\<close>

definition LibeventEventBase_init ::
  "('l, 'w) loop_env \<Rightarrow> thread \<Rightarrow> 'l \<Rightarrow> hid \<Rightarrow> addr \<Rightarrow> 'l EventBase \<Rightarrow> 'w \<Rightarrow>
     fault + ('l, 'w) LibeventEventBase" where
  "LibeventEventBase_init env self l h a b w =
     bindE (initNotify env w) (\<lambda>(ty, fd0, fd1, w).
     bindE (registerHandlerInternal (lp_le env) self h READ True
         (b\<lparr>lbase := l, loopThread := 0, handlers := (handlers b)(h \<mapsto> EventHandler_new fd0)\<rparr>)) (\<lambda>b.
     Inr \<lparr>reg = b, terminate = False, finished = False, notify_type = ty,
       notify_queue = mpsc_init Empty_Op a, notify_fds = (fd0, fd1), notify_handler = h,
       frames = Map.empty, bos = w, ran = []\<rparr>))"

text \<open>The destructor, with those of the handler and the queue.\<close>

definition LibeventEventBase_destroy ::
  "('l, 'w) loop_env \<Rightarrow> thread \<Rightarrow> nat \<Rightarrow> ('l, 'w) LibeventEventBase \<Rightarrow> fault + ('l, 'w) LibeventEventBase" where
  "LibeventEventBase_destroy env self k s =
     bindE (EventHandler_unregister (lp_le env) self (notify_handler s) (reg s)) (\<lambda>b.
     let b = b\<lparr>lbase := lp_base_free env (lbase b)\<rparr>;
         w = (if fst (notify_fds s) > 0 then snd (xclose (lp_kernel env) (fst (notify_fds s)) (bos s)) else bos s);
         w = (if snd (notify_fds s) > 0 then snd (xclose (lp_kernel env) (snd (notify_fds s)) w) else w)
     in
     bindE (EventHandler_destroy (notify_handler s) b) (\<lambda>b.
     bindE (mpsc_destroy k (notify_queue s)) (\<lambda>q.
     Inr (s\<lparr>reg := b, bos := w, notify_queue := q\<rparr>))))"

subsection \<open>Notifications\<close>

definition consumeNotification ::
  "('l, 'w) loop_env \<Rightarrow> ('l, 'w) LibeventEventBase \<Rightarrow> bool \<times> ('l, 'w) LibeventEventBase" where
  "consumeNotification env s =
     (let (rbytes, bs, w) = xread (lp_kernel env) (fst (notify_fds s)) 8 (bos s)
      in (rbytes > 0, s\<lparr>bos := w\<rparr>))"

definition signalNotifyQueue ::
  "('l, 'w) loop_env \<Rightarrow> ('l, 'w) LibeventEventBase \<Rightarrow> fault + bool \<times> ('l, 'w) LibeventEventBase" where
  "signalNotifyQueue env s =
     (if notify_type s = EVENTFD then Inl (Assert_Failed ''0 && eventfd not supported'')
      else
        let (ret, w) = xwrite (lp_kernel env) (snd (notify_fds s)) (replicate 8 (Some (CHR 0x01))) 1 (bos s)
        in Inr (ret > 0, s\<lparr>bos := w\<rparr>))"

subsection \<open>Operations\<close>

fun invoke_op :: "('l, 'w) loop_env \<Rightarrow> loop_op \<Rightarrow> ('l, 'w) LibeventEventBase \<Rightarrow>
    fault + ('l, 'w) LibeventEventBase" where
  "invoke_op env Empty_Op s = Inl (Runtime_Error ''bad_function_call'')"
| "invoke_op env (Client_Op c) s = lp_client env c (s\<lparr>ran := ran s @ [Client_Op c]\<rparr>)"
| "invoke_op env Stop_Op s =
     Inr (s\<lparr>ran := ran s @ [Stop_Op], terminate := True, reg := (reg s)\<lparr>lbase := lp_loopexit env (lbase (reg s))\<rparr>\<rparr>)"
| "invoke_op env (Notify_Op op f) s =
     (if frames s f = None then Inl Use_After_Free
      else
        bindE (invoke_op env op s) (\<lambda>s.
        if frames s f = None then Inl Use_After_Free
        else Inr (s\<lparr>frames := (frames s)(f \<mapsto> True)\<rparr>)))"

fun runOpsInQueue :: "nat \<Rightarrow> ('l, 'w) loop_env \<Rightarrow> ('l, 'w) LibeventEventBase \<Rightarrow>
    fault + ('l, 'w) LibeventEventBase" where
  "runOpsInQueue 0 env s = Inl Out_Of_Fuel"
| "runOpsInQueue (Suc fuel) env s =
     bindE (mpsc_pop (notify_queue s)) (\<lambda>(r, q).
     let s = s\<lparr>notify_queue := q\<rparr> in
     case r of
       None \<Rightarrow> Inr s
     | Some op \<Rightarrow> bindE (invoke_op env op s) (\<lambda>s. runOpsInQueue fuel env s))"

definition receiveNotifications :: "('l, 'w) loop_env \<Rightarrow> ('l, 'w) LibeventEventBase \<Rightarrow>
    fault + ('l, 'w) LibeventEventBase" where
  "receiveNotifications env s =
     (let (consumed, s) = consumeNotification env s
      in if \<not> consumed then Inr s else runOpsInQueue (lp_fuel env) env s)"

definition NotifyHandler_ready :: "('l, 'w) loop_env \<Rightarrow> What \<Rightarrow> ('l, 'w) LibeventEventBase \<Rightarrow>
    fault + ('l, 'w) LibeventEventBase" where
  "NotifyHandler_ready env event s = (case event of READ \<Rightarrow> receiveNotifications env s | _ \<Rightarrow> Inr s)"

text \<open>\<open>libeventCallback\<close>, \<open>libeventTimeout\<close> and \<open>persistentTimerCb\<close>.\<close>

fun dispatch :: "('l, 'w) loop_env \<Rightarrow> callback \<Rightarrow> 16 word \<Rightarrow> ('l, 'w) LibeventEventBase \<Rightarrow>
    fault + ('l, 'w) LibeventEventBase" where
  "dispatch env (libeventCallback h) flags s =
     (if h = notify_handler s then NotifyHandler_ready env (fromFlags (le_flags (lp_le env)) flags) s
      else lp_ready env h (fromFlags (le_flags (lp_le env)) flags) s)"
| "dispatch env (libeventTimeout t) flags s = lp_expired env t s"
| "dispatch env persistentTimerCb flags s = Inr s"

subsection \<open>Handing operations to the loop\<close>

text \<open>\<open>a\<close> is the address of the queue node that \<open>push\<close> allocates.\<close>

definition runOnEventLoop ::
  "('l, 'w) loop_env \<Rightarrow> thread \<Rightarrow> addr \<Rightarrow> loop_op \<Rightarrow> bool \<Rightarrow> ('l, 'w) LibeventEventBase \<Rightarrow>
     fault + bool \<times> ('l, 'w) LibeventEventBase" where
  "runOnEventLoop env self a op defer s =
     (if \<not> defer \<and> inLoopThread self (reg s)
      then bindE (invoke_op env op s) (\<lambda>s. Inr (True, s))
      else
        bindE (mpsc_push a op (notify_queue s)) (\<lambda>(shouldKick, q).
        let s = s\<lparr>notify_queue := q\<rparr> in
        if shouldKick then signalNotifyQueue env s else Inr (True, s)))"

text \<open>A call that waits on a condition variable, or its result.\<close>

datatype call_result = Returns bool | Awaits nat

text \<open>The wait for \<open>done\<close>; returning deletes the frame \<open>f\<close>.\<close>

definition await_frame :: "nat \<Rightarrow> ('l, 'w) LibeventEventBase \<Rightarrow> call_result \<times> ('l, 'w) LibeventEventBase" where
  "await_frame f s =
     (if frames s f = Some True then (Returns True, s\<lparr>frames := (frames s)(f := None)\<rparr>) else (Awaits f, s))"

definition runOnEventLoopAndWait ::
  "('l, 'w) loop_env \<Rightarrow> thread \<Rightarrow> addr \<Rightarrow> nat \<Rightarrow> loop_op \<Rightarrow> bool \<Rightarrow> ('l, 'w) LibeventEventBase \<Rightarrow>
     fault + call_result \<times> ('l, 'w) LibeventEventBase" where
  "runOnEventLoopAndWait env self a f op defer s =
     (if \<not> defer \<and> inLoopThread self (reg s)
      then bindE (invoke_op env op s) (\<lambda>s. Inr (Returns True, s))
      else
        bindE (runOnEventLoop env self a (Notify_Op op f) defer
            (s\<lparr>frames := (frames s)(f \<mapsto> False)\<rparr>)) (\<lambda>(scheduled, s).
        if \<not> scheduled then Inr (Returns False, s\<lparr>frames := (frames s)(f := None)\<rparr>)
        else Inr (await_frame f s)))"

text \<open>\<open>stop\<close> returns once \<open>finished\<close> holds: the result is whether it waits.\<close>

definition EventBase_stop ::
  "('l, 'w) loop_env \<Rightarrow> thread \<Rightarrow> addr \<Rightarrow> ('l, 'w) LibeventEventBase \<Rightarrow>
     fault + bool \<times> ('l, 'w) LibeventEventBase" where
  "EventBase_stop env self a s =
     bindE (runOnEventLoop env self a Stop_Op False s) (\<lambda>(r, s). Inr (\<not> finished s, s))"

subsection \<open>The loop\<close>

text \<open>An exception leaves the state behind that it was thrown in.\<close>

datatype 's loop_result = Started 's | Threw string 's

definition loop_start ::
  "('l, 'w) loop_env \<Rightarrow> thread \<Rightarrow> LoopMode \<Rightarrow> ('l, 'w) LibeventEventBase \<Rightarrow>
     ('l, 'w) LibeventEventBase loop_result" where
  "loop_start env self mode s =
     (let s = s\<lparr>reg := (reg s)\<lparr>loopThread := self\<rparr>, finished := False\<rparr> in
      if mode = FOREVER then
        let l = event_assign (lp_le env) Ev_Persistent (- 1) (short (EV_PERSIST (le_flags (lp_le env))))
                  persistentTimerCb (lbase (reg s));
            (rc, l) = event_add (lp_le env) Ev_Persistent (Some \<lparr>tv_sec = 3600, tv_usec = 0\<rparr>) l;
            s = s\<lparr>reg := (reg s)\<lparr>lbase := l\<rparr>\<rparr>
        in if rc \<noteq> 0 then Threw ''Internal error starting loop'' s else Started s
      else Started s)"

fun loop_turns :: "nat \<Rightarrow> ('l, 'w) loop_env \<Rightarrow> LoopMode \<Rightarrow> ('l, 'w) LibeventEventBase \<Rightarrow>
    fault + ('l, 'w) LibeventEventBase" where
  "loop_turns 0 env mode s = Inl Out_Of_Fuel"
| "loop_turns (Suc fuel) env mode s =
     bindE (runOpsInQueue (lp_fuel env) env s) (\<lambda>s.
     bindE (lp_loop env (dispatch env) s) (\<lambda>(rc, s).
     if mode = ONCE then Inr s
     else if mode = UNTIL_EMPTY \<and> rc = 1 then Inr s
     else if terminate s then Inr s
     else loop_turns fuel env mode s))"

definition loop_finish ::
  "('l, 'w) loop_env \<Rightarrow> LoopMode \<Rightarrow> ('l, 'w) LibeventEventBase \<Rightarrow> fault + ('l, 'w) LibeventEventBase" where
  "loop_finish env mode s =
     bindE (if mode = FOREVER then
              let (rc, l) = event_del (lp_le env) Ev_Persistent (lbase (reg s))
              in bindE (assertE ''0'' (rc \<noteq> - 1)) (\<lambda>_. Inr (s\<lparr>reg := (reg s)\<lparr>lbase := l\<rparr>\<rparr>))
            else Inr s) (\<lambda>s.
     Inr (s\<lparr>terminate := False, reg := (reg s)\<lparr>loopThread := 0\<rparr>, finished := True\<rparr>))"

definition EventBase_loop ::
  "nat \<Rightarrow> ('l, 'w) loop_env \<Rightarrow> thread \<Rightarrow> LoopMode \<Rightarrow> ('l, 'w) LibeventEventBase \<Rightarrow>
     fault + ('l, 'w) LibeventEventBase loop_result" where
  "EventBase_loop fuel env self mode s =
     (case loop_start env self mode s of
        Threw msg s \<Rightarrow> Inr (Threw msg s)
      | Started s \<Rightarrow>
          bindE (loop_turns fuel env mode s) (\<lambda>s.
          bindE (loop_finish env mode s) (\<lambda>s. Inr (Started s))))"

end
