(* ===== verification/Loop_Correct.thy ===== *)
theory Loop_Correct
  imports Event_Loop Op_Queue Event_Registry
begin

text \<open>
  What clients of the event loop owe it, the order in which queued operations run, and the
  properties of running, waiting and stopping.

  \<^item> \<open>clients_ok env spawn\<close>: the operation of client \<open>c\<close> may enqueue the operations \<open>spawn c\<close> and
    otherwise leaves the control state of the loop alone. \<open>cost\<close> bounds how many operations come
    of it, so that \<open>runOpsInQueue\<close> ends.
  \<^item> \<open>bfs\<close> is the reference: operations run in breadth-first order of who enqueued them.
\<close>

subsection \<open>Reference: the order of operations\<close>

fun leaf :: "loop_op \<Rightarrow> loop_op" where
  "leaf (Notify_Op op f) = leaf op"
| "leaf op = op"

fun waiters :: "loop_op \<Rightarrow> nat list" where
  "waiters (Notify_Op op f) = f # waiters op"
| "waiters op = []"

fun spawned :: "(nat \<Rightarrow> loop_op list) \<Rightarrow> loop_op \<Rightarrow> loop_op list" where
  "spawned spawn (Client_Op c) = spawn c"
| "spawned spawn (Notify_Op op f) = spawned spawn op"
| "spawned spawn op = []"

fun bfs :: "(nat \<Rightarrow> loop_op list) \<Rightarrow> nat \<Rightarrow> loop_op list \<Rightarrow> loop_op list" where
  "bfs spawn 0 xs = []"
| "bfs spawn (Suc n) [] = []"
| "bfs spawn (Suc n) (x # xs) = leaf x # bfs spawn n (xs @ spawned spawn x)"

fun op_cost :: "(nat \<Rightarrow> nat) \<Rightarrow> loop_op \<Rightarrow> nat" where
  "op_cost cost (Client_Op c) = cost c"
| "op_cost cost (Notify_Op op f) = op_cost cost op"
| "op_cost cost op = 1"

definition total_cost :: "(nat \<Rightarrow> nat) \<Rightarrow> loop_op list \<Rightarrow> nat" where
  "total_cost cost xs = sum_list (map (op_cost cost) xs)"

definition cost_ok :: "(nat \<Rightarrow> loop_op list) \<Rightarrow> (nat \<Rightarrow> nat) \<Rightarrow> bool" where
  "cost_ok spawn cost \<longleftrightarrow> (\<forall>c. total_cost cost (spawn c) < cost c)"

lemma total_cost_simps [simp]:
  "total_cost cost [] = 0" "total_cost cost (x # xs) = op_cost cost x + total_cost cost xs"
  "total_cost cost (xs @ ys) = total_cost cost xs + total_cost cost ys"
  by (simp_all add: total_cost_def)

lemma cost_spawned: "cost_ok spawn cost \<Longrightarrow> total_cost cost (spawned spawn op) < op_cost cost op"
  by (induction op) (simp_all add: cost_ok_def)

subsection \<open>What the loop relies on\<close>

text \<open>An operation can be run when the frames that it writes to exist.\<close>

fun runnable :: "(nat \<rightharpoonup> bool) \<Rightarrow> loop_op \<Rightarrow> bool" where
  "runnable fr Empty_Op = False"
| "runnable fr (Client_Op c) = True"
| "runnable fr Stop_Op = True"
| "runnable fr (Notify_Op op f) = (fr f \<noteq> None \<and> runnable fr op)"

text \<open>The control state is kept; \<open>terminate\<close> may be set but not reset.\<close>

definition keeps :: "('l, 'w) LibeventEventBase \<Rightarrow> ('l, 'w) LibeventEventBase \<Rightarrow> bool" where
  "keeps s s' \<longleftrightarrow> loopThread (reg s') = loopThread (reg s) \<and> (terminate s \<longrightarrow> terminate s') \<and>
     finished s' = finished s \<and> notify_type s' = notify_type s \<and> notify_fds s' = notify_fds s \<and>
     notify_handler s' = notify_handler s"

definition clients_ok :: "('l, 'w) loop_env \<Rightarrow> (nat \<Rightarrow> loop_op list) \<Rightarrow> bool" where
  "clients_ok env spawn \<longleftrightarrow> (\<forall>c s xs. represents (notify_queue s) xs \<longrightarrow>
     (\<exists>s'. lp_client env c s = Inr s' \<and> represents (notify_queue s') (xs @ spawn c) \<and> ran s' = ran s \<and>
        frames s' = frames s \<and> keeps s s')) \<and>
     (\<forall>c. \<forall>x \<in> set (spawn c). runnable Map.empty x)"

definition handlers_ok :: "('l, 'w) loop_env \<Rightarrow> bool" where
  "handlers_ok env \<longleftrightarrow> (\<forall>h what s. \<exists>s'. lp_ready env h what s = Inr s' \<and> notify_queue s' = notify_queue s \<and>
       ran s' = ran s \<and> frames s' = frames s \<and> keeps s s') \<and>
     (\<forall>t s. \<exists>s'. lp_expired env t s = Inr s' \<and> notify_queue s' = notify_queue s \<and>
       ran s' = ran s \<and> frames s' = frames s \<and> keeps s s')"

text \<open>
  \<open>event_base_loop\<close> changes the state of libevent and of the operating system and runs callbacks, in
  any number and order. Once asked to exit, it returns.
\<close>

definition event_loop_ok :: "('l, 'w) loop_env \<Rightarrow> bool" where
  "event_loop_ok env \<longleftrightarrow> (\<forall>I s.
     (\<forall>s l w. I s \<longrightarrow> I (s\<lparr>reg := (reg s)\<lparr>lbase := l\<rparr>, bos := w\<rparr>)) \<longrightarrow>
     (\<forall>cb flags s. I s \<longrightarrow> (\<exists>s'. dispatch env cb flags s = Inr s' \<and> I s')) \<longrightarrow> I s \<longrightarrow> terminate s \<longrightarrow>
     (\<exists>rc s'. lp_loop env (dispatch env) s = Inr (rc, s') \<and> I s'))"

lemma keeps_refl [simp]: "keeps s s"
  by (simp add: keeps_def)

lemma keeps_trans: "keeps a b \<Longrightarrow> keeps b c \<Longrightarrow> keeps a c"
  by (simp add: keeps_def)

lemma runnable_mono: "runnable fr op \<Longrightarrow> (\<And>f. fr f \<noteq> None \<Longrightarrow> fr' f \<noteq> None) \<Longrightarrow> runnable fr' op"
  by (induction op) auto

lemma runnable_empty: "runnable Map.empty op \<Longrightarrow> runnable fr op"
  by (induction op) simp_all

lemma clientsD:
  assumes "clients_ok env spawn" "represents (notify_queue s) xs"
  obtains s' where "lp_client env c s = Inr s'" "represents (notify_queue s') (xs @ spawn c)" "ran s' = ran s"
    "frames s' = frames s" "keeps s s'"
  using assms unfolding clients_ok_def by blast

text \<open>The frames after the operations \<open>xs\<close> have been run.\<close>

definition woken :: "nat list \<Rightarrow> (nat \<rightharpoonup> bool) \<Rightarrow> (nat \<rightharpoonup> bool)" where
  "woken fs fr = (\<lambda>f. if f \<in> set fs then Some True else fr f)"

lemma woken_simps [simp]: "woken [] fr = fr" "(woken fs fr)(f \<mapsto> True) = woken (f # fs) fr"
  "woken gs (woken fs fr) = woken (fs @ gs) fr" "fr f \<noteq> None \<Longrightarrow> woken fs fr f \<noteq> None"
  "f \<in> set fs \<Longrightarrow> woken fs fr f = Some True"
  by (auto simp: woken_def fun_eq_iff)

lemma invoke_ok:
  assumes "clients_ok env spawn" "represents (notify_queue s) xs" "runnable (frames s) op"
  shows "\<exists>s'. invoke_op env op s = Inr s' \<and> represents (notify_queue s') (xs @ spawned spawn op) \<and>
    ran s' = ran s @ [leaf op] \<and> frames s' = woken (waiters op) (frames s) \<and> keeps s s' \<and>
    (leaf op = Stop_Op \<longrightarrow> terminate s')"
  using assms(3)
proof (induction op)
  case (Client_Op c)
  let ?s = "s\<lparr>ran := ran s @ [Client_Op c]\<rparr>"
  have "represents (notify_queue ?s) xs" using assms(2) by simp
  from clientsD [OF assms(1) this, of c] obtain s' where
    "lp_client env c ?s = Inr s'" "represents (notify_queue s') (xs @ spawn c)" "ran s' = ran ?s"
    "frames s' = frames ?s" "keeps ?s s'" .
  then show ?case by (simp add: keeps_def)
next
  case Stop_Op
  then show ?case using assms(2) by (simp add: keeps_def)
next
  case (Notify_Op op f)
  from Notify_Op.prems have "frames s f \<noteq> None" "runnable (frames s) op" by simp_all
  with Notify_Op.IH obtain s' where s': "invoke_op env op s = Inr s'"
    "represents (notify_queue s') (xs @ spawned spawn op)" "ran s' = ran s @ [leaf op]"
    "frames s' = woken (waiters op) (frames s)" "keeps s s'" "leaf op = Stop_Op \<longrightarrow> terminate s'" by blast
  moreover have "frames s' f \<noteq> None" using s'(4) \<open>frames s f \<noteq> None\<close> by simp
  ultimately show ?case using \<open>frames s f \<noteq> None\<close> by (simp add: keeps_def)
qed simp

text \<open>One turn of \<open>runOpsInQueue\<close>: the first closure is run, and what it spawns goes to the end of the queue.\<close>

lemma runOps_turn:
  assumes cl: "clients_ok env spawn" and rep: "represents (notify_queue s) (x # ys)"
    and rn: "\<forall>y \<in> set (x # ys). runnable (frames s) y"
  shows "\<exists>t. runOpsInQueue (Suc fuel) env s = runOpsInQueue fuel env t \<and>
    represents (notify_queue t) (ys @ spawned spawn x) \<and> (\<forall>y \<in> set (ys @ spawned spawn x). runnable (frames t) y) \<and>
    ran t = ran s @ [leaf x] \<and> frames t = woken (waiters x) (frames s) \<and> keeps s t \<and> (leaf x = Stop_Op \<longrightarrow> terminate t)"
proof -
  from mq.pop_some [OF rep] obtain q where
    q: "mpsc_pop (notify_queue s) = Inr (Some x, q)" "represents q ys" by blast
  let ?s = "s\<lparr>notify_queue := q\<rparr>"
  have "represents (notify_queue ?s) ys" "runnable (frames ?s) x" using q(2) rn by simp_all
  from invoke_ok [OF cl this] obtain t where
    t: "invoke_op env x ?s = Inr t" "represents (notify_queue t) (ys @ spawned spawn x)"
    "ran t = ran s @ [leaf x]" "frames t = woken (waiters x) (frames s)" "keeps s t"
    "leaf x = Stop_Op \<Longrightarrow> terminate t" by (auto simp: keeps_def)
  have sp: "\<forall>y \<in> set (spawned spawn x). runnable Map.empty y"
    using cl by (induction x) (auto simp: clients_ok_def)
  have fr: "frames s f \<noteq> None \<Longrightarrow> frames t f \<noteq> None" for f by (simp add: t(4))
  have "\<forall>y \<in> set (ys @ spawned spawn x). runnable (frames t) y"
  proof
    fix y assume "y \<in> set (ys @ spawned spawn x)"
    then consider "y \<in> set ys" | "y \<in> set (spawned spawn x)" by auto
    then show "runnable (frames t) y"
    proof cases
      case 1
      then have "runnable (frames s) y" using rn by simp
      then show ?thesis by (rule runnable_mono) (rule fr)
    qed (use sp runnable_empty in blast)
  qed
  then show ?thesis using q(1) t by (intro exI [of _ t]) simp
qed

lemma runOps_ok:
  assumes cl: "clients_ok env spawn" and co: "cost_ok spawn cost"
    and "represents (notify_queue s) xs" and "\<forall>x \<in> set xs. runnable (frames s) x" and "total_cost cost xs < fuel"
  shows "\<exists>s'. runOpsInQueue fuel env s = Inr s' \<and> represents (notify_queue s') [] \<and>
    ran s' = ran s @ bfs spawn fuel xs \<and> keeps s s' \<and>
    (\<forall>f. f \<in> set (concat (map waiters xs)) \<longrightarrow> frames s' f = Some True) \<and>
    (\<forall>f. frames s f \<noteq> None \<longrightarrow> frames s' f \<noteq> None) \<and>
    (\<forall>f. frames s f = Some True \<longrightarrow> frames s' f = Some True) \<and>
    (Stop_Op \<in> leaf ` set xs \<longrightarrow> terminate s')"
  using assms(3-5)
proof (induction fuel arbitrary: s xs)
  case (Suc fuel)
  show ?case
  proof (cases xs)
    case Nil
    with Suc.prems(1) mq.pop_none [of "notify_queue s"] show ?thesis by (simp add: keeps_def)
  next
    case (Cons x ys)
    from runOps_turn [OF cl Suc.prems(1,2) [unfolded Cons], of fuel] obtain t where
      t: "runOpsInQueue (Suc fuel) env s = runOpsInQueue fuel env t" "represents (notify_queue t) (ys @ spawned spawn x)"
      "\<forall>y \<in> set (ys @ spawned spawn x). runnable (frames t) y" "ran t = ran s @ [leaf x]"
      "frames t = woken (waiters x) (frames s)" "keeps s t" "leaf x = Stop_Op \<longrightarrow> terminate t" by blast
    have "total_cost cost (ys @ spawned spawn x) < fuel"
      using Suc.prems(3) Cons cost_spawned [OF co, of x] by simp
    from Suc.IH [OF t(2,3) this] obtain u where
      u: "runOpsInQueue fuel env t = Inr u" "represents (notify_queue u) []"
      "ran u = ran t @ bfs spawn fuel (ys @ spawned spawn x)" "keeps t u"
      "\<And>f. f \<in> set (concat (map waiters (ys @ spawned spawn x))) \<Longrightarrow> frames u f = Some True"
      "\<And>f. frames t f \<noteq> None \<Longrightarrow> frames u f \<noteq> None"
      "\<And>f. frames t f = Some True \<Longrightarrow> frames u f = Some True"
      "Stop_Op \<in> leaf ` set (ys @ spawned spawn x) \<Longrightarrow> terminate u" by blast
    have "frames u f = Some True" if "f \<in> set (concat (map waiters xs))" for f
      using that u(5,7) [of f] Cons by (cases "f \<in> set (waiters x)") (auto simp: t(5))
    moreover have "frames u f = Some True" if "frames s f = Some True" for f
      using that by (intro u(7)) (simp add: t(5) woken_def)
    moreover have "frames u f \<noteq> None" if "frames s f \<noteq> None" for f
      using that by (intro u(6)) (simp add: t(5))
    moreover have "terminate u" if "Stop_Op \<in> leaf ` set xs"
      using that t(7) u(4,8) Cons by (cases "leaf x = Stop_Op") (auto simp: keeps_def)
    ultimately show ?thesis using t(1,4) u(1-4) Cons keeps_trans [OF t(6) u(4)] by simp
  qed
qed simp

end
