(* ===== verification/Loop_Properties.thy ===== *)
theory Loop_Properties
  imports Loop_Correct
begin

text \<open>
  The properties of the event loop of \<open>src/src/libevent_event_base.cc\<close>: the order in which queued
  operations run, waiting for an operation, stopping the loop from its own and from another
  thread, the errors of the notification descriptor and of starting the loop, and construction
  and destruction of a base. The first part is a concrete environment for their witnesses.
\<close>

subsection \<open>One turn of a loop that has been told to stop\<close>

lemma dispatch_keeps_empty:
  assumes "handlers_ok env" "0 < lp_fuel env"
    and s: "represents (notify_queue s) []" "terminate s" "ran s = r" "frames s = fr" "keeps s0 s"
  shows "\<exists>s'. dispatch env cb flags s = Inr s' \<and> represents (notify_queue s') [] \<and> terminate s' \<and> ran s' = r \<and>
    frames s' = fr \<and> keeps s0 s'"
proof -
  obtain k where k: "lp_fuel env = Suc k" using assms(2) by (cases "lp_fuel env") auto
  have client: "\<exists>s'. m = Inr s' \<and> represents (notify_queue s') [] \<and> terminate s' \<and> ran s' = r \<and>
      frames s' = fr \<and> keeps s0 s'"
    if "\<exists>s'. m = Inr s' \<and> notify_queue s' = notify_queue s \<and> ran s' = ran s \<and> frames s' = frames s \<and> keeps s s'" for m
    using that s keeps_trans by (auto simp: keeps_def)
  have notify: "\<exists>s'. NotifyHandler_ready env e s = Inr s' \<and> represents (notify_queue s') [] \<and> terminate s' \<and>
      ran s' = r \<and> frames s' = fr \<and> keeps s0 s'" for e
  proof (cases "e = READ \<and> fst (consumeNotification env s)")
    case True
    obtain t where t: "consumeNotification env s = (True, t)" using True by (metis (full_types) prod.collapse)
    then obtain w where "t = s\<lparr>bos := w\<rparr>" by (auto simp: consumeNotification_def Let_def split: prod.splits)
    then show ?thesis using True t s k mq.pop_none [OF s(1)]
      by (simp add: NotifyHandler_ready_def receiveNotifications_def keeps_def)
  next
    case False
    then show ?thesis using s
      by (cases e) (auto simp: NotifyHandler_ready_def receiveNotifications_def consumeNotification_def keeps_def
        split: prod.splits)
  qed
  show ?thesis
  proof (cases cb)
    case (libeventCallback h)
    have "\<exists>s'. lp_ready env h e s = Inr s' \<and> notify_queue s' = notify_queue s \<and> ran s' = ran s \<and>
        frames s' = frames s \<and> keeps s s'" for e using assms(1) by (simp add: handlers_ok_def)
    from client [OF this] notify libeventCallback show ?thesis by (cases "h = notify_handler s") simp_all
  next
    case (libeventTimeout t)
    have "\<exists>s'. lp_expired env t s = Inr s' \<and> notify_queue s' = notify_queue s \<and> ran s' = ran s \<and>
        frames s' = frames s \<and> keeps s s'" using assms(1) by (simp add: handlers_ok_def)
    from client [OF this] libeventTimeout show ?thesis by simp
  next
    case persistentTimerCb
    then show ?thesis using s by simp
  qed
qed

lemma event_base_loop_returns:
  assumes "event_loop_ok env" "handlers_ok env" "0 < lp_fuel env" "represents (notify_queue s) []" "terminate s"
  shows "\<exists>rc s'. lp_loop env (dispatch env) s = Inr (rc, s') \<and> represents (notify_queue s') [] \<and> terminate s' \<and>
    ran s' = ran s \<and> frames s' = frames s \<and> keeps s s'"
proof -
  let ?I = "\<lambda>t. represents (notify_queue t) [] \<and> terminate t \<and> ran t = ran s \<and> frames t = frames s \<and> keeps s t"
  have "\<forall>t l w. ?I t \<longrightarrow> ?I (t\<lparr>reg := (reg t)\<lparr>lbase := l\<rparr>, bos := w\<rparr>)" by (simp add: keeps_def)
  moreover have "\<forall>cb flags t. ?I t \<longrightarrow> (\<exists>t'. dispatch env cb flags t = Inr t' \<and> ?I t')"
    by (intro allI impI dispatch_keeps_empty [OF assms(2,3)]) simp_all
  moreover have "?I s" using assms(4,5) by simp
  ultimately show ?thesis
    using assms(1) [unfolded event_loop_ok_def, THEN spec, of ?I, THEN spec, of s] assms(5) by simp
qed

lemma turn_stops:
  assumes "clients_ok env spawn" "cost_ok spawn cost" "handlers_ok env" "event_loop_ok env"
    and "represents (notify_queue s) xs" "\<forall>x \<in> set xs. runnable (frames s) x" "total_cost cost xs < lp_fuel env"
    and "terminate s \<or> Stop_Op \<in> leaf ` set xs"
  shows "\<exists>s'. loop_turns (Suc k) env mode s = Inr s' \<and> represents (notify_queue s') [] \<and> terminate s' \<and>
    ran s' = ran s @ bfs spawn (lp_fuel env) xs \<and> keeps s s'"
proof -
  from runOps_ok [OF assms(1,2,5-7)] obtain t where
    t: "runOpsInQueue (lp_fuel env) env s = Inr t" "represents (notify_queue t) []"
    "ran t = ran s @ bfs spawn (lp_fuel env) xs" "keeps s t" "Stop_Op \<in> leaf ` set xs \<longrightarrow> terminate t" by blast
  have "terminate t" using t(4,5) assms(8) by (auto simp: keeps_def)
  moreover have "0 < lp_fuel env" using assms(7) by simp
  ultimately obtain rc u where u: "lp_loop env (dispatch env) t = Inr (rc, u)" "represents (notify_queue u) []"
    "terminate u" "ran u = ran t" "keeps t u"
    using event_base_loop_returns [OF assms(4,3) _ t(2)] by blast
  then show ?thesis using t(1,3) keeps_trans [OF t(4) u(5)] by simp
qed

lemma finish_ok:
  assumes "\<forall>l. fst (event_del (lp_le env) Ev_Persistent l) \<noteq> - 1"
  shows "\<exists>s'. loop_finish env mode s = Inr s' \<and> finished s' \<and> \<not> terminate s' \<and> loopThread (reg s') = 0 \<and>
    ran s' = ran s \<and> notify_queue s' = notify_queue s"
proof -
  have "fst (event_del (lp_le env) Ev_Persistent (lbase (reg s))) \<noteq> - 1" using assms by blast
  then show ?thesis by (auto simp: loop_finish_def split: prod.splits)
qed

lemma push_elsewhere:
  assumes "represents (notify_queue s) xs" "nodes (notify_queue s) a = None" "notify_type s \<noteq> EVENTFD"
    and "later \<or> \<not> inLoopThread self (reg s)"
  shows "\<exists>r q w. runOnEventLoop env self a op later s = Inr (r, s\<lparr>notify_queue := q, bos := w\<rparr>) \<and>
    represents q (xs @ [op]) \<and> (\<forall>b. b \<noteq> a \<longrightarrow> nodes (notify_queue s) b = None \<longrightarrow> nodes q b = None) \<and>
    (xs \<noteq> [] \<longrightarrow> r \<and> w = bos s) \<and>
    (xs = [] \<longrightarrow> (r, w) = (let (n, w) = xwrite (lp_kernel env) (snd (notify_fds s)) (replicate 8 (Some (CHR 0x01))) 1 (bos s)
        in (n > 0, w)))"
proof -
  from mq.push_law [OF assms(1,2), of op] obtain q where
    q: "mpsc_push a op (notify_queue s) = Inr (xs = [], q)" "represents q (xs @ [op])"
    "\<forall>b. b \<noteq> a \<longrightarrow> nodes (notify_queue s) b = None \<longrightarrow> nodes q b = None" by blast
  show ?thesis
  proof (cases "xs = []")
    case True
    then show ?thesis using q assms(3,4) by (auto simp: runOnEventLoop_def signalNotifyQueue_def split: prod.split)
  next
    case False
    then show ?thesis using q assms(3,4) by (intro exI [of _ True] exI [of _ q] exI [of _ "bos s"])
      (auto simp: runOnEventLoop_def)
  qed
qed

lemma loop_start_forever:
  assumes "event_add (lp_le env) Ev_Persistent (Some \<lparr>tv_sec = 3600, tv_usec = 0\<rparr>)
      (event_assign (lp_le env) Ev_Persistent (- 1) (short (EV_PERSIST (le_flags (lp_le env)))) persistentTimerCb
        (lbase (reg s))) = (rc, l)"
  shows "\<exists>b. loopThread b = self \<and> loop_start env self FOREVER s =
    (if rc \<noteq> 0 then Threw ''Internal error starting loop'' (s\<lparr>reg := b, finished := False\<rparr>)
     else Started (s\<lparr>reg := b, finished := False\<rparr>))"
  by (rule exI [of _ "(reg s)\<lparr>loopThread := self, lbase := l\<rparr>"]) (simp add: loop_start_def assms)

subsection \<open>A concrete environment\<close>

text \<open>
  The descriptors of the base are a pipe with \<open>bos\<close> bytes in it, or one to which every write fails.
  Client 5 enqueues the operation of client 6.
\<close>

definition pipe_kernel :: "bool \<Rightarrow> nat kernel" where
  "pipe_kernel works = \<lparr>k_write = (\<lambda>fd buf n w. if works then (int (unat n), w + unat n) else (- 1, w)),
     k_read = (\<lambda>fd n w. (int (min w (unat n)), replicate (min w (unat n)) (CHR 0x01), w - min w (unat n))),
     k_close = (\<lambda>fd w. (0, w)), k_socket = (\<lambda>w. (- 1, w)), make_socket_nonblocking = (\<lambda>fd w. (0, w)),
     make_listen_socket_reuseable = (\<lambda>fd w. (0, w)), k_inet_pton = (\<lambda>s. 0),
     k_connect = (\<lambda>fd s p w. (- 1, w)), k_bind = (\<lambda>fd s p w. (- 1, w)), k_getsockname = (\<lambda>fd w. (- 1, 0, w)),
     k_listen = (\<lambda>fd n w. (- 1, w)), k_accept = (\<lambda>fd w. (- 1, w)), socket_geterror = (\<lambda>fd w. 0),
     getsockopt_error = (\<lambda>fd w. (- 1, 0, w)), EINPROGRESS = 115, EAGAIN = 11, EWOULDBLOCK = 11\<rparr>"

definition fresh_addr :: "'a mpsc \<Rightarrow> addr" where
  "fresh_addr q = Suc (Max (dom (nodes q)))"

definition demo_client :: "nat \<Rightarrow> ('l, 'w) LibeventEventBase \<Rightarrow> fault + ('l, 'w) LibeventEventBase" where
  "demo_client c s =
     (if c = 5
      then bindE (mpsc_push (fresh_addr (notify_queue s)) (Client_Op 6) (notify_queue s)) (\<lambda>(r, q).
             Inr (s\<lparr>notify_queue := q\<rparr>))
      else Inr s)"

definition demo_spawn :: "nat \<Rightarrow> loop_op list" where
  "demo_spawn c = (if c = 5 then [Client_Op 6] else [])"

definition demo_cost :: "nat \<Rightarrow> nat" where
  "demo_cost c = (if c = 5 then 2 else 1)"

definition demo_env :: "bool \<Rightarrow> (event \<Rightarrow> 16 word \<times> bool, nat) loop_env" where
  "demo_env works = \<lparr>lp_le = libevent_model, lp_kernel = pipe_kernel works, lp_pipe = (\<lambda>w. (0, 3, 4, w)),
     lp_loopexit = (\<lambda>l. l), lp_base_free = (\<lambda>l _. (0, False)), lp_client = demo_client,
     lp_ready = (\<lambda>h what s. Inr s), lp_expired = (\<lambda>t s. Inr s),
     lp_loop = (\<lambda>d s. if snd (lbase (reg s) (Ev_Handler 9)) \<and> bos s > 0
        then bindE (d (libeventCallback 9) 2 s) (\<lambda>s. Inr (0, s)) else Inr (0, s)),
     lp_fuel = 8\<rparr>"

definition demo_base :: "thread \<Rightarrow> (event \<Rightarrow> 16 word \<times> bool, nat) LibeventEventBase" where
  "demo_base t = \<lparr>reg = base_model\<lparr>loopThread := t\<rparr>, terminate = False, finished = False, notify_type = PIPE,
     notify_queue = mpsc_init Empty_Op 0, notify_fds = (3, 4), notify_handler = 9, frames = Map.empty, bos = 0,
     ran = []\<rparr>"

lemma fresh_addr: "represents q xs \<Longrightarrow> nodes q (fresh_addr q) = None"
proof -
  assume "represents q xs"
  then have "finite (dom (nodes q))" by (auto simp: represents_def)
  then have "x \<in> dom (nodes q) \<Longrightarrow> x < fresh_addr q" for x by (simp add: fresh_addr_def less_Suc_eq_le)
  then show ?thesis by blast
qed

lemma nodes_init: "a \<noteq> b \<Longrightarrow> nodes (mpsc_init d b) a = None"
  by (simp add: mpsc_init_def)

lemma demo_facts:
  "clients_ok (demo_env w) demo_spawn" "cost_ok demo_spawn demo_cost" "handlers_ok (demo_env w)"
  "event_loop_ok (demo_env w)" "\<forall>l. fst (event_del (lp_le (demo_env w)) Ev_Persistent l) \<noteq> - 1" "lp_fuel (demo_env w) = 8"
  "represents (notify_queue (demo_base t)) []" "notify_type (demo_base t) \<noteq> EVENTFD"
  "a \<noteq> 0 \<Longrightarrow> nodes (notify_queue (demo_base t)) a = None" "loopThread (reg (demo_base t)) = t" "ran (demo_base t) = []"
  "frames (demo_base t) = Map.empty" "\<not> finished (demo_base t)"
proof -
  have 5: "\<exists>s'. demo_client 5 s = Inr s' \<and> represents (notify_queue s') (xs @ [Client_Op 6]) \<and>
      ran s' = ran s \<and> frames s' = frames s \<and> keeps s s'"
    if "represents (notify_queue s) xs" for s :: "('l, 'w) LibeventEventBase" and xs
    using mq.push_law [OF that fresh_addr [OF that], of "Client_Op 6"] by (auto simp: demo_client_def keeps_def)
  show "clients_ok (demo_env w) demo_spawn"
    unfolding clients_ok_def
  proof (intro conjI allI impI)
    fix c s xs
    assume "represents (notify_queue (s :: (event \<Rightarrow> 16 word \<times> bool, nat) LibeventEventBase)) xs"
    with 5 [OF this] show "\<exists>s'. lp_client (demo_env w) c s = Inr s' \<and>
        represents (notify_queue s') (xs @ demo_spawn c) \<and> ran s' = ran s \<and> frames s' = frames s \<and> keeps s s'"
      by (cases "c = 5") (simp_all add: demo_env_def demo_spawn_def demo_client_def)
  qed (simp add: demo_spawn_def)
  show "cost_ok demo_spawn demo_cost" by (simp add: cost_ok_def demo_spawn_def demo_cost_def)
  show "handlers_ok (demo_env w)" by (simp add: handlers_ok_def demo_env_def)
  show "event_loop_ok (demo_env w)"
    unfolding event_loop_ok_def
  proof (intro allI impI)
    fix I s
    assume d: "\<forall>cb flags s. I s \<longrightarrow> (\<exists>s'. dispatch (demo_env w) cb flags s = Inr s' \<and> I s')" and "I s"
    then obtain s' where "dispatch (demo_env w) (libeventCallback 9) 2 s = Inr s'" "I s'" by blast
    with \<open>I s\<close> show "\<exists>rc s'. lp_loop (demo_env w) (dispatch (demo_env w)) s = Inr (rc, s') \<and> I s'"
      by (cases "snd (lbase (reg s) (Ev_Handler 9)) \<and> bos s > 0") (auto simp: demo_env_def)
  qed
qed (simp_all add: demo_env_def demo_base_def libevent_model_def represents_init nodes_init)

subsection \<open>Properties\<close>

text \<open>C12: Queued operations run in breadth-first order. \<open>runOpsInQueue\<close> runs every queued operation
  once, in the order in which they were enqueued, then those that they enqueued themselves, and so
  on, and returns with an empty queue; every thread that waits for one of them is released. It
  ends if the operations enqueue only finitely many others: any fuel above their cost is enough.\<close>

theorem loop_runs_in_order:
  assumes "clients_ok env spawn" and "cost_ok spawn cost" and "represents (notify_queue s) xs"
    and "\<forall>x \<in> set xs. runnable (frames s) x" and "total_cost cost xs < fuel"
  shows "\<exists>s'. runOpsInQueue fuel env s = Inr s' \<and> represents (notify_queue s') [] \<and>
    ran s' = ran s @ bfs spawn fuel xs \<and>
    (\<forall>f. f \<in> set (concat (map waiters xs)) \<longrightarrow> frames s' f = Some True)"
  using runOps_ok [OF assms] by blast

text \<open>A base whose loop runs in thread 5, with client 5's operation in its queue.\<close>

lemma demo_queued:
  "\<exists>s q. runOnEventLoop (demo_env True) 7 1 (Client_Op 5) True (demo_base 5) = Inr (True, s) \<and>
    s = (demo_base 5)\<lparr>notify_queue := q, bos := 1\<rparr> \<and> represents q [Client_Op 5] \<and> nodes q 2 = None"
proof -
  have n: "nodes (notify_queue (demo_base 5)) 1 = None" "nodes (notify_queue (demo_base 5)) 2 = None"
    by (simp_all add: demo_facts)
  from push_elsewhere [OF demo_facts(7) n(1) demo_facts(8), of True 7 "demo_env True" "Client_Op 5"] n(2)
  show ?thesis by (auto simp: xwrite_def demo_env_def pipe_kernel_def demo_base_def)
qed

lemma demo_bfs: "bfs demo_spawn 8 [Client_Op 5] = [Client_Op 5, Client_Op 6]"
  "bfs demo_spawn 8 [Client_Op 5, Stop_Op] = [Client_Op 5, Stop_Op, Client_Op 6]"
  "bfs demo_spawn 8 [Notify_Op (Client_Op 5) 0] = [Client_Op 5, Client_Op 6]"
  by (simp_all add: eval_nat_numeral demo_spawn_def)

theorem loop_runs_in_order_witness:
  "\<exists>s s'. runOnEventLoop (demo_env True) 7 1 (Client_Op 5) True (demo_base 5) = Inr (True, s) \<and>
    runOpsInQueue 8 (demo_env True) s = Inr s' \<and> ran s' = [Client_Op 5, Client_Op 6]"
proof -
  from demo_queued obtain s q where s: "runOnEventLoop (demo_env True) 7 1 (Client_Op 5) True (demo_base 5) = Inr (True, s)"
    "s = (demo_base 5)\<lparr>notify_queue := q, bos := 1\<rparr>" "represents q [Client_Op 5]" by blast
  have "represents (notify_queue s) [Client_Op 5]" "\<forall>x \<in> set [Client_Op 5]. runnable (frames s) x" "ran s = []"
    "total_cost demo_cost [Client_Op 5] < 8" using s by (simp_all add: demo_facts demo_cost_def)
  from loop_runs_in_order [OF demo_facts(1,2) this(1,2,4)] this(3) s(1) show ?thesis by (auto simp: demo_bfs)
qed

text \<open>Handing an operation over. Outside the loop thread, or deferred, \<open>runOnEventLoop\<close> appends the
  operation to the queue and notifies the loop exactly when the queue was empty. Its result is
  the success of the notification only: when that fails it returns \<open>false\<close>, but the operation
  stays in the queue, and as the queue is no longer empty the operations that follow do not
  notify either.\<close>

theorem loop_enqueue:
  assumes "represents (notify_queue s) xs" and "nodes (notify_queue s) a = None" and "notify_type s \<noteq> EVENTFD"
    and "later \<or> \<not> inLoopThread self (reg s)"
    and "k_write (lp_kernel env) (snd (notify_fds s)) (replicate 8 (Some (CHR 0x01))) 1 (bos s) = (n, w)"
  shows "\<exists>q. runOnEventLoop env self a op later s =
      Inr (xs \<noteq> [] \<or> n > 0, s\<lparr>notify_queue := q, bos := (if xs = [] then w else bos s)\<rparr>) \<and>
    represents q (xs @ [op])"
proof -
  from push_elsewhere [OF assms(1-4)] obtain r q w' where
    "runOnEventLoop env self a op later s = Inr (r, s\<lparr>notify_queue := q, bos := w'\<rparr>)" "represents q (xs @ [op])"
    "xs \<noteq> [] \<longrightarrow> r \<and> w' = bos s"
    "xs = [] \<longrightarrow> (r, w') = (let (n, w) = xwrite (lp_kernel env) (snd (notify_fds s))
       (replicate 8 (Some (CHR 0x01))) 1 (bos s) in (n > 0, w))" by blast
  then show ?thesis using assms(5) by (cases "xs = []") (auto simp: xwrite_def)
qed

theorem loop_enqueue_witness:
  "\<exists>q. runOnEventLoop (demo_env False) 7 1 (Client_Op 4) True (demo_base 5) =
      Inr (False, (demo_base 5)\<lparr>notify_queue := q, bos := 0\<rparr>) \<and> represents q [Client_Op 4]"
  using loop_enqueue [OF demo_facts(7) demo_facts(9) demo_facts(8), of 1 True 7 5 "demo_env False" "- 1" 0 "Client_Op 4"]
  by (simp add: demo_env_def pipe_kernel_def demo_base_def)

text \<open>C14: \<open>stop\<close> from another thread ends the loop. While thread
  \<open>t\<close> runs the loop, another thread's \<open>stop\<close> enqueues the request and
  waits; the next turn of the loop, in every mode, runs all queued operations and the request,
  leaves the loop, resets \<open>terminate_\<close> and the loop thread, and sets the flag that the
  waiting thread waits for.\<close>

theorem loop_stop_from_other_thread:
  assumes "clients_ok env spawn" and "cost_ok spawn cost" and "handlers_ok env" and "event_loop_ok env"
    and "\<forall>l. fst (event_del (lp_le env) Ev_Persistent l) \<noteq> - 1"
    and "represents (notify_queue s) xs" and "\<forall>x \<in> set xs. runnable (frames s) x"
    and "total_cost cost xs + 1 < lp_fuel env" and "nodes (notify_queue s) a = None" and "notify_type s \<noteq> EVENTFD"
    and "\<not> inLoopThread other (reg s)"
  shows "\<exists>s1 s2 s3. EventBase_stop env other a s = Inr (\<not> finished s, s1) \<and>
    loop_turns (Suc k) env mode s1 = Inr s2 \<and> loop_finish env mode s2 = Inr s3 \<and> finished s3 \<and>
    \<not> terminate s3 \<and> loopThread (reg s3) = 0 \<and> ran s3 = ran s @ bfs spawn (lp_fuel env) (xs @ [Stop_Op])"
proof -
  from push_elsewhere [OF assms(6,9,10), of False other env Stop_Op] assms(11) obtain r q w where
    p: "runOnEventLoop env other a Stop_Op False s = Inr (r, s\<lparr>notify_queue := q, bos := w\<rparr>)"
    "represents q (xs @ [Stop_Op])" by auto
  let ?s = "s\<lparr>notify_queue := q, bos := w\<rparr>"
  have "represents (notify_queue ?s) (xs @ [Stop_Op])" "\<forall>x \<in> set (xs @ [Stop_Op]). runnable (frames ?s) x"
    "total_cost cost (xs @ [Stop_Op]) < lp_fuel env" "terminate ?s \<or> Stop_Op \<in> leaf ` set (xs @ [Stop_Op])"
    using p(2) assms(7,8) by auto
  from turn_stops [OF assms(1-4) this, of k mode] obtain s2 where
    s2: "loop_turns (Suc k) env mode ?s = Inr s2" "ran s2 = ran ?s @ bfs spawn (lp_fuel env) (xs @ [Stop_Op])" by blast
  from finish_ok [OF assms(5)] obtain s3 where "loop_finish env mode s2 = Inr s3" "finished s3" "\<not> terminate s3"
    "loopThread (reg s3) = 0" "ran s3 = ran s2" by blast
  then show ?thesis using p(1) s2 by (auto simp: EventBase_stop_def)
qed

theorem loop_stop_from_other_thread_witness:
  "\<exists>s0 s1 s2 s3. runOnEventLoop (demo_env True) 7 1 (Client_Op 5) True (demo_base 5) = Inr (True, s0) \<and>
    EventBase_stop (demo_env True) 7 2 s0 = Inr (True, s1) \<and> loop_turns 1 (demo_env True) FOREVER s1 = Inr s2 \<and>
    loop_finish (demo_env True) FOREVER s2 = Inr s3 \<and> finished s3 \<and> ran s3 = [Client_Op 5, Stop_Op, Client_Op 6]"
proof -
  from demo_queued obtain s q where s: "runOnEventLoop (demo_env True) 7 1 (Client_Op 5) True (demo_base 5) = Inr (True, s)"
    "s = (demo_base 5)\<lparr>notify_queue := q, bos := 1\<rparr>" "represents q [Client_Op 5]" "nodes q 2 = None" by blast
  have "represents (notify_queue s) [Client_Op 5]" "\<forall>x \<in> set [Client_Op 5]. runnable (frames s) x" "ran s = []"
    "total_cost demo_cost [Client_Op 5] + 1 < lp_fuel (demo_env True)" "nodes (notify_queue s) 2 = None"
    "notify_type s \<noteq> EVENTFD" "\<not> inLoopThread 7 (reg s)" "\<not> finished s"
    using s demo_facts by (simp_all add: demo_cost_def inLoopThread_def)
  from loop_stop_from_other_thread [OF demo_facts(1-5) this(1,2,4-7), of 0 FOREVER] this(3,8) s(1)
  show ?thesis by (auto simp: demo_bfs demo_facts)
qed

text \<open>C23: Waiting for an operation. From another thread, when the loop has been or can be
  woken - the queue is not empty, or the write to the notification descriptor takes its byte -
  \<open>runOnEventLoopAndWait\<close> enqueues the operation and waits; once the loop thread has
  emptied its queue, the operation has been run, once and in its turn, and the wait is over, with
  the result \<open>true\<close> and the frame of the call gone. Without that condition the call
  gives up, and the operation that stays queued uses the frame after it is gone
  (\<open>loop_failed_wait_dangles\<close>).\<close>

theorem loop_wait_completes:
  assumes "clients_ok env spawn" and "cost_ok spawn cost" and "represents (notify_queue s) xs"
    and "\<forall>x \<in> set xs. runnable (frames s) x" and "runnable (frames s) op" and "frames s f = None"
    and "total_cost cost xs + op_cost cost op < fuel" and "nodes (notify_queue s) a = None"
    and "notify_type s \<noteq> EVENTFD" and "\<not> inLoopThread other (reg s)"
    and "xs \<noteq> [] \<or> fst (k_write (lp_kernel env) (snd (notify_fds s)) (replicate 8 (Some (CHR 0x01))) 1 (bos s)) > 0"
  shows "\<exists>s1 s2 s3. runOnEventLoopAndWait env other a f op later s = Inr (Awaits f, s1) \<and>
    runOpsInQueue fuel env s1 = Inr s2 \<and> ran s2 = ran s @ bfs spawn fuel (xs @ [Notify_Op op f]) \<and>
    await_frame f s2 = (Returns True, s3) \<and> frames s3 f = None"
proof -
  let ?s = "s\<lparr>frames := (frames s)(f \<mapsto> False)\<rparr>"
  obtain r q w where p: "runOnEventLoop env other a (Notify_Op op f) later ?s = Inr (r, ?s\<lparr>notify_queue := q, bos := w\<rparr>)"
    "represents q (xs @ [Notify_Op op f])" "xs \<noteq> [] \<longrightarrow> r"
    "xs = [] \<longrightarrow> (r, w) = (let (n, w) = xwrite (lp_kernel env) (snd (notify_fds s)) (replicate 8 (Some (CHR 0x01))) 1 (bos s)
       in (n > 0, w))"
    using push_elsewhere [of ?s xs a later other env "Notify_Op op f"] assms(3,8-10) by auto
  have r using p(3,4) assms(11) by (cases "xs = []") (auto simp: xwrite_def split: prod.splits)
  let ?t = "?s\<lparr>notify_queue := q, bos := w\<rparr>"
  have wt: "runOnEventLoopAndWait env other a f op later s = Inr (Awaits f, ?t)"
    using p(1) \<open>r\<close> assms(10) by (simp add: runOnEventLoopAndWait_def await_frame_def)
  have mono: "runnable (frames ?t) x" if "runnable (frames s) x" for x
    using that by (rule runnable_mono) auto
  have t: "represents (notify_queue ?t) (xs @ [Notify_Op op f])"
    "\<forall>x \<in> set (xs @ [Notify_Op op f]). runnable (frames ?t) x"
    "total_cost cost (xs @ [Notify_Op op f]) < fuel"
    using p(2) assms(4,5,7) mono by auto
  from runOps_ok [OF assms(1,2) t] obtain u where u: "runOpsInQueue fuel env ?t = Inr u"
    "ran u = ran ?t @ bfs spawn fuel (xs @ [Notify_Op op f])"
    "\<forall>g. g \<in> set (concat (map waiters (xs @ [Notify_Op op f]))) \<longrightarrow> frames u g = Some True" by blast
  have "await_frame f u = (Returns True, u\<lparr>frames := (frames u)(f := None)\<rparr>)"
    using u(3) by (simp add: await_frame_def)
  with wt u show ?thesis by auto
qed

theorem loop_wait_completes_witness:
  "\<exists>s1 s2 s3. runOnEventLoopAndWait (demo_env True) 7 1 0 (Client_Op 5) False (demo_base 5) = Inr (Awaits 0, s1) \<and>
    runOpsInQueue 8 (demo_env True) s1 = Inr s2 \<and> ran s2 = [Client_Op 5, Client_Op 6] \<and>
    await_frame 0 s2 = (Returns True, s3) \<and> frames s3 0 = None"
proof -
  have "fst (k_write (lp_kernel (demo_env True)) (snd (notify_fds (demo_base 5)))
      (replicate 8 (Some (CHR 0x01))) 1 (bos (demo_base 5))) > 0" by (simp add: demo_env_def pipe_kernel_def)
  with loop_wait_completes [OF demo_facts(1) [of True] demo_facts(2) demo_facts(7) [of 5],
      where op = "Client_Op 5" and f = 0 and fuel = 8 and a = 1 and other = 7 and later = False]
  show ?thesis by (simp add: demo_facts demo_cost_def inLoopThread_def demo_bfs)
qed

text \<open>A failed notification leaves a dangling operation. When the notification fails,
  \<open>runOnEventLoopAndWait\<close> returns \<open>false\<close> to its caller, but the closure that it has enqueued stays in
  the queue; the loop runs it later and writes to the frame of the call, which no longer exists.\<close>

theorem loop_failed_wait_dangles:
  assumes "represents (notify_queue s) []" and "nodes (notify_queue s) a = None" and "notify_type s \<noteq> EVENTFD"
    and "\<not> inLoopThread other (reg s)"
    and "fst (k_write (lp_kernel env) (snd (notify_fds s)) (replicate 8 (Some (CHR 0x01))) 1 (bos s)) \<le> 0"
  shows "\<exists>s1. runOnEventLoopAndWait env other a f op later s = Inr (Returns False, s1) \<and>
    runOpsInQueue (Suc k) env s1 = Inl Use_After_Free"
proof -
  let ?s = "s\<lparr>frames := (frames s)(f \<mapsto> False)\<rparr>"
  obtain r q w where p: "runOnEventLoop env other a (Notify_Op op f) later ?s = Inr (r, ?s\<lparr>notify_queue := q, bos := w\<rparr>)"
    "represents q [Notify_Op op f]"
    "(r, w) = (let (n, w) = xwrite (lp_kernel env) (snd (notify_fds s)) (replicate 8 (Some (CHR 0x01))) 1 (bos s)
       in (n > 0, w))"
    using push_elsewhere [of ?s "[]" a later other env "Notify_Op op f"] assms(1-4) by auto
  have "\<not> r" using p(3) assms(5) by (auto simp: xwrite_def split: prod.splits)
  let ?t = "?s\<lparr>notify_queue := q, bos := w, frames := (frames ?s)(f := None)\<rparr>"
  have "runOnEventLoopAndWait env other a f op later s = Inr (Returns False, ?t)"
    using p(1) \<open>\<not> r\<close> assms(4) by (simp add: runOnEventLoopAndWait_def)
  moreover from mq.pop_some [OF p(2)] obtain q' where "mpsc_pop q = Inr (Some (Notify_Op op f), q')" by blast
  then have "runOpsInQueue (Suc k) env ?t = Inl Use_After_Free" by simp
  ultimately show ?thesis by blast
qed

theorem loop_failed_wait_dangles_witness:
  "\<exists>s1. runOnEventLoopAndWait (demo_env False) 7 1 0 (Client_Op 4) False (demo_base 5) = Inr (Returns False, s1) \<and>
    runOpsInQueue 1 (demo_env False) s1 = Inl Use_After_Free"
proof -
  have "fst (k_write (lp_kernel (demo_env False)) (snd (notify_fds (demo_base 5)))
      (replicate 8 (Some (CHR 0x01))) 1 (bos (demo_base 5))) \<le> 0" "\<not> inLoopThread 7 (reg (demo_base 5))"
    by (simp_all add: demo_env_def pipe_kernel_def inLoopThread_def demo_facts)
  from loop_failed_wait_dangles [OF demo_facts(7) demo_facts(9) demo_facts(8) this(2,1), of 1 0 "Client_Op 4" False 0]
  show ?thesis by simp
qed

text \<open>Calls of \<open>runOnEventLoop\<close> by other threads, one after the other.\<close>

fun other_calls :: "('l, 'w) loop_env \<Rightarrow> (thread \<times> addr \<times> loop_op \<times> bool) list \<Rightarrow> ('l, 'w) LibeventEventBase \<Rightarrow>
    fault + ('l, 'w) LibeventEventBase" where
  "other_calls env [] s = Inr s"
| "other_calls env ((t, a, op, later) # cs) s =
     bindE (runOnEventLoop env t a op later s) (\<lambda>(r, s). other_calls env cs s)"

lemma elsewhere_keep:
  assumes "runOnEventLoop env t a op d s = Inr (r, s')" "\<not> inLoopThread t (reg s)"
  shows "\<exists>q w. s' = s\<lparr>notify_queue := q, bos := w\<rparr>"
proof -
  from assms obtain k q where "mpsc_push a op (notify_queue s) = Inr (k, q)"
    and s': "(if k then signalNotifyQueue env (s\<lparr>notify_queue := q\<rparr>) else Inr (True, s\<lparr>notify_queue := q\<rparr>)) = Inr (r, s')"
    by (auto simp: runOnEventLoop_def bindE_eq_Inr Let_def)
  show ?thesis
  proof (cases k)
    case True
    with s' show ?thesis by (auto simp: signalNotifyQueue_def split: if_splits prod.splits)
  next
    case False
    with s' have "s' = s\<lparr>notify_queue := q, bos := bos s\<rparr>" by auto
    then show ?thesis by blast
  qed
qed

lemma other_calls_keep:
  "other_calls env cs s = Inr s' \<Longrightarrow> \<forall>c \<in> set cs. \<not> inLoopThread (fst c) (reg s) \<Longrightarrow>
   \<exists>q w. s' = s\<lparr>notify_queue := q, bos := w\<rparr>"
proof (induction cs arbitrary: s)
  case Nil
  then have "s' = s\<lparr>notify_queue := notify_queue s, bos := bos s\<rparr>" by simp
  then show ?case by blast
next
  case (Cons c cs)
  obtain t a op d where c: "c = (t, a, op, d)" by (cases c)
  with Cons.prems obtain r s1 where
    s1: "runOnEventLoop env t a op d s = Inr (r, s1)" "other_calls env cs s1 = Inr s'" by (auto simp: bindE_eq_Inr)
  from elsewhere_keep [OF s1(1)] Cons.prems(2) c obtain q w where q: "s1 = s\<lparr>notify_queue := q, bos := w\<rparr>" by auto
  have "\<forall>c \<in> set cs. \<not> inLoopThread (fst c) (reg s1)" using Cons.prems(2) q by simp
  from Cons.IH [OF s1(2) this] q show ?case by auto
qed

text \<open>C37: The loop thread waits for itself. \<open>stop\<close> called on the loop thread,
  from a handler or an operation, with any queue, sets the termination flag and then waits for a
  flag that only the return of \<open>loop\<close> on the same thread sets; likewise a deferred
  \<open>runOnEventLoopAndWait\<close> waits for an operation that only the same thread can run,
  whether the queue was empty (and its wake-up was written) or not. No call of
  \<open>runOnEventLoop\<close> by other threads ends the wait.\<close>

theorem loop_thread_waits_for_itself:
  assumes "loopThread (reg s) = self" and "self \<noteq> 0" and "\<not> finished s" and "\<forall>c \<in> set cs. fst c \<noteq> self"
    and "represents (notify_queue s) xs" and "nodes (notify_queue s) a = None" and "notify_type s \<noteq> EVENTFD"
    and "xs \<noteq> [] \<or> fst (k_write (lp_kernel env) (snd (notify_fds s)) (replicate 8 (Some (CHR 0x01))) 1 (bos s)) > 0"
  shows "\<exists>s1 t1. EventBase_stop env self a s = Inr (True, s1) \<and> terminate s1 \<and>
    (\<forall>s2. other_calls env cs s1 = Inr s2 \<longrightarrow> \<not> finished s2) \<and>
    runOnEventLoopAndWait env self a f op True s = Inr (Awaits f, t1) \<and>
    represents (notify_queue t1) (xs @ [Notify_Op op f]) \<and>
    (\<forall>t2. other_calls env cs t1 = Inr t2 \<longrightarrow> await_frame f t2 = (Awaits f, t2))"
proof -
  have other: "\<not> inLoopThread (fst c) b" if "c \<in> set cs" "loopThread b = self" for c and b :: "'a EventBase"
    using that assms(2,4) by (auto simp: inLoopThread_def)
  let ?s1 = "s\<lparr>ran := ran s @ [Stop_Op], terminate := True,
    reg := (reg s)\<lparr>lbase := lp_loopexit env (lbase (reg s))\<rparr>\<rparr>"
  have s1: "EventBase_stop env self a s = Inr (True, ?s1)"
    using assms(1,3) by (simp add: EventBase_stop_def runOnEventLoop_def inLoopThread_def)
  have s2: "\<not> finished s2" if "other_calls env cs ?s1 = Inr s2" for s2
    using other_calls_keep [OF that] other assms(1,3) by auto
  let ?s = "s\<lparr>frames := (frames s)(f \<mapsto> False)\<rparr>"
  obtain r q w where p: "runOnEventLoop env self a (Notify_Op op f) True ?s = Inr (r, ?s\<lparr>notify_queue := q, bos := w\<rparr>)"
    "represents q (xs @ [Notify_Op op f])" "xs \<noteq> [] \<longrightarrow> r"
    "xs = [] \<longrightarrow> (r, w) = (let (n, w) = xwrite (lp_kernel env) (snd (notify_fds s)) (replicate 8 (Some (CHR 0x01))) 1 (bos s)
       in (n > 0, w))"
    using push_elsewhere [of ?s xs a True self env "Notify_Op op f"] assms(5-7) by auto
  have r using p(3,4) assms(8) by (cases "xs = []") (auto simp: xwrite_def split: prod.splits)
  let ?t1 = "?s\<lparr>notify_queue := q, bos := w\<rparr>"
  have t1: "runOnEventLoopAndWait env self a f op True s = Inr (Awaits f, ?t1)"
    using p(1) \<open>r\<close> by (simp add: runOnEventLoopAndWait_def await_frame_def)
  have "await_frame f t2 = (Awaits f, t2)" if "other_calls env cs ?t1 = Inr t2" for t2
    using other_calls_keep [OF that] other assms(1) by (auto simp: await_frame_def)
  with s1 s2 t1 p(2) show ?thesis by auto
qed

theorem loop_thread_waits_for_itself_witness:
  "\<exists>s1 t1. EventBase_stop (demo_env True) 5 2 (demo_base 5) = Inr (True, s1) \<and>
    (\<forall>s2. other_calls (demo_env True) [(7, 3, Client_Op 6, False)] s1 = Inr s2 \<longrightarrow> \<not> finished s2) \<and>
    runOnEventLoopAndWait (demo_env True) 5 2 0 (Client_Op 6) True (demo_base 5) = Inr (Awaits 0, t1)"
proof -
  have "fst (k_write (lp_kernel (demo_env True)) (snd (notify_fds (demo_base 5)))
      (replicate 8 (Some (CHR 0x01))) 1 (bos (demo_base 5))) > 0" by (simp add: demo_env_def pipe_kernel_def)
  moreover have "\<forall>c \<in> set [(7 :: thread, 3 :: addr, Client_Op 6, False)]. fst c \<noteq> 5" by simp
  ultimately show ?thesis
    using loop_thread_waits_for_itself [OF demo_facts(10) _ demo_facts(13) _ demo_facts(7) _ demo_facts(8),
        of 5 "[(7, 3, Client_Op 6, False)]" 2 "demo_env True" 0 "Client_Op 6"]
      demo_facts(9) by auto
qed

text \<open>\<open>stop\<close> while no loop runs stops the next one. Called after a loop has returned, \<open>stop\<close> returns
  at once, but it leaves the termination flag set: the next \<open>loop\<close>, even in mode \<open>FOREVER\<close>, returns
  after one turn.\<close>

theorem loop_stop_is_remembered:
  assumes "clients_ok env spawn" and "cost_ok spawn cost" and "handlers_ok env" and "event_loop_ok env"
    and "\<forall>l. fst (event_del (lp_le env) Ev_Persistent l) \<noteq> - 1"
    and "\<forall>tv l. fst (event_add (lp_le env) Ev_Persistent tv l) = 0"
    and "represents (notify_queue s) xs" and "\<forall>x \<in> set xs. runnable (frames s) x"
    and "total_cost cost xs < lp_fuel env" and "loopThread (reg s) = 0" and "finished s"
  shows "\<exists>s1 s2. EventBase_stop env other a s = Inr (False, s1) \<and> terminate s1 \<and>
    EventBase_loop (Suc k) env self FOREVER s1 = Inr (Started s2) \<and> finished s2 \<and> \<not> terminate s2 \<and>
    ran s2 = ran s @ Stop_Op # bfs spawn (lp_fuel env) xs"
proof -
  let ?s1 = "s\<lparr>ran := ran s @ [Stop_Op], terminate := True,
    reg := (reg s)\<lparr>lbase := lp_loopexit env (lbase (reg s))\<rparr>\<rparr>"
  have s1: "EventBase_stop env other a s = Inr (False, ?s1)"
    using assms(10,11) by (simp add: EventBase_stop_def runOnEventLoop_def inLoopThread_def)
  obtain rc l where e: "event_add (lp_le env) Ev_Persistent (Some \<lparr>tv_sec = 3600, tv_usec = 0\<rparr>)
      (event_assign (lp_le env) Ev_Persistent (- 1) (short (EV_PERSIST (le_flags (lp_le env)))) persistentTimerCb
        (lbase (reg ?s1))) = (rc, l)" by force
  have "rc = 0" using assms(6) [rule_format, where tv = "Some \<lparr>tv_sec = 3600, tv_usec = 0\<rparr>"] e by (metis fst_conv)
  with loop_start_forever [OF e, of self] obtain b where
    b: "loop_start env self FOREVER ?s1 = Started (?s1\<lparr>reg := b, finished := False\<rparr>)" by auto
  let ?t = "?s1\<lparr>reg := b, finished := False\<rparr>"
  have "represents (notify_queue ?t) xs" "\<forall>x \<in> set xs. runnable (frames ?t) x"
    "terminate ?t \<or> Stop_Op \<in> leaf ` set xs" using assms(7,8) by simp_all
  from turn_stops [OF assms(1-4) this(1,2) assms(9) this(3), of k FOREVER] obtain u where
    u: "loop_turns (Suc k) env FOREVER ?t = Inr u" "ran u = ran ?t @ bfs spawn (lp_fuel env) xs" by blast
  from finish_ok [OF assms(5)] obtain s2 where "loop_finish env FOREVER u = Inr s2" "finished s2" "\<not> terminate s2"
    "ran s2 = ran u" by blast
  then have "EventBase_loop (Suc k) env self FOREVER ?s1 = Inr (Started s2) \<and> finished s2 \<and> \<not> terminate s2 \<and>
    ran s2 = ran s @ Stop_Op # bfs spawn (lp_fuel env) xs"
    using u by (simp add: EventBase_loop_def b del: loop_turns.simps)
  then show ?thesis using s1 by auto
qed

theorem loop_stop_is_remembered_witness:
  "\<exists>s1 s2. EventBase_stop (demo_env True) 7 1 ((demo_base 0)\<lparr>finished := True\<rparr>) = Inr (False, s1) \<and>
    EventBase_loop 1 (demo_env True) 5 FOREVER s1 = Inr (Started s2) \<and> finished s2 \<and> ran s2 = [Stop_Op]"
proof -
  let ?s = "(demo_base 0)\<lparr>finished := True\<rparr>"
  have "\<forall>tv l. fst (event_add (lp_le (demo_env True)) Ev_Persistent tv l) = 0"
    "represents (notify_queue ?s) []" "\<forall>x \<in> set []. runnable (frames ?s) x" "total_cost demo_cost [] < lp_fuel (demo_env True)"
    "loopThread (reg ?s) = 0" "finished ?s"
    by (simp_all add: demo_facts) (simp add: demo_env_def libevent_model_def demo_base_def)+
  from loop_stop_is_remembered [OF demo_facts(1-5) this, of 7 1 0 5] show ?thesis by (auto simp: demo_facts eval_nat_numeral)
qed

text \<open>A loop that fails to start locks the base. When the persistent timer cannot be added, \<open>loop\<close>
  throws and leaves the loop thread recorded: from then on every registration from another thread
  fails its assertion, and operations of other threads are queued for a loop that does not run.\<close>

theorem loop_start_failure_locks_base:
  assumes "fst (event_add (lp_le env) Ev_Persistent (Some \<lparr>tv_sec = 3600, tv_usec = 0\<rparr>)
      (event_assign (lp_le env) Ev_Persistent (- 1) (short (EV_PERSIST (le_flags (lp_le env)))) persistentTimerCb
        (lbase (reg s)))) \<noteq> 0"
    and "self \<noteq> 0" and "other \<noteq> self"
  shows "\<exists>s'. EventBase_loop fuel env self FOREVER s = Inr (Threw ''Internal error starting loop'' s') \<and>
    \<not> inLoopThread other (reg s') \<and>
    registerHandler (lp_le env) other h what (reg s') = Inl (Assert_Failed ''inLoopThread()'') \<and>
    unregisterTimeout (lp_le env) other t (reg s') = Inl (Assert_Failed ''inLoopThread()'')"
proof -
  obtain rc l where e: "event_add (lp_le env) Ev_Persistent (Some \<lparr>tv_sec = 3600, tv_usec = 0\<rparr>)
      (event_assign (lp_le env) Ev_Persistent (- 1) (short (EV_PERSIST (le_flags (lp_le env)))) persistentTimerCb
        (lbase (reg s))) = (rc, l)" by force
  with assms(1) loop_start_forever [OF e, of self] obtain b where
    b: "loop_start env self FOREVER s = Threw ''Internal error starting loop'' (s\<lparr>reg := b, finished := False\<rparr>)"
    "loopThread b = self" by auto
  then have "\<not> inLoopThread other b" using assms(2,3) by (simp add: inLoopThread_def)
  with b show ?thesis by (simp add: EventBase_loop_def registerHandler_def unregisterTimeout_def)
qed

theorem loop_start_failure_locks_base_witness:
  "\<exists>s'. EventBase_loop 1 ((demo_env True)\<lparr>lp_le := libevent_model\<lparr>event_add := \<lambda>e tv l. (- 1, l)\<rparr>\<rparr>) 5 FOREVER (demo_base 0) =
      Inr (Threw ''Internal error starting loop'' s') \<and> \<not> inLoopThread 7 (reg s')"
proof -
  let ?env = "(demo_env True)\<lparr>lp_le := libevent_model\<lparr>event_add := \<lambda>e tv l. (- 1, l)\<rparr>\<rparr>"
  have "fst (event_add (lp_le ?env) Ev_Persistent (Some \<lparr>tv_sec = 3600, tv_usec = 0\<rparr>)
      (event_assign (lp_le ?env) Ev_Persistent (- 1) (short (EV_PERSIST (le_flags (lp_le ?env)))) persistentTimerCb
        (lbase (reg (demo_base 0))))) \<noteq> 0" "(5 :: thread) \<noteq> 0" "(7 :: thread) \<noteq> 5"
    by simp_all
  from loop_start_failure_locks_base [OF this] show ?thesis by blast
qed

text \<open>C33: A base from its construction to its destruction. A new base has a handler on the read end of
  its notification pipe and watches that descriptor for reading; no thread is recorded as running
  its loop, its queue is empty, and no other handler is affected. Destroying it with whatever
  operations are still queued removes the notification event from libevent, frees every node of the
  queue and closes both descriptors, the read end first (here both are positive: the code skips
  the others).\<close>

theorem base_lifecycle:
  assumes "libevent_ok (lp_le env)" and "reg_inv (lp_le env) (b\<lparr>lbase := l\<rparr>)"
    and "\<not> event_pending (lp_le env) (Ev_Handler h) l" and "lp_pipe env w = (0, fd0, fd1, w')"
    and "fd0 > 0" and "fd1 > 0" and "\<forall>l e. event_pending (lp_le env) e (lp_base_free env l) \<longrightarrow> event_pending (lp_le env) e l"
    and "represents q xs" and "length xs < k"
  shows "\<exists>s s'. LibeventEventBase_init env other l h a b w = Inr s \<and> represents (notify_queue s) [] \<and>
    loopThread (reg s) = 0 \<and> notify_handler s = h \<and> map_option eh_fd (handlers (reg s) h) = Some fd0 \<and>
    (\<forall>g. g \<noteq> h \<longrightarrow> map_option eh_fd (handlers (reg s) g) = map_option eh_fd (handlers b g)) \<and>
    watching (lp_le env) (reg s) = (watching (lp_le env) (b\<lparr>lbase := l\<rparr>))(h := READ) \<and>
    LibeventEventBase_destroy env other k (s\<lparr>notify_queue := q\<rparr>) = Inr s' \<and>
    \<not> event_pending (lp_le env) (Ev_Handler h) (lbase (reg s')) \<and> handlers (reg s') h = None \<and>
    nodes (notify_queue s') = Map.empty \<and>
    bos s' = snd (xclose (lp_kernel env) fd1 (snd (xclose (lp_kernel env) fd0 w')))"
proof -
  let ?le = "lp_le env" and ?b = "b\<lparr>lbase := l\<rparr>"
  let ?b1 = "b\<lparr>lbase := l, loopThread := 0, handlers := (handlers b)(h \<mapsto> EventHandler_new fd0)\<rparr>"
  have eh: "handlers ?b1 h = Some (EventHandler_new fd0)" "EventHandler_base (EventHandler_new fd0) = None" "usable ?b1 h"
    by (simp_all add: EventHandler_new_def usable_def eh_defs)
  have "reg_inv ?le ?b1" using assms(2,3) by (simp add: reg_inv_def handler_registered_def timeout_registered_def)
  from register_internal_ok [OF assms(1) this eh(1) _ eh(3), of READ True other] obtain b2 where
    b2: "registerHandlerInternal ?le other h READ True ?b1 = Inr b2" "reg_inv ?le b2"
    "watching ?le b2 = (watching ?le ?b1)(h := READ)" "same_base ?b1 b2" "handler_registered b2 h" by auto
  have w: "watching ?le b2 = (watching ?le ?b)(h := READ)"
    using b2(3) by (auto simp: fun_eq_iff watching_def eh_defs split: option.splits)
  have th: "inLoopThread other b2" and us: "usable b2 h" using b2(4) eh(3) by (simp_all add: same_base_def inLoopThread_def)
  have fds: "loopThread b2 = 0" "map_option eh_fd (handlers b2 h) = Some fd0"
    "\<forall>g. g \<noteq> h \<longrightarrow> map_option eh_fd (handlers b2 g) = map_option eh_fd (handlers b g)"
    using b2(4) by (simp_all add: same_base_def EventHandler_new_def)
  let ?s = "\<lparr>reg = b2, terminate = False, finished = False, notify_type = PIPE, notify_queue = mpsc_init Empty_Op a,
    notify_fds = (fd0, fd1), notify_handler = h, frames = Map.empty, bos = w', ran = []\<rparr>"
  have init: "LibeventEventBase_init env other l h a b w = Inr ?s"
    using b2(1) assms(4) by (simp add: LibeventEventBase_init_def initNotify_def)
  obtain eh2 where eh2: "handlers b2 h = Some eh2" "EventHandler_base eh2 \<noteq> None"
    using b2(5) by (auto simp: handler_registered_def eh_defs split: option.splits)
  from unregister_ok [OF assms(1) b2(2) th us] obtain b3 where
    b3: "unregisterHandler ?le other h b2 = Inr b3" "same_base b2 b3" "\<not> event_pending ?le (Ev_Handler h) (lbase b3)"
    by blast
  obtain eh3 where eh3: "handlers b3 h = Some eh3" using b3(2) eh2(1) by (auto simp: same_base_def dest!: spec [of _ h])
  let ?b4 = "b3\<lparr>lbase := lp_base_free env (lbase b3), handlers := (handlers b3)(h := None)\<rparr>"
  from destroy_represents [OF assms(8,9)] obtain q' where q': "mpsc_destroy k q = Inr q'" "nodes q' = Map.empty" by blast
  let ?w = "snd (xclose (lp_kernel env) fd1 (snd (xclose (lp_kernel env) fd0 w')))"
  have "LibeventEventBase_destroy env other k (?s\<lparr>notify_queue := q\<rparr>) = Inr (?s\<lparr>reg := ?b4, bos := ?w, notify_queue := q'\<rparr>)"
    using b3(1) eh2 eh3 q'(1) assms(5,6)
    by (simp add: LibeventEventBase_destroy_def EventHandler_unregister_def EventHandler_destroy_def lookup_handler_def Let_def)
  moreover have "\<not> event_pending ?le (Ev_Handler h) (lbase ?b4)" using b3(3) assms(7) by auto
  ultimately show ?thesis using init w fds q'(2) represents_init
    by (intro exI [of _ ?s] exI [of _ "?s\<lparr>reg := ?b4, bos := ?w, notify_queue := q'\<rparr>"]) simp
qed

theorem base_lifecycle_witness:
  "\<exists>s s'. LibeventEventBase_init (demo_env True) 5 (\<lambda>_. (0, False)) 9 0 base_model 0 = Inr s \<and>
    map_option eh_fd (handlers (reg s) 9) = Some 3 \<and> watching libevent_model (reg s) = (\<lambda>_. NONE)(9 := READ) \<and>
    LibeventEventBase_destroy (demo_env True) 5 1 s = Inr s' \<and> nodes (notify_queue s') = Map.empty"
proof -
  have b: "base_model\<lparr>lbase := \<lambda>_. (0, False)\<rparr> = base_model" by (simp add: base_model_def)
  have p: "libevent_ok (lp_le (demo_env True))" "reg_inv (lp_le (demo_env True)) (base_model\<lparr>lbase := \<lambda>_. (0, False)\<rparr>)"
    "\<not> event_pending (lp_le (demo_env True)) (Ev_Handler 9) (\<lambda>_. (0, False))" "lp_pipe (demo_env True) 0 = (0, 3, 4, 0)"
    "\<forall>l e. event_pending (lp_le (demo_env True)) e (lp_base_free (demo_env True) l) \<longrightarrow>
       event_pending (lp_le (demo_env True)) e l"
    using libevent_model_ok base_model_ok(2) b by (simp_all add: demo_env_def) (simp_all add: libevent_model_def)
  have i: "notify_queue s = mpsc_init Empty_Op 0"
    if "LibeventEventBase_init (demo_env True) 5 (\<lambda>_. (0, False)) 9 0 base_model 0 = Inr s" for s
    using that by (auto simp: LibeventEventBase_init_def bindE_eq_Inr split: prod.splits)
  from base_lifecycle [OF p(1-4) _ _ p(5) represents_init, of 1 5 0 Empty_Op 0] obtain s s' where
    s: "LibeventEventBase_init (demo_env True) 5 (\<lambda>_. (0, False)) 9 0 base_model 0 = Inr s"
    "map_option eh_fd (handlers (reg s) 9) = Some 3" "watching libevent_model (reg s) = (watching libevent_model base_model)(9 := READ)"
    "LibeventEventBase_destroy (demo_env True) 5 1 (s\<lparr>notify_queue := mpsc_init Empty_Op 0\<rparr>) = Inr s'"
    "nodes (notify_queue s') = Map.empty"
    by (auto simp: b) (simp add: demo_env_def)
  have "s\<lparr>notify_queue := mpsc_init Empty_Op 0\<rparr> = s" using i [OF s(1)] by simp
  then show ?thesis using s base_model_ok(7) by auto
qed

end
