(* ===== verification/Connection_Listener.thy ===== *)
theory Connection_Listener
  imports Event_Registry Sys_Kernel
begin

text \<open>
  The connection listener of \<open>src/src/libevent_connection_listener.cc\<close>: binding, listening,
  accepting, and what becomes of the descriptors on every path.

  The accept and error callbacks are client code, a parameter; \<open>l_events\<close> is a history variable,
  the callbacks invoked so far. \<open>bind\<close> and \<open>listen\<close> throw: their result is the message of the
  exception, or none, with the state that is left behind.
\<close>

datatype accept_event = Accepted int | Accept_Error string

record ('l, 'w) listener =
  l_base :: "'l EventBase"
  l_port :: "16 word"
  l_handler :: hid
  l_os :: 'w
  l_events :: "accept_event list"

record ('l, 'w) listener_env =
  ls_le :: "'l libevent"
  ls_kernel :: "'w kernel"
  ls_self :: thread
  ls_invoke :: "accept_event \<Rightarrow> ('l, 'w) listener \<Rightarrow> fault + ('l, 'w) listener"

definition Listener_init :: "'l EventBase \<Rightarrow> hid \<Rightarrow> 'w \<Rightarrow> ('l, 'w) listener" where
  "Listener_init b h w = \<lparr>l_base = b\<lparr>handlers := (handlers b)(h \<mapsto> EventHandler_new (- 1))\<rparr>, l_port = 0,
     l_handler = h, l_os = w, l_events = []\<rparr>"

definition l_fd :: "('l, 'w) listener \<Rightarrow> fault + int" where
  "l_fd s = bindE (lookup_handler (l_handler s) (l_base s)) (\<lambda>eh. Inr (eh_fd eh))"

definition l_setFd :: "int \<Rightarrow> ('l, 'w) listener \<Rightarrow> fault + ('l, 'w) listener" where
  "l_setFd fd s = bindE (lookup_handler (l_handler s) (l_base s)) (\<lambda>eh.
     bindE (EventHandler_setFd fd eh) (\<lambda>eh'.
     Inr (s\<lparr>l_base := (l_base s)\<lparr>handlers := (handlers (l_base s))(l_handler s \<mapsto> eh')\<rparr>\<rparr>)))"

definition Listener_destroy :: "('l, 'w) listener_env \<Rightarrow> ('l, 'w) listener \<Rightarrow> fault + ('l, 'w) listener" where
  "Listener_destroy env s =
     bindE (EventHandler_unregister (ls_le env) (ls_self env) (l_handler s) (l_base s)) (\<lambda>b.
     let s = s\<lparr>l_base := b\<rparr> in
     bindE (l_fd s) (\<lambda>fd.
     let s = (if fd \<noteq> - 1 then s\<lparr>l_os := snd (xclose (ls_kernel env) fd (l_os s))\<rparr> else s) in
     bindE (EventHandler_destroy (l_handler s) (l_base s)) (\<lambda>b. Inr (s\<lparr>l_base := b\<rparr>))))"

subsection \<open>bind and listen\<close>

text \<open>What follows the loop of \<open>bind\<close>: close the socket, if there is one, and throw.\<close>

definition bind_fails ::
  "('l, 'w) listener_env \<Rightarrow> int \<Rightarrow> string \<Rightarrow> ('l, 'w) listener \<Rightarrow> fault + string option \<times> ('l, 'w) listener" where
  "bind_fails env fd error s =
     Inr (Some error, if fd \<noteq> - 1 then s\<lparr>l_os := snd (xclose (ls_kernel env) fd (l_os s))\<rparr> else s)"

definition Listener_bind_addr ::
  "('l, 'w) listener_env \<Rightarrow> string \<Rightarrow> 16 word \<Rightarrow> ('l, 'w) listener \<Rightarrow>
     fault + string option \<times> ('l, 'w) listener" where
  "Listener_bind_addr env ip_addr port s =
     (let k = ls_kernel env; (fd, w) = k_socket k (l_os s); s = s\<lparr>l_os := w\<rparr> in
      if fd = - 1 then bind_fails env fd ''Failed to allocate socket'' s
      else
        let (rc, w) = make_socket_nonblocking k fd (l_os s); s = s\<lparr>l_os := w\<rparr> in
        if rc = - 1 then bind_fails env fd ''Failed to set socket non-blocking'' s
        else
          let (rc, w) = make_listen_socket_reuseable k fd (l_os s); s = s\<lparr>l_os := w\<rparr> in
          if rc = - 1 then bind_fails env fd ''Failed to set socket reusable'' s
          else if k_inet_pton k ip_addr \<noteq> 1 then bind_fails env fd ''Failed to convert address'' s
          else
            let (rc, w) = k_bind k fd ip_addr port (l_os s); s = s\<lparr>l_os := w\<rparr> in
            if rc = - 1 then bind_fails env fd ''Failed to bind socket'' s
            else
              let (rc, p, w) = k_getsockname k fd (l_os s); s = s\<lparr>l_os := w\<rparr> in
              if rc = - 1 then bind_fails env fd ''Failed to extract port number from socket'' s
              else bindE (l_setFd fd (s\<lparr>l_port := p\<rparr>)) (\<lambda>s. Inr (None, s)))"

definition Listener_bind ::
  "('l, 'w) listener_env \<Rightarrow> 16 word \<Rightarrow> ('l, 'w) listener \<Rightarrow> fault + string option \<times> ('l, 'w) listener" where
  "Listener_bind env port s = Listener_bind_addr env ''0.0.0.0'' port s"

definition Listener_listen ::
  "('l, 'w) listener_env \<Rightarrow> int \<Rightarrow> ('l, 'w) listener \<Rightarrow> fault + string option \<times> ('l, 'w) listener" where
  "Listener_listen env backlog s =
     bindE (l_fd s) (\<lambda>fd.
     let (rc, w) = k_listen (ls_kernel env) fd backlog (l_os s); s = s\<lparr>l_os := w\<rparr>
     in if rc = - 1 then Inr (Some ''Failed to listen'', s) else Inr (None, s))"

subsection \<open>Accepting\<close>

definition l_invoke :: "('l, 'w) listener_env \<Rightarrow> accept_event \<Rightarrow> ('l, 'w) listener \<Rightarrow> fault + ('l, 'w) listener" where
  "l_invoke env ev s = ls_invoke env ev (s\<lparr>l_events := l_events s @ [ev]\<rparr>)"

definition AcceptHandler_ready :: "('l, 'w) listener_env \<Rightarrow> What \<Rightarrow> ('l, 'w) listener \<Rightarrow> fault + ('l, 'w) listener" where
  "AcceptHandler_ready env event s =
     bindE (l_fd s) (\<lambda>fd.
     let k = ls_kernel env; (socket, w) = k_accept k fd (l_os s); s = s\<lparr>l_os := w\<rparr> in
     if socket < 0 then l_invoke env (Accept_Error ''Failed to accept connection'') s
     else
       let (rc, w) = make_socket_nonblocking k socket (l_os s); s = s\<lparr>l_os := w\<rparr> in
       if rc = - 1 then
         let s = s\<lparr>l_os := snd (xclose k socket (l_os s))\<rparr>
         in l_invoke env (Accept_Error ''Failed to make accepted socket non-blocking'') s
       else l_invoke env (Accepted socket) s)"

definition startAccepting :: "('l, 'w) listener_env \<Rightarrow> ('l, 'w) listener \<Rightarrow> fault + ('l, 'w) listener" where
  "startAccepting env s =
     bindE (registerHandler (ls_le env) (ls_self env) (l_handler s) READ (l_base s)) (\<lambda>b. Inr (s\<lparr>l_base := b\<rparr>))"

definition stopAccepting :: "('l, 'w) listener_env \<Rightarrow> ('l, 'w) listener \<Rightarrow> fault + ('l, 'w) listener" where
  "stopAccepting env s =
     bindE (registerHandler (ls_le env) (ls_self env) (l_handler s) NONE (l_base s)) (\<lambda>b. Inr (s\<lparr>l_base := b\<rparr>))"

subsection \<open>Descriptors\<close>

text \<open>
  What POSIX says of descriptors: \<open>socket\<close> and \<open>accept\<close> return -1 and open nothing, or return a
  descriptor that was not open and open it; \<open>close\<close> of an open descriptor closes it; the other
  calls open and close nothing.
\<close>

definition posix_fds :: "'w kernel \<Rightarrow> ('w \<Rightarrow> int set) \<Rightarrow> bool" where
  "posix_fds k opened \<longleftrightarrow>
     (\<forall>w fd w'. k_socket k w = (fd, w') \<longrightarrow>
        (fd = - 1 \<and> opened w' = opened w) \<or> (fd \<ge> 0 \<and> fd \<notin> opened w \<and> opened w' = insert fd (opened w))) \<and>
     (\<forall>l w fd w'. k_accept k l w = (fd, w') \<longrightarrow>
        (fd = - 1 \<and> opened w' = opened w) \<or> (fd \<ge> 0 \<and> fd \<notin> opened w \<and> opened w' = insert fd (opened w))) \<and>
     (\<forall>fd w. opened (snd (k_close k fd w)) = opened w - {fd}) \<and>
     (\<forall>fd w. opened (snd (make_socket_nonblocking k fd w)) = opened w) \<and>
     (\<forall>fd w. opened (snd (make_listen_socket_reuseable k fd w)) = opened w) \<and>
     (\<forall>fd ip p w. opened (snd (k_bind k fd ip p w)) = opened w) \<and>
     (\<forall>fd w. opened (snd (snd (k_getsockname k fd w))) = opened w) \<and>
     (\<forall>fd n w. opened (snd (k_listen k fd n w)) = opened w)"

lemma posix_fdsD:
  assumes "posix_fds k opened"
  shows "k_socket k w = (fd, w') \<Longrightarrow>
      (fd = - 1 \<and> opened w' = opened w) \<or> (fd \<ge> 0 \<and> fd \<notin> opened w \<and> opened w' = insert fd (opened w))"
    and "k_accept k l w = (fd, w') \<Longrightarrow>
      (fd = - 1 \<and> opened w' = opened w) \<or> (fd \<ge> 0 \<and> fd \<notin> opened w \<and> opened w' = insert fd (opened w))"
    and "k_close k fd w = (rc, w') \<Longrightarrow> opened w' = opened w - {fd}"
    and "make_socket_nonblocking k fd w = (rc, w') \<Longrightarrow> opened w' = opened w"
    and "make_listen_socket_reuseable k fd w = (rc, w') \<Longrightarrow> opened w' = opened w"
    and "k_bind k fd ip p w = (rc, w') \<Longrightarrow> opened w' = opened w"
    and "k_getsockname k fd w = (rc, p, w') \<Longrightarrow> opened w' = opened w"
    and "k_listen k fd n w = (rc, w') \<Longrightarrow> opened w' = opened w"
  using assms unfolding posix_fds_def by (metis snd_conv)+

text \<open>The listener has a handler that is not registered, or is not yet.\<close>

definition the_handler_fd :: "('l, 'w) listener \<Rightarrow> int" where
  "the_handler_fd s = (case handlers (l_base s) (l_handler s) of None \<Rightarrow> - 1 | Some eh \<Rightarrow> eh_fd eh)"

definition idle :: "('l, 'w) listener \<Rightarrow> bool" where
  "idle s \<longleftrightarrow> (\<exists>eh. handlers (l_base s) (l_handler s) = Some eh \<and> \<not> EventHandler_registered eh)"

lemma bind_fails_closes:
  assumes "posix_fds (ls_kernel env) opened" "fd \<noteq> - 1" "opened (l_os s) = insert fd F" "fd \<notin> F"
  shows "\<exists>w. bind_fails env fd msg s = Inr (Some msg, s\<lparr>l_os := w\<rparr>) \<and> opened w = F"
proof -
  obtain rc w where c: "k_close (ls_kernel env) fd (l_os s) = (rc, w)" by force
  from posix_fdsD(3) [OF assms(1) c] assms(3,4) have "opened w = F" by auto
  with c assms(2) show ?thesis by (auto simp: bind_fails_def xclose_def)
qed

lemma bind_cases:
  assumes k: "posix_fds (ls_kernel env) opened" and i: "idle s"
  shows "(\<exists>msg w. Listener_bind_addr env ip port s = Inr (Some msg, s\<lparr>l_os := w\<rparr>) \<and> opened w = opened (l_os s)) \<or>
    (\<exists>fd s'. Listener_bind_addr env ip port s = Inr (None, s') \<and> fd \<ge> 0 \<and> fd \<notin> opened (l_os s) \<and>
       opened (l_os s') = insert fd (opened (l_os s)) \<and> the_handler_fd s' = fd \<and> idle s' \<and>
       l_handler s' = l_handler s \<and> l_events s' = l_events s \<and>
       l_base s' = (l_base s)\<lparr>handlers := (handlers (l_base s))(l_handler s \<mapsto>
         (the (handlers (l_base s) (l_handler s)))\<lparr>eh_fd := fd\<rparr>)\<rparr>)"
    (is "?fail \<or> ?ok")
proof -
  let ?k = "ls_kernel env" and ?F = "opened (l_os s)"
  obtain fd w1 where 1: "k_socket ?k (l_os s) = (fd, w1)" by force
  obtain r2 w2 where 2: "make_socket_nonblocking ?k fd w1 = (r2, w2)" by force
  obtain r3 w3 where 3: "make_listen_socket_reuseable ?k fd w2 = (r3, w3)" by force
  obtain r5 w5 where 5: "k_bind ?k fd ip port w3 = (r5, w5)" by force
  obtain r6 p w6 where 6: "k_getsockname ?k fd w5 = (r6, p, w6)" by (metis prod.exhaust)
  note eqs = 1 2 3 5 6
  show ?thesis
  proof (cases "fd = - 1")
    case True
    then have "opened w1 = ?F" using posix_fdsD(1) [OF k 1] by auto
    moreover have "Listener_bind_addr env ip port s = Inr (Some ''Failed to allocate socket'', s\<lparr>l_os := w1\<rparr>)"
      using True 1 by (simp add: Listener_bind_addr_def bind_fails_def)
    ultimately show ?thesis by blast
  next
    case False
    then have o1: "opened w1 = insert fd ?F" "fd \<ge> 0" "fd \<notin> ?F" using posix_fdsD(1) [OF k 1] by auto
    have o: "opened w2 = insert fd ?F" "opened w3 = insert fd ?F" "opened w5 = insert fd ?F" "opened w6 = insert fd ?F"
      using posix_fdsD(4) [OF k 2] posix_fdsD(5) [OF k 3] posix_fdsD(6) [OF k 5] posix_fdsD(7) [OF k 6] o1(1) by auto
    have fails: ?fail if "Listener_bind_addr env ip port s = bind_fails env fd msg (s\<lparr>l_os := w\<rparr>)"
      "opened w = insert fd ?F" for msg w
      using bind_fails_closes [OF k False, of "s\<lparr>l_os := w\<rparr>" ?F msg] that o1(3) by auto
    consider "r2 = - 1" | "r2 \<noteq> - 1" "r3 = - 1" | "r2 \<noteq> - 1" "r3 \<noteq> - 1" "k_inet_pton ?k ip \<noteq> 1"
      | "r2 \<noteq> - 1" "r3 \<noteq> - 1" "k_inet_pton ?k ip = 1" "r5 = - 1"
      | "r2 \<noteq> - 1" "r3 \<noteq> - 1" "k_inet_pton ?k ip = 1" "r5 \<noteq> - 1" "r6 = - 1"
      | "r2 \<noteq> - 1" "r3 \<noteq> - 1" "k_inet_pton ?k ip = 1" "r5 \<noteq> - 1" "r6 \<noteq> - 1" by blast
    then show ?thesis
    proof cases
      case 6
      obtain eh where eh: "handlers (l_base s) (l_handler s) = Some eh" "\<not> EventHandler_registered eh"
        using i by (auto simp: idle_def)
      let ?s = "s\<lparr>l_os := w6, l_port := p,
        l_base := (l_base s)\<lparr>handlers := (handlers (l_base s))(l_handler s \<mapsto> eh\<lparr>eh_fd := fd\<rparr>)\<rparr>\<rparr>"
      have "Listener_bind_addr env ip port s = Inr (None, ?s)"
        using 6 eqs False eh by (simp add: Listener_bind_addr_def l_setFd_def lookup_handler_def EventHandler_setFd_def)
      moreover have "\<not> EventHandler_registered (eh\<lparr>eh_fd := fd\<rparr>)" using eh(2) by (simp add: EventHandler_registered_def)
      ultimately have ?ok using o1 o(4) eh(1) by (auto simp: the_handler_fd_def idle_def)
      then show ?thesis ..
    qed (use eqs False o fails in \<open>simp add: Listener_bind_addr_def\<close>)+
  qed
qed

lemma destroy_ok:
  assumes le: "libevent_ok (ls_le env)" and inv: "reg_inv (ls_le env) (l_base s)"
    and may: "may_register (ls_self env) (l_base s) (l_handler s)" and fd: "the_handler_fd s \<noteq> - 1"
  shows "\<exists>s'. Listener_destroy env s = Inr s' \<and> \<not> event_pending (ls_le env) (Ev_Handler (l_handler s)) (lbase (l_base s')) \<and>
    handlers (l_base s') (l_handler s) = None \<and> l_os s' = snd (xclose (ls_kernel env) (the_handler_fd s) (l_os s))"
proof -
  let ?h = "l_handler s" and ?le = "ls_le env"
  have th: "inLoopThread (ls_self env) (l_base s)" and us: "usable (l_base s) ?h" using may by (simp_all add: may_register_def)
  obtain eh where eh: "handlers (l_base s) ?h = Some eh" using us by (auto simp: usable_def split: option.splits)
  have "\<exists>b eh'. EventHandler_unregister ?le (ls_self env) ?h (l_base s) = Inr b \<and>
    handlers b ?h = Some eh' \<and> eh_fd eh' = eh_fd eh \<and> \<not> event_pending ?le (Ev_Handler ?h) (lbase b)"
  proof (cases "EventHandler_base eh = None")
    case True
    then have "\<not> EventHandler_registered eh" by (auto simp: eh_defs split: option.splits)
    then have "\<not> event_pending ?le (Ev_Handler ?h) (lbase (l_base s))"
      using inv eh by (auto simp: reg_inv_def handler_registered_def)
    with True eh show ?thesis by (simp add: EventHandler_unregister_def lookup_handler_def)
  next
    case False
    from unregister_ok [OF le inv th us] obtain b where
      b: "unregisterHandler ?le (ls_self env) ?h (l_base s) = Inr b" "same_base (l_base s) b"
      "\<not> event_pending ?le (Ev_Handler ?h) (lbase b)" by blast
    have "map_option eh_fd (handlers b ?h) = Some (eh_fd eh)" using b(2) eh by (simp add: same_base_def)
    with False b(1,3) eh show ?thesis by (auto simp: EventHandler_unregister_def lookup_handler_def)
  qed
  then obtain b eh' where b: "EventHandler_unregister ?le (ls_self env) ?h (l_base s) = Inr b"
    "handlers b ?h = Some eh'" "eh_fd eh' = eh_fd eh" "\<not> event_pending ?le (Ev_Handler ?h) (lbase b)" by blast
  then show ?thesis using eh fd
    by (auto simp: Listener_destroy_def l_fd_def lookup_handler_def EventHandler_destroy_def the_handler_fd_def)
qed

text \<open>The base of a listener whose unregistered handler has been given another descriptor.\<close>

lemma rebased:
  assumes "reg_inv le (l_base s)" "may_register self (l_base s) (l_handler s)" "idle s"
    and b: "b = (l_base s)\<lparr>handlers := (handlers (l_base s))(l_handler s \<mapsto>
      (the (handlers (l_base s) (l_handler s)))\<lparr>eh_fd := fd\<rparr>)\<rparr>"
  shows "reg_inv le b" "may_register self b (l_handler s)"
proof -
  obtain eh where eh: "handlers (l_base s) (l_handler s) = Some eh" "\<not> EventHandler_registered eh"
    using assms(3) by (auto simp: idle_def)
  have b': "b = (l_base s)\<lparr>lbase := lbase (l_base s), handlers := (handlers (l_base s))(l_handler s \<mapsto> eh\<lparr>eh_fd := fd\<rparr>)\<rparr>"
    using b eh by simp
  show "reg_inv le b" unfolding b'
    by (rule reg_inv_handler [OF assms(1)])
      (use assms(1) eh in \<open>auto simp: reg_inv_def handler_registered_def EventHandler_registered_def\<close>)
  show "may_register self b (l_handler s)"
    using assms(2) eh unfolding b' by (auto simp: may_register_def usable_def inLoopThread_def EventHandler_base_def)
qed

subsection \<open>A model of the descriptors of a process\<close>

definition fd_kernel :: "bool \<Rightarrow> int list kernel" where
  "fd_kernel can_bind = \<lparr>k_write = (\<lambda>fd buf n w. (- 1, w)), k_read = (\<lambda>fd n w. (- 1, [], w)),
     k_close = (\<lambda>fd w. (0, removeAll fd w)),
     k_socket = (\<lambda>w. (Max (insert 2 (set w)) + 1, (Max (insert 2 (set w)) + 1) # w)),
     make_socket_nonblocking = (\<lambda>fd w. (0, w)), make_listen_socket_reuseable = (\<lambda>fd w. (0, w)), k_inet_pton = (\<lambda>s. 1),
     k_connect = (\<lambda>fd s p w. (- 1, w)), k_bind = (\<lambda>fd s p w. (if can_bind then 0 else - 1, w)),
     k_getsockname = (\<lambda>fd w. (0, 4000, w)), k_listen = (\<lambda>fd n w. (0, w)),
     k_accept = (\<lambda>fd w. (Max (insert 2 (set w)) + 1, (Max (insert 2 (set w)) + 1) # w)),
     socket_geterror = (\<lambda>fd w. 0), getsockopt_error = (\<lambda>fd w. (- 1, 0, w)),
     EINPROGRESS = 115, EAGAIN = 11, EWOULDBLOCK = 11\<rparr>"

lemma fd_kernel_ok: "posix_fds (fd_kernel c) set"
proof -
  have 1: "Max (insert 2 F) + 1 \<notin> F" "Max (insert 2 F) + 1 \<ge> 0" if "finite F" for F :: "int set"
  proof -
    have "x \<in> F \<Longrightarrow> x \<le> Max (insert 2 F)" for x using that by (intro Max_ge) auto
    then show "Max (insert 2 F) + 1 \<notin> F" by force
    have "2 \<le> Max (insert 2 F)" using that by (intro Max_ge) auto
    then show "Max (insert 2 F) + 1 \<ge> 0" by simp
  qed
  show ?thesis using 1 [of "set w" for w] by (auto simp: posix_fds_def fd_kernel_def)
qed

definition listener_model_env :: "bool \<Rightarrow> (event \<Rightarrow> 16 word \<times> bool, int list) listener_env" where
  "listener_model_env c = \<lparr>ls_le = libevent_model, ls_kernel = fd_kernel c, ls_self = 5, ls_invoke = (\<lambda>ev s. Inr s)\<rparr>"

definition listener_model :: "(event \<Rightarrow> 16 word \<times> bool, int list) listener" where
  "listener_model = Listener_init base_model 7 [3]"

lemma listener_model_facts:
  "posix_fds (ls_kernel (listener_model_env c)) set" "libevent_ok (ls_le (listener_model_env c))"
  "idle listener_model" "l_os listener_model = [3]" "l_events listener_model = []"
  "ls_invoke (listener_model_env c) = (\<lambda>ev s. Inr s)"
  "reg_inv libevent_model (l_base listener_model)" "may_register 5 (l_base listener_model) 7"
  using base_model_ok(2) fd_kernel_ok libevent_model_ok(1)
  by (auto simp: listener_model_env_def listener_model_def Listener_init_def idle_def EventHandler_new_def
    EventHandler_registered_def reg_inv_def handler_registered_def base_model_def may_register_def inLoopThread_def
    usable_def EventHandler_base_def libevent_model_def timeout_registered_def)

subsection \<open>Properties\<close>

text \<open>C27: Binding a fresh listener leaks no descriptor. On a listener that has no descriptor
  yet, \<open>bind\<close> to any address and port (\<open>bind(port)\<close> is the one to 0.0.0.0)
  either throws, and then every descriptor that it opened is closed again and the listener is
  unchanged, so that it can be tried again; or it succeeds, and then exactly one descriptor has been
  opened, it is that of the listener's handler, and destroying the listener closes it, which leaves
  open what was open before. A second \<open>bind\<close> on a listener that has a descriptor leaks
  that one (\<open>listener_rebind_leaks\<close>).\<close>

theorem listener_bind_descriptors:
  assumes "posix_fds (ls_kernel env) opened" and "libevent_ok (ls_le env)" and "reg_inv (ls_le env) (l_base s)"
    and "may_register (ls_self env) (l_base s) (l_handler s)" and "idle s" and "the_handler_fd s = - 1"
  shows "(\<exists>msg w. Listener_bind_addr env ip port s = Inr (Some msg, s\<lparr>l_os := w\<rparr>) \<and> opened w = opened (l_os s)) \<or>
    (\<exists>fd s' s''. Listener_bind_addr env ip port s = Inr (None, s') \<and> fd \<notin> opened (l_os s) \<and>
       opened (l_os s') = insert fd (opened (l_os s)) \<and> the_handler_fd s' = fd \<and> idle s' \<and>
       Listener_destroy env s' = Inr s'' \<and> opened (l_os s'') = opened (l_os s))"
proof -
  consider (throws) msg w where "Listener_bind_addr env ip port s = Inr (Some msg, s\<lparr>l_os := w\<rparr>)"
      "opened w = opened (l_os s)"
    | (binds) fd s' where "Listener_bind_addr env ip port s = Inr (None, s')" "fd \<ge> 0" "fd \<notin> opened (l_os s)"
      "opened (l_os s') = insert fd (opened (l_os s))" "the_handler_fd s' = fd" "idle s'" "l_handler s' = l_handler s"
      "l_base s' = (l_base s)\<lparr>handlers := (handlers (l_base s))(l_handler s \<mapsto>
         (the (handlers (l_base s) (l_handler s)))\<lparr>eh_fd := fd\<rparr>)\<rparr>"
    using bind_cases [OF assms(1,5), of ip port] by blast
  then show ?thesis
  proof cases
    case binds
    from rebased [OF assms(3-5) binds(8)] binds(7) have "reg_inv (ls_le env) (l_base s')"
      "may_register (ls_self env) (l_base s') (l_handler s')" by simp_all
    from destroy_ok [OF assms(2) this] binds(2,5) obtain s'' where
      d: "Listener_destroy env s' = Inr s''" "l_os s'' = snd (xclose (ls_kernel env) fd (l_os s'))" by auto
    have "opened (l_os s'') = opened (l_os s)"
      using assms(1) binds(3,4) d(2) by (simp add: posix_fds_def xclose_def)
    with binds d(1) show ?thesis by blast
  qed blast
qed

theorem listener_bind_descriptors_witness:
  "(\<exists>s' s''. Listener_bind (listener_model_env True) 0 listener_model = Inr (None, s') \<and>
      set (l_os s') = {3, 4} \<and> the_handler_fd s' = 4 \<and>
      Listener_destroy (listener_model_env True) s' = Inr s'' \<and> set (l_os s'') = {3}) \<and>
   (\<exists>w. Listener_bind (listener_model_env False) 0 listener_model =
      Inr (Some ''Failed to bind socket'', listener_model\<lparr>l_os := w\<rparr>) \<and> set w = {3})"
proof -
  have e: "fst (projr (Listener_bind (listener_model_env True) 0 listener_model)) = None"
    "\<exists>s. Listener_bind (listener_model_env False) 0 listener_model = Inr (Some ''Failed to bind socket'', s)"
    "the_handler_fd (snd (projr (Listener_bind (listener_model_env True) 0 listener_model))) = 4"
    by (simp_all add: Listener_bind_def Listener_bind_addr_def listener_model_env_def listener_model_def fd_kernel_def
      Listener_init_def l_setFd_def lookup_handler_def EventHandler_setFd_def EventHandler_new_def
      EventHandler_registered_def bind_fails_def xclose_def the_handler_fd_def)
  have m: "reg_inv (ls_le (listener_model_env c)) (l_base listener_model)"
    "may_register (ls_self (listener_model_env c)) (l_base listener_model) (l_handler listener_model)"
    "the_handler_fd listener_model = - 1" for c
    using listener_model_facts(7,8)
    by (simp_all add: listener_model_env_def listener_model_def Listener_init_def the_handler_fd_def EventHandler_new_def)
  note bind = listener_bind_descriptors [OF listener_model_facts(1,2) m(1,2) listener_model_facts(3) m(3),
    of _ "''0.0.0.0''" 0, folded Listener_bind_def]
  from bind [of True] e(1,3) obtain s' s'' where
    "Listener_bind (listener_model_env True) 0 listener_model = Inr (None, s')" "set (l_os s') = {3, 4}"
    "the_handler_fd s' = 4" "Listener_destroy (listener_model_env True) s' = Inr s''" "set (l_os s'') = {3}"
    by (auto simp: listener_model_facts insert_commute)
  moreover from bind [of False] e(2)
  have "\<exists>w. Listener_bind (listener_model_env False) 0 listener_model =
      Inr (Some ''Failed to bind socket'', listener_model\<lparr>l_os := w\<rparr>) \<and> set w = {3}"
    by (auto simp: listener_model_facts)
  ultimately show ?thesis by blast
qed

text \<open>C35: Every accepted descriptor has one owner. Each time the listener is ready it makes exactly one
  callback: either the accept callback, with a newly opened descriptor, or the error callback, and
  then no descriptor is left open.\<close>

theorem listener_accept:
  assumes "posix_fds (ls_kernel env) opened" and "handlers (l_base s) (l_handler s) \<noteq> None"
    and "ls_invoke env = (\<lambda>ev s. Inr s)"
  shows "\<exists>s'. AcceptHandler_ready env what s = Inr s' \<and> l_base s' = l_base s \<and>
    ((\<exists>fd. fd \<notin> opened (l_os s) \<and> opened (l_os s') = insert fd (opened (l_os s)) \<and>
        l_events s' = l_events s @ [Accepted fd]) \<or>
     (\<exists>msg. opened (l_os s') = opened (l_os s) \<and> l_events s' = l_events s @ [Accept_Error msg]))"
proof -
  let ?k = "ls_kernel env" and ?F = "opened (l_os s)"
  obtain eh where eh: "handlers (l_base s) (l_handler s) = Some eh" using assms(2) by blast
  obtain fd w1 where 1: "k_accept ?k (eh_fd eh) (l_os s) = (fd, w1)" by force
  obtain r2 w2 where 2: "make_socket_nonblocking ?k fd w1 = (r2, w2)" by force
  obtain r3 w3 where 3: "k_close ?k fd w2 = (r3, w3)" by force
  have o1: "(fd = - 1 \<and> opened w1 = ?F) \<or> (fd \<ge> 0 \<and> fd \<notin> ?F \<and> opened w1 = insert fd ?F)"
    by (rule posix_fdsD(2) [OF assms(1) 1])
  have o2: "opened w2 = opened w1" "opened w3 = opened w2 - {fd}"
    by (rule posix_fdsD(4) [OF assms(1) 2], rule posix_fdsD(3) [OF assms(1) 3])
  consider "fd = - 1" "opened w1 = ?F" | "fd \<ge> 0" "fd \<notin> ?F" "opened w1 = insert fd ?F" "r2 = - 1"
    | "fd \<ge> 0" "fd \<notin> ?F" "opened w1 = insert fd ?F" "r2 \<noteq> - 1" using o1 by blast
  then show ?thesis
    by cases (use eh 1 2 3 o2 assms(3) in \<open>auto simp: AcceptHandler_ready_def l_fd_def lookup_handler_def l_invoke_def xclose_def\<close>)
qed

theorem listener_accept_witness:
  "\<exists>s'. AcceptHandler_ready (listener_model_env True) READ listener_model = Inr s' \<and> set (l_os s') = {3, 4} \<and>
    l_events s' = [Accepted 4]"
proof -
  have "l_events (projr (AcceptHandler_ready (listener_model_env True) READ listener_model)) = [Accepted 4]"
    by (simp add: AcceptHandler_ready_def listener_model_env_def listener_model_def fd_kernel_def
      Listener_init_def lookup_handler_def l_fd_def l_invoke_def EventHandler_new_def)
  moreover have "handlers (l_base listener_model) (l_handler listener_model) \<noteq> None"
    using listener_model_facts(3) by (auto simp: idle_def)
  ultimately show ?thesis
    using listener_accept [OF listener_model_facts(1) _ listener_model_facts(6), of listener_model True READ]
    by (auto simp: listener_model_facts insert_commute)
qed

text \<open>C28: A listener can be started, stopped and destroyed at any time. Accepting makes the base watch
  its handler for reading and stopping undoes it; destroying it, even while it accepts, removes
  its event from libevent and closes its descriptor and no other.\<close>

theorem listener_lifecycle:
  assumes "posix_fds (ls_kernel env) opened" and "libevent_ok (ls_le env)" and "reg_inv (ls_le env) (l_base s)"
    and "may_register (ls_self env) (l_base s) (l_handler s)" and "the_handler_fd s \<noteq> - 1"
  shows "\<exists>s1 s2. startAccepting env s = Inr s1 \<and> stopAccepting env s1 = Inr s2 \<and>
    watching (ls_le env) (l_base s1) = (watching (ls_le env) (l_base s))(l_handler s := READ) \<and>
    watching (ls_le env) (l_base s2) = (watching (ls_le env) (l_base s))(l_handler s := NONE) \<and>
    (\<forall>t \<in> {s1, s2}. \<exists>t'. Listener_destroy env t = Inr t' \<and> opened (l_os t') = opened (l_os s) - {the_handler_fd s} \<and>
      \<not> event_pending (ls_le env) (Ev_Handler (l_handler s)) (lbase (l_base t')))"
proof -
  let ?h = "l_handler s" and ?le = "ls_le env"
  have fd: "the_handler_fd (s\<lparr>l_base := b\<rparr>) = the_handler_fd s" if "same_base (l_base s) b" for b
  proof -
    have "map_option eh_fd (handlers b ?h) = map_option eh_fd (handlers (l_base s) ?h)" using that by (simp add: same_base_def)
    then show ?thesis by (auto simp: the_handler_fd_def split: option.splits)
  qed
  have reg: "\<exists>b'. registerHandler ?le (ls_self env) ?h w b = Inr b' \<and> reg_inv ?le b' \<and>
      may_register (ls_self env) b' ?h \<and> watching ?le b' = (watching ?le b)(?h := w) \<and> same_base (l_base s) b'"
    if "reg_inv ?le b" "may_register (ls_self env) b ?h" "same_base (l_base s) b" for b w
  proof -
    have "inLoopThread (ls_self env) b" "usable b ?h" using that(2) by (simp_all add: may_register_def)
    from register_ok [OF assms(2) that(1) this, of w] obtain b' where
      b': "registerHandler ?le (ls_self env) ?h w b = Inr b'" "reg_inv ?le b'"
      "watching ?le b' = (watching ?le b)(?h := w)" "same_base b b'" by blast
    then show ?thesis using may_register_same_base [OF b'(4) that(2)] same_base_trans [OF that(3) b'(4)] by blast
  qed
  from reg [OF assms(3,4) same_base_refl, of READ] obtain b1 where
    b1: "registerHandler ?le (ls_self env) ?h READ (l_base s) = Inr b1" "reg_inv ?le b1" "may_register (ls_self env) b1 ?h"
    "watching ?le b1 = (watching ?le (l_base s))(?h := READ)" "same_base (l_base s) b1" by blast
  from reg [OF b1(2,3,5), of NONE] obtain b2 where
    b2: "registerHandler ?le (ls_self env) ?h NONE b1 = Inr b2" "reg_inv ?le b2" "may_register (ls_self env) b2 ?h"
    "watching ?le b2 = (watching ?le b1)(?h := NONE)" "same_base (l_base s) b2" by blast
  have destroy: "\<exists>t'. Listener_destroy env (s\<lparr>l_base := b\<rparr>) = Inr t' \<and>
      opened (l_os t') = opened (l_os s) - {the_handler_fd s} \<and> \<not> event_pending ?le (Ev_Handler ?h) (lbase (l_base t'))"
    if "reg_inv ?le b" "may_register (ls_self env) b ?h" "same_base (l_base s) b" for b
    using destroy_ok [OF assms(2), of "s\<lparr>l_base := b\<rparr>"] that fd [OF that(3)] assms(1,5)
    by (auto simp: posix_fds_def xclose_def)
  have "startAccepting env s = Inr (s\<lparr>l_base := b1\<rparr>)" "stopAccepting env (s\<lparr>l_base := b1\<rparr>) = Inr (s\<lparr>l_base := b2\<rparr>)"
    using b1(1) b2(1) by (simp_all add: startAccepting_def stopAccepting_def)
  with b1(4) b2(4) destroy [OF b1(2,3,5)] destroy [OF b2(2,3,5)] show ?thesis
    by (intro exI [of _ "s\<lparr>l_base := b1\<rparr>"] exI [of _ "s\<lparr>l_base := b2\<rparr>"]) simp
qed

text \<open>A listener that is bound to descriptor 4.\<close>

definition bound_model :: "(event \<Rightarrow> 16 word \<times> bool, int list) listener" where
  "bound_model = listener_model\<lparr>l_base := base_model\<lparr>handlers := [7 \<mapsto> EventHandler_new 4]\<rparr>, l_os := [4, 3]\<rparr>"

theorem listener_lifecycle_witness:
  "\<exists>s1 t. startAccepting (listener_model_env True) bound_model = Inr s1 \<and>
    watching libevent_model (l_base s1) 7 = READ \<and> Listener_destroy (listener_model_env True) s1 = Inr t \<and> set (l_os t) = {3}"
proof -
  have s: "reg_inv (ls_le (listener_model_env True)) (l_base bound_model)"
    "may_register (ls_self (listener_model_env True)) (l_base bound_model) (l_handler bound_model)"
    "the_handler_fd bound_model \<noteq> - 1" "the_handler_fd bound_model = 4" "l_handler bound_model = 7" "l_os bound_model = [4, 3]"
    "ls_le (listener_model_env True) = libevent_model"
    by (auto simp: bound_model_def base_model_def listener_model_def Listener_init_def listener_model_env_def
      reg_inv_def libevent_model_def may_register_def inLoopThread_def usable_def EventHandler_new_def
      EventHandler_base_def the_handler_fd_def handler_registered_def timeout_registered_def)
  from listener_lifecycle [OF listener_model_facts(1,2) s(1-3)] obtain s1 s2 where
    s1: "startAccepting (listener_model_env True) bound_model = Inr s1"
    "watching (ls_le (listener_model_env True)) (l_base s1) =
       (watching (ls_le (listener_model_env True)) (l_base bound_model))(l_handler bound_model := READ)"
    "\<forall>t \<in> {s1, s2}. \<exists>t'. Listener_destroy (listener_model_env True) t = Inr t' \<and>
       set (l_os t') = set (l_os bound_model) - {the_handler_fd bound_model} \<and>
       \<not> event_pending (ls_le (listener_model_env True)) (Ev_Handler (l_handler bound_model)) (lbase (l_base t'))"
    by (elim exE conjE) (rule that)
  from bspec [OF s1(3) insertI1] obtain t where t: "Listener_destroy (listener_model_env True) s1 = Inr t"
    "set (l_os t) = set (l_os bound_model) - {the_handler_fd bound_model}" by blast
  have "set (l_os t) = {3}" "watching libevent_model (l_base s1) 7 = READ"
    using t(2) s1(2) by (simp_all add: s(4-7))
  with s1(1) t(1) show ?thesis by blast
qed

text \<open>Binding again leaks the first descriptor. \<open>bind\<close> on a listener that is already bound replaces
  the handler's descriptor without closing it; not even destroying the listener closes the first
  one.\<close>

theorem listener_rebind_leaks:
  assumes "posix_fds (ls_kernel env) opened" and "libevent_ok (ls_le env)" and "reg_inv (ls_le env) (l_base s)"
    and "may_register (ls_self env) (l_base s) (l_handler s)" and "idle s"
    and "Listener_bind env p s = Inr (None, s1)" and "Listener_bind env q s1 = Inr (None, s2)"
  shows "the_handler_fd s1 \<notin> opened (l_os s) \<and> the_handler_fd s2 \<noteq> the_handler_fd s1 \<and>
    (\<exists>s3. Listener_destroy env s2 = Inr s3 \<and> the_handler_fd s1 \<in> opened (l_os s3))"
proof -
  from bind_cases [OF assms(1,5), of "''0.0.0.0''" p] assms(6) have s1:
    "the_handler_fd s1 \<ge> 0" "the_handler_fd s1 \<notin> opened (l_os s)" "idle s1" "l_handler s1 = l_handler s"
    "opened (l_os s1) = insert (the_handler_fd s1) (opened (l_os s))"
    "l_base s1 = (l_base s)\<lparr>handlers := (handlers (l_base s))(l_handler s \<mapsto>
         (the (handlers (l_base s) (l_handler s)))\<lparr>eh_fd := the_handler_fd s1\<rparr>)\<rparr>"
    by (auto simp: Listener_bind_def)
  from bind_cases [OF assms(1) s1(3), of "''0.0.0.0''" q] assms(7) have s2:
    "the_handler_fd s2 \<ge> 0" "the_handler_fd s2 \<notin> opened (l_os s1)" "l_handler s2 = l_handler s1"
    "opened (l_os s2) = insert (the_handler_fd s2) (opened (l_os s1))"
    "l_base s2 = (l_base s1)\<lparr>handlers := (handlers (l_base s1))(l_handler s1 \<mapsto>
         (the (handlers (l_base s1) (l_handler s1)))\<lparr>eh_fd := the_handler_fd s2\<rparr>)\<rparr>"
    by (auto simp: Listener_bind_def)
  note r1 = rebased [OF assms(3-5) s1(6), folded s1(4)]
  note r2 = rebased [OF r1(1) r1(2) s1(3) s2(5), folded s2(3)]
  from destroy_ok [OF assms(2) r2] s2(1) obtain s3 where "Listener_destroy env s2 = Inr s3"
    "l_os s3 = snd (xclose (ls_kernel env) (the_handler_fd s2) (l_os s2))"
    by auto
  moreover have "the_handler_fd s2 \<noteq> the_handler_fd s1" using s1(5) s2(2) by auto
  ultimately show ?thesis using s1 s2 assms(1) by (auto simp: posix_fds_def xclose_def)
qed

theorem listener_rebind_leaks_witness:
  "\<exists>s1 s2 s3. Listener_bind (listener_model_env True) 0 listener_model = Inr (None, s1) \<and>
    Listener_bind (listener_model_env True) 0 s1 = Inr (None, s2) \<and>
    Listener_destroy (listener_model_env True) s2 = Inr s3 \<and> 4 \<in> set (l_os s3)"
proof -
  have e: "\<exists>s1 s2. Listener_bind (listener_model_env True) 0 listener_model = Inr (None, s1) \<and> the_handler_fd s1 = 4 \<and>
      Listener_bind (listener_model_env True) 0 s1 = Inr (None, s2)"
    by (simp add: Listener_bind_def Listener_bind_addr_def listener_model_env_def listener_model_def fd_kernel_def
      Listener_init_def l_setFd_def lookup_handler_def EventHandler_setFd_def EventHandler_new_def
      EventHandler_registered_def the_handler_fd_def)
  then obtain s1 s2 where s: "Listener_bind (listener_model_env True) 0 listener_model = Inr (None, s1)"
    "the_handler_fd s1 = 4" "Listener_bind (listener_model_env True) 0 s1 = Inr (None, s2)" by blast
  have m: "reg_inv (ls_le (listener_model_env True)) (l_base listener_model)"
    "may_register (ls_self (listener_model_env True)) (l_base listener_model) (l_handler listener_model)"
    using listener_model_facts(7,8) by (simp_all add: listener_model_env_def listener_model_def Listener_init_def)
  from listener_rebind_leaks [OF listener_model_facts(1,2) m listener_model_facts(3) s(1,3)] s show ?thesis by auto
qed

end
