(* ===== verification/Optional_Value.thy ===== *)
theory Optional_Value
  imports WTE_Prelude
begin

text \<open>
  \<open>Optional\<close> of \<open>src/src/optional.h\<close>: a flag and storage in which a value of the element type is
  constructed and destroyed explicitly. \<open>storage\<close> is the value that was last constructed there, if
  any. The state of an operation includes the log of the constructor and destructor calls of the
  element type, so that values which are never destroyed can be counted.
\<close>

datatype 'a lifetime = Constructed 'a | Destroyed 'a

record 'a Optional =
  engaged :: bool
  storage :: "'a option"

type_synonym 'a opt_state = "'a Optional \<times> 'a lifetime list"

text \<open>A new object; \<open>engaged_\<close> is indeterminate until a constructor sets it.\<close>

definition raw_optional :: "'a Optional" where
  "raw_optional = \<lparr>engaged = False, storage = None\<rparr>"

definition construct :: "'a \<Rightarrow> 'a opt_state \<Rightarrow> 'a opt_state" where
  "construct u s = (case s of (o1, log) \<Rightarrow> (o1\<lparr>storage := Some u, engaged := True\<rparr>, log @ [Constructed u]))"

definition Optional_none :: "'a lifetime list \<Rightarrow> 'a opt_state" where
  "Optional_none log = (raw_optional\<lparr>engaged := False\<rparr>, log)"

definition Optional_of :: "'a \<Rightarrow> 'a lifetime list \<Rightarrow> 'a opt_state" where
  "Optional_of v log = construct v (raw_optional, log)"

definition Optional_clear :: "'a opt_state \<Rightarrow> fault + 'a opt_state" where
  "Optional_clear s = (case s of (o1, log) \<Rightarrow>
     if engaged o1 then
       (case storage o1 of
          None \<Rightarrow> Inl Use_After_Free
        | Some v \<Rightarrow> Inr (o1\<lparr>engaged := False\<rparr>, log @ [Destroyed v]))
     else Inr (o1, log))"

definition Optional_destroy :: "'a opt_state \<Rightarrow> fault + 'a opt_state" where
  "Optional_destroy s = Optional_clear s"

definition Optional_value :: "'a Optional \<Rightarrow> fault + 'a" where
  "Optional_value o1 =
     (if \<not> engaged o1 then Inl (Logic_Error ''Optional has no value'')
      else case storage o1 of None \<Rightarrow> Inl Use_After_Free | Some v \<Rightarrow> Inr v)"

definition Optional_bool :: "'a Optional \<Rightarrow> bool" where
  "Optional_bool o1 = engaged o1"

text \<open>The move constructor leaves the source engaged, with a moved-from value.\<close>

definition Optional_move :: "'a Optional \<Rightarrow> 'a lifetime list \<Rightarrow> fault + 'a opt_state" where
  "Optional_move src log =
     (if engaged src then bindE (Optional_value src) (\<lambda>v. Inr (construct v (raw_optional, log)))
      else Inr (raw_optional\<lparr>engaged := False\<rparr>, log))"

definition Optional_assign :: "'a Optional \<Rightarrow> 'a opt_state \<Rightarrow> fault + 'a opt_state" where
  "Optional_assign src s = (case s of (o1, log) \<Rightarrow>
     if \<not> engaged o1 \<and> \<not> engaged src then Inr s
     else if engaged o1 \<and> \<not> engaged src then Optional_clear s
     else case storage src of None \<Rightarrow> Inl Use_After_Free | Some v \<Rightarrow> Inr (construct v s))"

text \<open>\<open>make\<close>: the temporary value, the optional that is moved from it, the end of the temporary.\<close>

definition Optional_make :: "'a \<Rightarrow> 'a lifetime list \<Rightarrow> 'a opt_state" where
  "Optional_make u log = (let (o1, log) = construct u (raw_optional, log @ [Constructed u]) in (o1, log @ [Destroyed u]))"

subsection \<open>Abstraction\<close>

text \<open>An engaged optional has a value in its storage.\<close>

definition opt_ok :: "'a Optional \<Rightarrow> bool" where
  "opt_ok o1 \<longleftrightarrow> (engaged o1 \<longrightarrow> storage o1 \<noteq> None)"

definition opt_abs :: "'a Optional \<Rightarrow> 'a option" where
  "opt_abs o1 = (if engaged o1 then storage o1 else None)"

text \<open>How many constructed values have not been destroyed.\<close>

fun alive_count :: "'a lifetime list \<Rightarrow> int" where
  "alive_count [] = 0"
| "alive_count (Constructed v # log) = alive_count log + 1"
| "alive_count (Destroyed v # log) = alive_count log - 1"

lemma alive_append [simp]: "alive_count (l1 @ l2) = alive_count l1 + alive_count l2"
  by (induction l1 rule: alive_count.induct) simp_all

lemma opt_abs_engaged: "opt_ok o1 \<Longrightarrow> engaged o1 = (opt_abs o1 \<noteq> None)"
  by (simp add: opt_ok_def opt_abs_def)

text \<open>A sequence of assignments.\<close>

fun assigns :: "'a Optional list \<Rightarrow> 'a opt_state \<Rightarrow> fault + 'a opt_state" where
  "assigns [] s = Inr s"
| "assigns (src # srcs) s = bindE (Optional_assign src s) (assigns srcs)"

text \<open>How often an engaged value is assigned over an engaged value.\<close>

fun overwrites :: "bool \<Rightarrow> 'a Optional list \<Rightarrow> nat" where
  "overwrites e [] = 0"
| "overwrites e (src # srcs) = (if e \<and> engaged src then 1 else 0) + overwrites (engaged src) srcs"

lemma assign_ok:
  assumes "opt_ok o1" "opt_ok src"
  shows "\<exists>o2 l. Optional_assign src (o1, log) = Inr (o2, log @ l) \<and> opt_ok o2 \<and> opt_abs o2 = opt_abs src \<and>
    alive_count l = (if engaged src then 1 else 0) - (if engaged o1 \<and> \<not> engaged src then 1 else 0)"
  using assms by (auto simp: Optional_assign_def Optional_clear_def construct_def opt_ok_def opt_abs_def split: option.splits)

lemma assigns_ok:
  assumes "opt_ok o1" "\<forall>src \<in> set srcs. opt_ok src"
  shows "\<exists>o2 l. assigns srcs (o1, log) = Inr (o2, log @ l) \<and> opt_ok o2 \<and>
    opt_abs o2 = (if srcs = [] then opt_abs o1 else opt_abs (last srcs)) \<and>
    alive_count l + (if engaged o1 then 1 else 0) = (if engaged o2 then 1 else 0) + int (overwrites (engaged o1) srcs)"
  using assms
proof (induction srcs arbitrary: o1 log)
  case Nil
  then show ?case by auto
next
  case (Cons src srcs)
  from assign_ok [of o1 src log] Cons.prems obtain o2 l where
    1: "Optional_assign src (o1, log) = Inr (o2, log @ l)" "opt_ok o2" "opt_abs o2 = opt_abs src"
    "alive_count l = (if engaged src then 1 else 0) - (if engaged o1 \<and> \<not> engaged src then 1 else 0)" by auto
  from Cons.IH [OF 1(2), of "log @ l"] Cons.prems(2) obtain o3 l' where
    2: "assigns srcs (o2, log @ l) = Inr (o3, (log @ l) @ l')" "opt_ok o3"
    "opt_abs o3 = (if srcs = [] then opt_abs o2 else opt_abs (last srcs))"
    "alive_count l' + (if engaged o2 then 1 else 0) = (if engaged o3 then 1 else 0) + int (overwrites (engaged o2) srcs)"
    by auto
  have "engaged o2 = engaged src" using 1(2,3) Cons.prems(2) opt_abs_engaged by (metis list.set_intros(1))
  then show ?case using 1 2 by (intro exI [of _ o3] exI [of _ "l @ l'"]) auto
qed

subsection \<open>Properties\<close>

text \<open>C32: An \<open>Optional\<close> behaves like an optional value. After any sequence of
  assignments to a new \<open>Optional\<close>, it converts to true exactly when the last one was
  from an engaged one, \<open>value\<close> returns the value of that one and otherwise throws
  \<open>std::logic_error\<close>, and a move-constructed copy has the same value.\<close>

theorem optional_refines_option:
  assumes "\<forall>src \<in> set srcs. opt_ok src"
  shows "\<exists>o2 l. assigns srcs (Optional_none log) = Inr (o2, log @ l) \<and>
    Optional_bool o2 = (srcs \<noteq> [] \<and> engaged (last srcs)) \<and>
    Optional_value o2 = (if srcs \<noteq> [] \<and> engaged (last srcs) then Optional_value (last srcs)
      else Inl (Logic_Error ''Optional has no value'')) \<and>
    (\<exists>o3 l'. Optional_move o2 (log @ l) = Inr (o3, (log @ l) @ l') \<and> opt_abs o3 = opt_abs o2)"
proof -
  have "opt_ok (raw_optional\<lparr>engaged := False\<rparr>)" by (simp add: opt_ok_def)
  from assigns_ok [OF this assms, of log] obtain o2 l where
    o2: "assigns srcs (Optional_none log) = Inr (o2, log @ l)" "opt_ok o2"
    "opt_abs o2 = (if srcs = [] then None else opt_abs (last srcs))"
    by (auto simp: Optional_none_def opt_abs_def)
  have ls: "srcs \<noteq> [] \<Longrightarrow> opt_ok (last srcs)" using assms by simp
  have e: "engaged o2 = (srcs \<noteq> [] \<and> engaged (last srcs))"
    using o2(3) ls by (cases "srcs = []") (simp_all add: opt_abs_engaged o2(2))
  have v: "Optional_value o2 = (if srcs \<noteq> [] \<and> engaged (last srcs) then Optional_value (last srcs)
      else Inl (Logic_Error ''Optional has no value''))"
    using e o2(3) by (auto simp: Optional_value_def opt_abs_def split: if_splits)
  have "\<exists>o3 l'. Optional_move o2 (log @ l) = Inr (o3, (log @ l) @ l') \<and> opt_abs o3 = opt_abs o2"
    using o2(2) by (auto simp: Optional_move_def Optional_value_def opt_ok_def opt_abs_def construct_def split: option.splits)
  with o2(1) e v show ?thesis by (auto simp: Optional_bool_def)
qed

theorem optional_refines_option_witness:
  "\<exists>o2 l. assigns [fst (Optional_of ''a'' []), fst (Optional_of ''b'' [])] (Optional_none []) = Inr (o2, l) \<and>
    Optional_bool o2 \<and> Optional_value o2 = Inr ''b''"
proof -
  let ?srcs = "[fst (Optional_of ''a'' []), fst (Optional_of ''b'' [])]"
  have "\<forall>src \<in> set ?srcs. opt_ok src" "engaged (last ?srcs)" "Optional_value (last ?srcs) = Inr ''b''"
    by (simp_all add: Optional_of_def construct_def opt_ok_def Optional_value_def)
  with optional_refines_option [OF this(1), of "[]"] obtain o2 l where
    "assigns ?srcs (Optional_none []) = Inr (o2, l)" "Optional_bool o2" "Optional_value o2 = Inr ''b''" by auto
  then show ?thesis by blast
qed

text \<open>Assigning over an engaged \<open>Optional\<close> leaks. Assignment constructs the new value in the storage
  without destroying the one that is there: when the \<open>Optional\<close> is destroyed after any sequence of
  assignments, the number of values that have been constructed in it and never destroyed is the
  number of assignments of an engaged one over an engaged one.\<close>

theorem optional_leaks_overwritten:
  assumes "\<forall>src \<in> set srcs. opt_ok src"
  shows "\<exists>o2 l. bindE (assigns srcs (Optional_none [])) Optional_destroy = Inr (o2, l) \<and> \<not> Optional_bool o2 \<and>
    alive_count l = int (overwrites False srcs)"
proof -
  have "opt_ok (raw_optional\<lparr>engaged := False\<rparr>)" by (simp add: opt_ok_def)
  from assigns_ok [OF this assms, of "[]"] obtain o2 l where
    o2: "assigns srcs (Optional_none []) = Inr (o2, l)" "opt_ok o2"
    "alive_count l = (if engaged o2 then 1 else 0) + int (overwrites False srcs)"
    by (auto simp: Optional_none_def)
  then show ?thesis by (auto simp: Optional_destroy_def Optional_clear_def opt_ok_def Optional_bool_def split: option.splits)
qed

theorem optional_leaks_overwritten_witness:
  "\<exists>o2 l. bindE (assigns [fst (Optional_of ''a'' []), fst (Optional_of ''b'' [])] (Optional_none [])) Optional_destroy =
      Inr (o2, l) \<and> alive_count l = 1"
  using optional_leaks_overwritten [of "[fst (Optional_of ''a'' []), fst (Optional_of ''b'' [])]"]
  by (auto simp: Optional_of_def construct_def opt_ok_def)

end
