(* ===== verification/Blocking_Stream.thy ===== *)
theory Blocking_Stream
  imports Stream_Queue Event_Loop Op_Queue
begin

text \<open>
  The blocking stream of \<open>src/src/blocking_stream.cc\<close>: an event base of its own, an asynchronous
  stream on that base, and callback objects in the stack frames of \<open>write\<close> and \<open>read\<close>.

  The three components run together here. The state of the base (\<open>Event_Loop\<close>) has the stream
  (\<open>Stream_Model\<close>) as its world, \<open>on_stream\<close> runs an operation of the stream on the base's
  registrations, and the handler that the base dispatches to is the stream's. The world of the
  stream is the operating system and the callback objects that exist: calling a callback object
  whose frame is gone is a \<open>fault\<close>. \<open>event_base_loop\<close> is a parameter, as before.
\<close>

subsection \<open>Callback objects\<close>

text \<open>\<open>Optional<std::runtime_error>\<close> is an optional message (see \<open>Optional_Value\<close>).\<close>

record BlockingWriteCallback =
  w_error :: "string option"
  w_complete :: bool

record BlockingReadCallback =
  r_buffer :: "byte array"
  r_size :: size_t
  r_nread :: size_t
  r_eof :: bool
  r_error :: "string option"

record cb_frames =
  wcbs :: "cbid \<rightharpoonup> BlockingWriteCallback"
  rcbs :: "cbid \<rightharpoonup> BlockingReadCallback"

definition read_available :: "BlockingReadCallback \<Rightarrow> BufferImpl \<Rightarrow> fault + BlockingReadCallback \<times> BufferImpl" where
  "read_available r buf =
     bindE (Buffer_read (drop (unat (r_nread r)) (r_buffer r)) (r_size r - r_nread r) buf) (\<lambda>(out, n, buf).
     Inr (r\<lparr>r_buffer := take (unat (r_nread r)) (r_buffer r) @ out, r_nread := r_nread r + n\<rparr>, buf))"

fun blocking_invoke :: "cb_event \<Rightarrow> ('l, 'w \<times> cb_frames) stream \<Rightarrow> fault + ('l, 'w \<times> cb_frames) stream" where
  "blocking_invoke (Write_Complete cb) s = (case wcbs (snd (os s)) cb of
       None \<Rightarrow> Inl Use_After_Free
     | Some c \<Rightarrow> Inr (s\<lparr>os := (fst (os s), (snd (os s))\<lparr>wcbs := (wcbs (snd (os s)))(cb \<mapsto> c\<lparr>w_complete := True\<rparr>)\<rparr>)\<rparr>))"
| "blocking_invoke (Write_Error cb e) s = (case wcbs (snd (os s)) cb of
       None \<Rightarrow> Inl Use_After_Free
     | Some c \<Rightarrow> Inr (s\<lparr>os := (fst (os s), (snd (os s))\<lparr>wcbs := (wcbs (snd (os s)))(cb \<mapsto> c\<lparr>w_error := Some e\<rparr>)\<rparr>)\<rparr>))"
| "blocking_invoke (Read_Available cb) s = (case rcbs (snd (os s)) cb of
       None \<Rightarrow> Inl Use_After_Free
     | Some r \<Rightarrow> bindE (read_available r (readBuffer s)) (\<lambda>(r, b).
         Inr (s\<lparr>readBuffer := b, os := (fst (os s), (snd (os s))\<lparr>rcbs := (rcbs (snd (os s)))(cb \<mapsto> r)\<rparr>)\<rparr>)))"
| "blocking_invoke (Read_Error cb e) s = (case rcbs (snd (os s)) cb of
       None \<Rightarrow> Inl Use_After_Free
     | Some r \<Rightarrow> Inr (s\<lparr>os := (fst (os s), (snd (os s))\<lparr>rcbs := (rcbs (snd (os s)))(cb \<mapsto> r\<lparr>r_error := Some e\<rparr>)\<rparr>)\<rparr>))"
| "blocking_invoke (Read_Eof cb) s = (case rcbs (snd (os s)) cb of
       None \<Rightarrow> Inl Use_After_Free
     | Some r \<Rightarrow> Inr (s\<lparr>os := (fst (os s), (snd (os s))\<lparr>rcbs := (rcbs (snd (os s)))(cb \<mapsto> r\<lparr>r_eof := True\<rparr>)\<rparr>)\<rparr>))"
| "blocking_invoke ev s = Inl Use_After_Free"

definition blocking_stream_env :: "'l libevent \<Rightarrow> 'w kernel \<Rightarrow> (size_t \<Rightarrow> bool) \<Rightarrow> thread \<Rightarrow>
    ('l, 'w \<times> cb_frames) stream_env" where
  "blocking_stream_env le k al self = \<lparr>env_le = le, env_kernel = lift_kernel k, env_alloc = al, env_self = self,
     env_invoke = blocking_invoke\<rparr>"

subsection \<open>The stream on its base\<close>

type_synonym ('l, 'w) blocking_base = "('l, ('l, 'w \<times> cb_frames) stream) LibeventEventBase"

text \<open>The stream, with the registrations of the base; and the base with the stream \<open>s\<close>.\<close>

definition the_stream :: "('l, 'w) blocking_base \<Rightarrow> ('l, 'w \<times> cb_frames) stream" where
  "the_stream b = (bos b)\<lparr>sbase := reg b\<rparr>"

definition put_stream :: "('l, 'w) blocking_base \<Rightarrow> ('l, 'w \<times> cb_frames) stream \<Rightarrow> ('l, 'w) blocking_base" where
  "put_stream b s = b\<lparr>reg := sbase s, bos := s\<rparr>"

definition on_stream :: "(('l, 'w \<times> cb_frames) stream \<Rightarrow> fault + ('l, 'w \<times> cb_frames) stream) \<Rightarrow>
    ('l, 'w) blocking_base \<Rightarrow> fault + ('l, 'w) blocking_base" where
  "on_stream f b = bindE (f (the_stream b)) (\<lambda>s. Inr (put_stream b s))"

text \<open>
  The environment of the base: its only client is the handler of the stream. \<open>lenv\<close> supplies
  \<open>event_base_loop\<close> and the rest of the system.
\<close>

definition blocking_loop_env ::
  "nat \<Rightarrow> ('l, 'w \<times> cb_frames) stream_env \<Rightarrow> ('l, ('l, 'w \<times> cb_frames) stream) loop_env \<Rightarrow>
     ('l, ('l, 'w \<times> cb_frames) stream) loop_env" where
  "blocking_loop_env fuel env lenv = lenv\<lparr>lp_le := env_le env, lp_client := (\<lambda>c b. Inr b),
     lp_ready := (\<lambda>h what b. if h = sock (bos b) then on_stream (SockHandler_ready fuel env what) b else Inr b),
     lp_expired := (\<lambda>t b. Inr b)\<rparr>"

text \<open>The number \<open>turns\<close> bounds the turns of the event loop, \<open>cb\<close> is the callback object in the new frame.\<close>

definition wcb_new :: "cbid \<Rightarrow> ('l, 'w \<times> cb_frames) stream \<Rightarrow> ('l, 'w \<times> cb_frames) stream" where
  "wcb_new cb s = s\<lparr>os := (fst (os s), (snd (os s))\<lparr>wcbs := (wcbs (snd (os s)))(cb \<mapsto>
     \<lparr>w_error = None, w_complete = False\<rparr>)\<rparr>)\<rparr>"

definition wcb_delete :: "cbid \<Rightarrow> ('l, 'w \<times> cb_frames) stream \<Rightarrow> ('l, 'w \<times> cb_frames) stream" where
  "wcb_delete cb s = s\<lparr>os := (fst (os s), (snd (os s))\<lparr>wcbs := (wcbs (snd (os s)))(cb := None)\<rparr>)\<rparr>"

definition Blocking_write ::
  "nat \<Rightarrow> ('l, ('l, 'w \<times> cb_frames) stream) loop_env \<Rightarrow> ('l, 'w \<times> cb_frames) stream_env \<Rightarrow> rid \<Rightarrow> cbid \<Rightarrow>
     byte list \<Rightarrow> size_t \<Rightarrow> ('l, 'w) blocking_base \<Rightarrow> fault + string option \<times> ('l, 'w) blocking_base" where
  "Blocking_write turns lenv env a cb buf n b =
     bindE (on_stream (\<lambda>s. Stream_write env a buf n (Some cb) (wcb_new cb s)) b) (\<lambda>b.
     bindE (EventBase_loop turns lenv (env_self env) UNTIL_EMPTY b) (\<lambda>r. case r of
       Threw msg b \<Rightarrow> Inr (Some msg, put_stream b (wcb_delete cb (the_stream b)))
     | Started b \<Rightarrow> (case wcbs (snd (os (the_stream b))) cb of
           None \<Rightarrow> Inl Use_After_Free
         | Some c \<Rightarrow>
             let b = put_stream b (wcb_delete cb (the_stream b)) in
             (case w_error c of
                Some e \<Rightarrow> Inr (Some e, b)
              | None \<Rightarrow> bindE (assertE ''cb.complete_'' (w_complete c)) (\<lambda>_. Inr (None, b))))))"

definition rcb_new :: "cbid \<Rightarrow> byte array \<Rightarrow> size_t \<Rightarrow> ('l, 'w \<times> cb_frames) stream \<Rightarrow> ('l, 'w \<times> cb_frames) stream" where
  "rcb_new cb buf n s = s\<lparr>os := (fst (os s), (snd (os s))\<lparr>rcbs := (rcbs (snd (os s)))(cb \<mapsto>
     \<lparr>r_buffer = buf, r_size = n, r_nread = 0, r_eof = False, r_error = None\<rparr>)\<rparr>)\<rparr>"

definition rcb_delete :: "cbid \<Rightarrow> ('l, 'w \<times> cb_frames) stream \<Rightarrow> ('l, 'w \<times> cb_frames) stream" where
  "rcb_delete cb s = s\<lparr>os := (fst (os s), (snd (os s))\<lparr>rcbs := (rcbs (snd (os s)))(cb := None)\<rparr>)\<rparr>"

text \<open>The \<open>do\<close> loop of \<open>read\<close>, up to the exception or the result; \<open>loop(ONCE)\<close> is one turn.\<close>

fun read_turns ::
  "nat \<Rightarrow> ('l, ('l, 'w \<times> cb_frames) stream) loop_env \<Rightarrow> ('l, 'w \<times> cb_frames) stream_env \<Rightarrow> cbid \<Rightarrow>
     ('l, 'w) blocking_base \<Rightarrow> fault + (string + BlockingReadCallback) \<times> ('l, 'w) blocking_base" where
  "read_turns 0 lenv env cb b = Inl Out_Of_Fuel"
| "read_turns (Suc turns) lenv env cb b =
     bindE (EventBase_loop 1 lenv (env_self env) ONCE b) (\<lambda>r. case r of
       Threw msg b \<Rightarrow> Inr (Inl msg, b)
     | Started b \<Rightarrow> (case rcbs (snd (os (the_stream b))) cb of
           None \<Rightarrow> Inl Use_After_Free
         | Some c \<Rightarrow>
             if r_nread c < r_size c \<and> r_error c = None \<and> \<not> r_eof c then read_turns turns lenv env cb b
             else (case r_error c of Some e \<Rightarrow> Inr (Inl e, b) | None \<Rightarrow> Inr (Inr c, b))))"

text \<open>The result: a message that is thrown, or the number of bytes and the caller's array.\<close>

definition Blocking_read ::
  "nat \<Rightarrow> ('l, ('l, 'w \<times> cb_frames) stream) loop_env \<Rightarrow> ('l, 'w \<times> cb_frames) stream_env \<Rightarrow> cbid \<Rightarrow>
     byte array \<Rightarrow> size_t \<Rightarrow> ('l, 'w) blocking_base \<Rightarrow> fault + (string + size_t \<times> byte array) \<times> ('l, 'w) blocking_base" where
  "Blocking_read turns lenv env cb buf n b =
     bindE (on_stream (\<lambda>s. startRead env (Some cb) (rcb_new cb buf n s)) b) (\<lambda>b.
     bindE (read_turns turns lenv env cb b) (\<lambda>(r, b).
     let b = put_stream b (rcb_delete cb (the_stream b)) in
     case r of Inl e \<Rightarrow> Inr (Inl e, b) | Inr c \<Rightarrow> Inr (Inr (r_nread c, r_buffer c), b)))"

text \<open>Construction on a descriptor, given the new base; destruction, up to the end of the base.\<close>

definition Blocking_init :: "hid \<Rightarrow> int \<Rightarrow> 'w \<Rightarrow> ('l, 'v) LibeventEventBase \<Rightarrow> ('l, 'w \<times> cb_frames) stream" where
  "Blocking_init h fd w b = StreamImpl_init (reg b) h fd (w, \<lparr>wcbs = Map.empty, rcbs = Map.empty\<rparr>)"

definition Blocking_destroy ::
  "nat \<Rightarrow> ('l, 'w \<times> cb_frames) stream_env \<Rightarrow> bool \<Rightarrow> ('l, 'w) blocking_base \<Rightarrow> fault + ('l, 'w) blocking_base" where
  "Blocking_destroy fuel env auto_close b =
     bindE (if auto_close then on_stream (Stream_close env) b else Inr b) (on_stream (StreamImpl_destroy fuel env))"

end
