(* ===== verification/Blocking_Correct.thy ===== *)
theory Blocking_Correct
  imports Blocking_Stream
begin

text \<open>
  Correctness of the blocking stream of \<open>Blocking_Stream\<close>: turns of the event loop as readable and
  writable events of the stream, a blocking write under every behaviour of the kernel, and the
  situations in which \<open>write\<close> and \<open>read\<close> do not return.
\<close>

subsection \<open>Turns of the loop\<close>

lemma the_stream_put [simp]: "the_stream (put_stream b s) = s"
  by (simp add: the_stream_def put_stream_def)

lemma put_stream_simps [simp]:
  "notify_queue (put_stream b s) = notify_queue b" "notify_handler (put_stream b s) = notify_handler b"
  "terminate (put_stream b s) = terminate b" "sock (bos (put_stream b s)) = sock s" "reg (put_stream b s) = sbase s"
  by (simp_all add: put_stream_def)

lemma sock_the_stream [simp]: "sock (the_stream b) = sock (bos b)"
  by (simp add: the_stream_def)

text \<open>
  What \<open>event_base_loop\<close> does on a base with one handler that counts: it returns 1 when no event is
  registered, and otherwise runs the callback with the events that \<open>poll\<close> finds, and returns 0.
\<close>

definition one_handler :: "('l, ('l, 'w \<times> cb_frames) stream) loop_env \<Rightarrow> ('l, 'w \<times> cb_frames) stream_env \<Rightarrow>
    (('l, 'w \<times> cb_frames) stream \<Rightarrow> What) \<Rightarrow> bool" where
  "one_handler lenv env poll \<longleftrightarrow> (\<forall>b.
     if the_watched env (the_stream b) = NONE then lp_loop lenv (dispatch lenv) b = Inr (1, b)
     else \<exists>flags. fromFlags (le_flags (lp_le lenv)) flags = poll (the_stream b) \<and>
       lp_loop lenv (dispatch lenv) b =
         bindE (dispatch lenv (libeventCallback (sock (bos b))) flags b) (\<lambda>b. Inr (0, b)))"

text \<open>Nothing is queued on the base, and the handler is that of the stream.\<close>

definition quiet_base :: "('l, 'w) blocking_base \<Rightarrow> hid \<Rightarrow> bool" where
  "quiet_base b h \<longleftrightarrow> represents (notify_queue b) [] \<and> notify_handler b \<noteq> h \<and> \<not> terminate b"

lemma quiet_base_put [simp]: "quiet_base (put_stream b s) h = quiet_base b h"
  by (simp add: quiet_base_def)

lemma dispatch_sock:
  "notify_handler b \<noteq> sock (bos b) \<Longrightarrow>
   dispatch (blocking_loop_env fuel env lenv) (libeventCallback (sock (bos b))) flags b =
    bindE (SockHandler_ready fuel env (fromFlags (le_flags (env_le env)) flags) (the_stream b)) (\<lambda>s. Inr (put_stream b s))"
  by (simp add: blocking_loop_env_def on_stream_def)

lemma lp_fields [simp]: "lp_le (blocking_loop_env fuel env lenv) = env_le env"
  "lp_fuel (blocking_loop_env fuel env lenv) = lp_fuel lenv"
  "lp_loop (blocking_loop_env fuel env lenv) = lp_loop lenv"
  by (simp_all add: blocking_loop_env_def)

text \<open>One turn of \<open>event_base_loop\<close>, and of \<open>loop\<close>.\<close>

lemma event_base_loop_turn:
  assumes "one_handler (blocking_loop_env fuel env lenv) env poll" "quiet_base b (sock (bos b))"
  shows "lp_loop lenv (dispatch (blocking_loop_env fuel env lenv)) b =
    (if the_watched env (the_stream b) = NONE then Inr (1, b)
     else bindE (SockHandler_ready fuel env (poll (the_stream b)) (the_stream b)) (\<lambda>s. Inr (0, put_stream b s)))"
proof (cases "the_watched env (the_stream b) = NONE")
  case True
  then show ?thesis using assms(1) by (auto simp: one_handler_def split: if_splits)
next
  case False
  with assms(1) obtain flags where "fromFlags (le_flags (env_le env)) flags = poll (the_stream b)"
    "lp_loop lenv (dispatch (blocking_loop_env fuel env lenv)) b =
       bindE (dispatch (blocking_loop_env fuel env lenv) (libeventCallback (sock (bos b))) flags b) (\<lambda>b. Inr (0, b))"
    unfolding one_handler_def by (metis lp_fields(1,3))
  moreover have "notify_handler b \<noteq> sock (bos b)" using assms(2) by (simp add: quiet_base_def)
  note dispatch_sock [OF this, of fuel env lenv flags]
  ultimately show ?thesis using False by (simp only: bindE_assoc bindE_Inr if_False)
qed

lemma runOps_quiet:
  "quiet_base b h \<Longrightarrow> 0 < lp_fuel lenv \<Longrightarrow> runOpsInQueue (lp_fuel lenv) lenv b = Inr b"
  using mq.pop_none [of "notify_queue b"] by (cases "lp_fuel lenv") (auto simp: quiet_base_def)

lemma loop_turn:
  assumes "one_handler (blocking_loop_env fuel env lenv) env poll" "quiet_base b (sock (bos b))" "0 < lp_fuel lenv"
  shows "loop_turns (Suc n) (blocking_loop_env fuel env lenv) UNTIL_EMPTY b =
    (if the_watched env (the_stream b) = NONE then Inr b
     else bindE (SockHandler_ready fuel env (poll (the_stream b)) (the_stream b)) (\<lambda>s.
       loop_turns n (blocking_loop_env fuel env lenv) UNTIL_EMPTY (put_stream b s)))"
proof -
  have f: "0 < lp_fuel (blocking_loop_env fuel env lenv)" using assms(3) by simp
  have "\<not> terminate b" using assms(2) by (simp add: quiet_base_def)
  then show ?thesis
    using runOps_quiet [OF assms(2) f] event_base_loop_turn [OF assms(1,2)]
    by (simp add: bindE_assoc)
qed

text \<open>Starting and finishing the loop changes the loop thread and the flags.\<close>

lemma thread_simps [simp]:
  "reg_inv le (b\<lparr>loopThread := t\<rparr>) = reg_inv le b" "usable (b\<lparr>loopThread := t\<rparr>) h = usable b h"
  "watching le (b\<lparr>loopThread := t\<rparr>) = watching le b"
  by (auto simp: reg_inv_def handler_registered_def timeout_registered_def usable_def watching_def fun_eq_iff
    split: option.splits)

lemma stream_ok_thread:
  "stream_ok env s rs \<Longrightarrow> t = env_self env \<or> t = 0 \<Longrightarrow>
   stream_ok env (s\<lparr>sbase := (sbase s)\<lparr>loopThread := t\<rparr>\<rparr>) rs"
  by (auto simp: stream_ok_def may_register_def inLoopThread_def)

lemma the_watched_thread [simp]: "the_watched env (s\<lparr>sbase := (sbase s)\<lparr>loopThread := t\<rparr>\<rparr>) = the_watched env s"
  by (simp add: the_watched_def)

lemma the_fd_thread [simp]: "the_fd (s\<lparr>sbase := (sbase s)\<lparr>loopThread := t\<rparr>\<rparr>) = the_fd s"
  by (simp add: the_fd_def)

subsection \<open>Writable events\<close>

text \<open>The kernel always takes something.\<close>

definition steady :: "'w kernel \<Rightarrow> bool" where
  "steady k \<longleftrightarrow> (\<forall>fd buf n w. 0 < n \<longrightarrow> 1 \<le> fst (k_write k fd buf n w))"

lemma lift_kernel_facts:
  "steady (lift_kernel k :: ('w \<times> 'f) kernel) = steady k" "broken (lift_kernel k :: ('w \<times> 'f) kernel) = broken k"
  by (simp_all add: steady_def broken_def lift_write)

lemma write_extents_steady:
  assumes "steady k" "posix_write k written" "sized xs" "in_order k xs" "xs \<noteq> []"
    and "write_extents k fd xs 0 False w = (of_nat t, b, f, w')" "t < 2 ^ 64"
    and "length (concat (map Extent_bytes xs)) < 2 ^ 64"
  shows "\<not> f \<and> 0 < t"
proof (cases "takes_all k")
  case True
  obtain x ys where xs: "xs = x # ys" using assms(5) by (cases xs) auto
  have "0 < unat (Extent_size x)" using assms(3) by (simp add: sized_def xs size_t_less)
  then have "Extent_bytes x \<noteq> []" using length_Extent_bytes [OF assms(3), of x] by (auto simp: xs)
  then have l: "concat (map Extent_bytes xs) \<noteq> []" by (simp add: xs)
  from write_extents_all [OF True assms(2,3), of fd 0 False w] obtain v where
    "write_extents k fd xs 0 False w = (0 + of_nat (length (concat (map Extent_bytes xs))), False, False, v)" by blast
  with assms(6) have "\<not> f" "(of_nat t :: size_t) = of_nat (length (concat (map Extent_bytes xs)))" by simp_all
  with unat_of_nat_size [OF assms(7)] unat_of_nat_size [OF assms(8)]
  have "t = length (concat (map Extent_bytes xs))" by metis
  then show ?thesis using l \<open>\<not> f\<close> by (cases t) simp_all
next
  case False
  then obtain x where x: "xs = [x]" using assms(4,5) by (cases xs) (auto simp: in_order_def)
  obtain r w1 where k: "k_write k fd (Extent_data x) (Extent_size x) w = (r, w1)" by force
  have "0 < Extent_size x" using assms(3) by (simp add: sized_def x)
  with assms(1) k have r: "1 \<le> r" unfolding steady_def by (metis fst_conv)
  then have "of_nat t = (of_int r :: size_t)" "\<not> f" using assms(6) k by (auto simp: x xwrite_def)
  moreover have "r \<le> int (unat (Extent_size x))" using assms(2) k by (auto simp: posix_write_def)
  then have "nat r < 2 ^ 64" using unat_size_bound [of "Extent_size x"] by linarith
  then have "unat (of_nat (nat r) :: size_t) = nat r" by (rule unat_of_nat_size)
  moreover have "(of_int r :: size_t) = of_nat (nat r)" using r by simp
  ultimately have "unat (of_nat t :: size_t) = nat r" by simp
  then show ?thesis using r \<open>\<not> f\<close> unat_of_nat_size [OF assms(7)] by simp
qed

text \<open>
  A stream with one request \<open>a\<close>, whose callback object exists. \<open>out\<close> is what has gone out followed by
  what is queued.
\<close>

definition writing :: "('l, 'w \<times> cb_frames) stream_env \<Rightarrow> rid \<Rightarrow> cbid \<Rightarrow> BlockingWriteCallback \<Rightarrow>
    ('l, 'w \<times> cb_frames) stream \<Rightarrow> bool" where
  "writing env a cb c s \<longleftrightarrow> stream_ok env s [a] \<and> orderly (env_kernel env) (reqs s) [a] \<and>
     wr_callback (the (reqs s a)) = Some cb \<and> connectCallback s = None \<and> wcbs (snd (os s)) cb = Some c"

definition written_out :: "('l, 'w \<times> cb_frames) stream_env \<Rightarrow> cbid \<Rightarrow> BlockingWriteCallback \<Rightarrow>
    ('l, 'w \<times> cb_frames) stream \<Rightarrow> bool" where
  "written_out env cb c s \<longleftrightarrow> stream_ok env s [] \<and> connectCallback s = None \<and>
     wcbs (snd (os s)) cb = Some (c\<lparr>w_complete := True\<rparr>)"

lemma blocking_env_fields [simp]:
  "env_le (blocking_stream_env le k al self) = le" "env_kernel (blocking_stream_env le k al self) = lift_kernel k"
  "env_self (blocking_stream_env le k al self) = self" "env_alloc (blocking_stream_env le k al self) = al"
  "env_invoke (blocking_stream_env le k al self) = blocking_invoke"
  by (simp_all add: blocking_stream_env_def)

lemma stream_ok_os [simp]: "stream_ok env (s\<lparr>os := w\<rparr>) rs = stream_ok env s rs"
  by (simp add: stream_ok_def)

lemma os_simps [simp]: "the_watched env (s\<lparr>os := w\<rparr>) = the_watched env s" "the_fd (s\<lparr>os := w\<rparr>) = the_fd s"
  "the_watched env (s\<lparr>events := e\<rparr>) = the_watched env s" "the_fd (s\<lparr>events := e\<rparr>) = the_fd s"
  by (simp_all add: the_watched_def the_fd_def)

text \<open>A writable event writes the first \<open>t\<close> bytes of the request: all of them, or only some.\<close>

lemma write_event_all:
  assumes le: "libevent_ok le" and env: "env = blocking_stream_env le k al self" and w: "writing env a cb c s"
    and e: "write_extents (env_kernel env) (the_fd s) (req_extents (reqs s) a) 0 False (os s) =
      (of_nat (length (req_bytes (reqs s) a)), False, False, x)" and x: "snd x = snd (os s)"
  shows "\<exists>s'. write_loop (Suc fuel) env (Some a) s = Inr s' \<and> sock s' = sock s \<and> the_fd s' = the_fd s \<and> fst (os s') = fst x \<and>
    written_out env cb c s' \<and> \<not> broken k \<and> the_watched env s' = removeWrite (the_watched env s)"
proof -
  have ok: "stream_ok env s [a]" and cb: "wr_callback (the (reqs s a)) = Some cb" and cc: "connectCallback s = None"
    and c: "wcbs (snd (os s)) cb = Some c" using w by (auto simp: writing_def)
  have k: "env_kernel env = lift_kernel k" "env_invoke env = blocking_invoke" "env_le env = le" by (simp_all add: env)
  have good: "req_good (reqs s) a" using ok by (auto simp: stream_ok_def)
  have "libevent_ok (env_le env)" using le by (simp add: k)
  from write_turn_pops [OF this ok e, of fuel] obtain s1 where
    s1: "write_loop (Suc fuel) env (Some a) s =
      bindE (invoke_opt env Write_Complete (wr_callback (the (reqs s a))) s1) (write_loop fuel env (req_head s1))"
    "stream_ok env s1 []" "os s1 = x" "frame s s1" "events s1 = events s"
    "the_watched env s1 = removeWrite (the_watched env s)" by auto
  let ?s = "s1\<lparr>events := events s @ [Write_Complete cb],
    os := (fst x, (snd x)\<lparr>wcbs := (wcbs (snd x))(cb \<mapsto> c\<lparr>w_complete := True\<rparr>)\<rparr>)\<rparr>"
  have h1: "req_head s1 = None" using s1(2) by (simp add: stream_ok_def)
  have "invoke_opt env Write_Complete (wr_callback (the (reqs s a))) s1 = Inr ?s"
    using c s1(3,5) by (simp add: cb invoke_opt_def invoke_callback_def k x)
  then have "write_loop (Suc fuel) env (Some a) s = Inr ?s" using s1(1) by (simp add: h1)
  moreover have "\<not> broken k"
  proof
    assume "broken k"
    then have "broken (env_kernel env)" by (simp add: k lift_kernel_facts)
    from write_extents_broken [OF this req_extents_ok(3) [OF good], of "the_fd s" 0 False "os s"] e show False by simp
  qed
  moreover have "written_out env cb c ?s" using s1(2,4) cc by (simp add: written_out_def frame_def)
  moreover have "sock ?s = sock s" "the_fd ?s = the_fd s" using s1(4) by (simp_all add: frame_def)
  moreover have "the_watched env ?s = removeWrite (the_watched env s)" using s1(6) by simp
  ultimately show ?thesis by (intro exI [of _ ?s]) simp
qed

lemma write_event_some:
  assumes env: "env = blocking_stream_env le k al self" and w: "writing env a cb c s"
    and e: "write_extents (env_kernel env) (the_fd s) (req_extents (reqs s) a) 0 False (os s) = (of_nat t, b, f, x)"
      "contents (Buffer_drain (of_nat t) (wr_buffer (the (reqs s a)))) = drop t (req_bytes (reqs s) a)"
      "buf_inv (Buffer_drain (of_nat t) (wr_buffer (the (reqs s a))))"
    and t: "t < length (req_bytes (reqs s) a)" "b \<or> f" and x: "snd x = snd (os s)"
  shows "\<exists>s'. write_loop (Suc fuel) env (Some a) s = Inr s' \<and> sock s' = sock s \<and> the_fd s' = the_fd s \<and> fst (os s') = fst x \<and>
    writing env a cb (if f then c\<lparr>w_error := Some ''Write failed''\<rparr> else c) s' \<and> the_watched env s' = the_watched env s \<and>
    req_bytes (reqs s') a = drop t (req_bytes (reqs s) a)"
proof -
  have ok: "stream_ok env s [a]" and cb: "wr_callback (the (reqs s a)) = Some cb" and cc: "connectCallback s = None"
    and c: "wcbs (snd (os s)) cb = Some c" using w by (auto simp: writing_def)
  have k: "env_invoke env = blocking_invoke" by (simp add: env)
  have ne: "drop t (req_bytes (reqs s) a) \<noteq> []" using t(1) by simp
  from write_turn_keeps [OF ok t(2) e(1,3,2) ne, of fuel] obtain s1 where
    s1: "write_loop (Suc fuel) env (Some a) s = (if f then invoke_opt env (\<lambda>cb. Write_Error cb ''Write failed'')
      (wr_callback (the (reqs s a))) s1 else Inr s1)"
    "stream_ok env s1 [a]" "os s1 = x" "sbase s1 = sbase s" "frame s s1"
    "req_bytes (reqs s1) a = drop t (req_bytes (reqs s) a)"
    "wr_buffer (the (reqs s1 a)) = Buffer_drain (of_nat t) (wr_buffer (the (reqs s a)))"
    "wr_callback (the (reqs s1 a)) = wr_callback (the (reqs s a))" "events s1 = events s" by blast
  have ord1: "orderly (env_kernel env) (reqs s1) [a]"
    using w length_drain [of "of_nat t" "wr_buffer (the (reqs s a))"] s1(7) by (auto simp: writing_def orderly_def)
  define c' where "c' = (if f then c\<lparr>w_error := Some ''Write failed''\<rparr> else c)"
  let ?s = "if f then s1\<lparr>events := events s @ [Write_Error cb ''Write failed''],
    os := (fst x, (snd x)\<lparr>wcbs := (wcbs (snd x))(cb \<mapsto> c')\<rparr>)\<rparr> else s1"
  have "write_loop (Suc fuel) env (Some a) s = Inr ?s"
    using s1(1,3,9) c by (simp add: cb invoke_opt_def invoke_callback_def k x c'_def)
  moreover have "writing env a cb c' ?s" using s1(2,3,5,8) ord1 cb cc c
    by (auto simp: writing_def frame_def c'_def x)
  moreover have "sock ?s = sock s" "the_fd ?s = the_fd s" using s1(5) by (simp_all add: frame_def)
  moreover have "the_watched env ?s = the_watched env s" using s1(4,5) by (simp add: the_watched_def frame_def)
  moreover have "req_bytes (reqs ?s) a = drop t (req_bytes (reqs s) a)" "fst (os ?s) = fst x" using s1(3,6) by simp_all
  ultimately show ?thesis unfolding c'_def [symmetric] by (intro exI [of _ ?s] conjI)
qed

lemma write_event:
  assumes le: "libevent_ok le" and pw: "posix_write k written"
    and env: "env = blocking_stream_env le k al self" and w: "writing env a cb c s"
  shows "\<exists>s'. SockHandler_ready (Suc fuel) env WRITE s = Inr s' \<and> sock s' = sock s \<and> the_fd s' = the_fd s \<and>
    (written_out env cb c s' \<and> \<not> broken k \<and> the_watched env s' = removeWrite (the_watched env s) \<and>
       written (the_fd s) (fst (os s')) = written (the_fd s) (fst (os s)) @ req_bytes (reqs s) a \<or>
     (\<exists>c'. writing env a cb c' s' \<and> the_watched env s' = the_watched env s \<and>
       written (the_fd s) (fst (os s')) @ req_bytes (reqs s') a = written (the_fd s) (fst (os s)) @ req_bytes (reqs s) a \<and>
       (steady k \<longrightarrow> c' = c \<and> length (req_bytes (reqs s') a) < length (req_bytes (reqs s) a))))"
proof -
  have ok: "stream_ok env s [a]" and ord: "in_order (env_kernel env) (req_extents (reqs s) a)" and cc: "connectCallback s = None"
    using w orderly_in_order by (auto simp: writing_def)
  have k: "env_kernel env = lift_kernel k" by (simp add: env)
  have pw': "posix_write (env_kernel env) (\<lambda>fd x. written fd (fst x))" using lift_posix(1) [OF pw] by (simp add: k)
  have good: "req_good (reqs s) a" and al: "alive s" and hd: "req_head s = Some a" using ok by (auto simp: stream_ok_def)
  note ext = req_extents_ok [OF good]
  from head_written [OF ok pw' ord] obtain t b f x where
    e: "write_extents (env_kernel env) (the_fd s) (req_extents (reqs s) a) 0 False (os s) = (of_nat t, b, f, x)"
    "written (the_fd s) (fst x) = written (the_fd s) (fst (os s)) @ take t (req_bytes (reqs s) a)"
    "t \<le> length (req_bytes (reqs s) a)" "(b \<or> f) = (t < length (req_bytes (reqs s) a))"
    "buf_inv (Buffer_drain (of_nat t) (wr_buffer (the (reqs s a))))"
    "contents (Buffer_drain (of_nat t) (wr_buffer (the (reqs s a)))) = drop t (req_bytes (reqs s) a)" .
  have x: "snd x = snd (os s)" using e(1) unfolding k by (rule write_extents_lift)
  have ready: "SockHandler_ready (Suc fuel) env WRITE s = write_loop (Suc fuel) env (Some a) s"
    using cc al hd by (simp add: SockHandler_ready_def writeHelper_def deref_stream_def bindE_def split: sum.split)
  have l64: "length (req_bytes (reqs s) a) < 2 ^ 64" unfolding req_bytes_def
    using good by (intro buf_inv_bound) (simp add: req_good_def)
  then have t64: "t < 2 ^ 64" using e(3) by simp
  show ?thesis
  proof (cases "b \<or> f")
    case False
    then have t: "t = length (req_bytes (reqs s) a)" using e(3,4) by simp
    have "write_extents (env_kernel env) (the_fd s) (req_extents (reqs s) a) 0 False (os s) =
        (of_nat (length (req_bytes (reqs s) a)), False, False, x)" using e(1) False t by simp
    from write_event_all [OF le env w this x, of fuel] show ?thesis using ready e(2) t by auto
  next
    case True
    then have t: "t < length (req_bytes (reqs s) a)" using e(4) by simp
    have "\<not> f \<and> 0 < t" if "steady k"
    proof -
      have "steady (env_kernel env)" using that by (simp add: k lift_kernel_facts)
      from write_extents_steady [OF this pw' ext(2) ord ext(3) e(1) t64] l64 ext(1)
      show ?thesis using good by (simp add: req_good_def)
    qed
    then show ?thesis using write_event_some [OF env w e(1,6,5) t True x, of fuel] ready e(2) t by fastforce
  qed
qed

end
