(* ===== verification/Blocking_Properties.thy ===== *)
theory Blocking_Properties
  imports Blocking_Correct
begin

text \<open>
  The properties of the blocking stream of \<open>src/src/blocking_stream.cc\<close>: a blocking write delivers
  its bytes, and the situations in which it does not return.
\<close>

subsection \<open>A blocking write as turns of the loop\<close>

text \<open>The base with one request \<open>a\<close> on its stream, and with the request finished.\<close>

definition writing_base :: "('l, 'w \<times> cb_frames) stream_env \<Rightarrow> rid \<Rightarrow> cbid \<Rightarrow> BlockingWriteCallback \<Rightarrow>
    ('l, 'w) blocking_base \<Rightarrow> bool" where
  "writing_base env a cb c b \<longleftrightarrow> quiet_base b (sock (bos b)) \<and> writing env a cb c (the_stream b)"

definition written_base :: "('l, 'w \<times> cb_frames) stream_env \<Rightarrow> cbid \<Rightarrow> BlockingWriteCallback \<Rightarrow>
    ('l, 'w) blocking_base \<Rightarrow> bool" where
  "written_base env cb c b \<longleftrightarrow> quiet_base b (sock (bos b)) \<and> written_out env cb c (the_stream b) \<and>
     the_watched env (the_stream b) = NONE"

text \<open>What has gone out, and what is still queued.\<close>

definition gone :: "(int \<Rightarrow> 'w \<Rightarrow> byte array) \<Rightarrow> ('l, 'w) blocking_base \<Rightarrow> byte array" where
  "gone written b = written (the_fd (the_stream b)) (fst (os (the_stream b)))"

definition left :: "rid \<Rightarrow> ('l, 'w) blocking_base \<Rightarrow> byte array" where
  "left a b = req_bytes (reqs (the_stream b)) a"

lemma gone_put [simp]: "gone written (put_stream b s) = written (the_fd s) (fst (os s))"
  by (simp add: gone_def)

lemma left_put [simp]: "left a (put_stream b s) = req_bytes (reqs s) a"
  by (simp add: left_def)

lemma left_ne: "writing_base env a cb c b \<Longrightarrow> left a b \<noteq> []"
  by (simp add: writing_base_def writing_def stream_ok_def req_good_def left_def)

text \<open>The stream can always be written to.\<close>

definition writable :: "('l, 'w \<times> cb_frames) stream_env \<Rightarrow> (('l, 'w \<times> cb_frames) stream \<Rightarrow> What) \<Rightarrow> bool" where
  "writable env poll \<longleftrightarrow> (\<forall>s. the_watched env s = WRITE \<longrightarrow> poll s = WRITE)"

lemma write_turn:
  assumes "libevent_ok le" "posix_write k written" "env = blocking_stream_env le k al self"
    "one_handler (blocking_loop_env (Suc fuel) env lenv) env poll" "0 < lp_fuel lenv"
    "writing_base env a cb c b" "the_watched env (the_stream b) = WRITE" "writable env poll"
  shows "\<exists>b'. loop_turns (Suc n) (blocking_loop_env (Suc fuel) env lenv) UNTIL_EMPTY b =
      loop_turns n (blocking_loop_env (Suc fuel) env lenv) UNTIL_EMPTY b' \<and>
    (written_base env cb c b' \<and> \<not> broken k \<and> gone written b' = gone written b @ left a b \<or>
     (\<exists>c'. writing_base env a cb c' b' \<and> the_watched env (the_stream b') = WRITE \<and>
       gone written b' @ left a b' = gone written b @ left a b \<and>
       (steady k \<longrightarrow> c' = c \<and> length (left a b') < length (left a b))))"
proof -
  have q: "quiet_base b (sock (bos b))" and w: "writing env a cb c (the_stream b)"
    using assms(6) by (simp_all add: writing_base_def)
  have p: "poll (the_stream b) = WRITE" using assms(7,8) by (simp add: writable_def)
  from write_event [OF assms(1-3) w, of fuel] obtain s' where
    s': "SockHandler_ready (Suc fuel) env WRITE (the_stream b) = Inr s'" "sock s' = sock (bos b)"
      "the_fd s' = the_fd (the_stream b)" and
    cases: "written_out env cb c s' \<and> the_watched env s' = NONE \<and> \<not> broken k \<and>
       written (the_fd (the_stream b)) (fst (os s')) = gone written b @ left a b \<or>
     (\<exists>c'. writing env a cb c' s' \<and> the_watched env s' = WRITE \<and>
       written (the_fd (the_stream b)) (fst (os s')) @ req_bytes (reqs s') a = gone written b @ left a b \<and>
       (steady k \<longrightarrow> c' = c \<and> length (req_bytes (reqs s') a) < length (left a b)))"
    by (auto simp: assms(7) gone_def left_def removeWrite_def)
  have "loop_turns (Suc n) (blocking_loop_env (Suc fuel) env lenv) UNTIL_EMPTY b =
      loop_turns n (blocking_loop_env (Suc fuel) env lenv) UNTIL_EMPTY (put_stream b s')"
    using loop_turn [OF assms(4) q assms(5), of n] by (simp add: assms(7) p s'(1) del: loop_turns.simps)
  then show ?thesis using cases q s'(2,3)
    by (intro exI [of _ "put_stream b s'"]) (simp add: writing_base_def written_base_def del: loop_turns.simps)
qed

lemma loop_turns_empty:
  assumes "one_handler (blocking_loop_env fuel env lenv) env poll" "0 < lp_fuel lenv" "written_base env cb c b"
  shows "loop_turns (Suc n) (blocking_loop_env fuel env lenv) UNTIL_EMPTY b = Inr b"
  using loop_turn [OF assms(1) _ assms(2), of b n] assms(3) by (simp add: written_base_def del: loop_turns.simps)

lemma write_turns_deliver:
  assumes "libevent_ok le" "posix_write k written" "env = blocking_stream_env le k al self"
    "one_handler (blocking_loop_env (Suc fuel) env lenv) env poll" "0 < lp_fuel lenv" "writable env poll" "steady k"
  shows "writing_base env a cb c b \<Longrightarrow> the_watched env (the_stream b) = WRITE \<Longrightarrow> length (left a b) < n \<Longrightarrow>
    \<exists>b'. loop_turns n (blocking_loop_env (Suc fuel) env lenv) UNTIL_EMPTY b = Inr b' \<and> written_base env cb c b' \<and>
      gone written b' = gone written b @ left a b"
proof (induction n arbitrary: b)
  case (Suc n)
  have n: "0 < n" using left_ne [OF Suc.prems(1)] Suc.prems(3) by (cases n) auto
  from write_turn [OF assms(1-5) Suc.prems(1,2) assms(6), of n] obtain b1 where
    b1: "loop_turns (Suc n) (blocking_loop_env (Suc fuel) env lenv) UNTIL_EMPTY b =
      loop_turns n (blocking_loop_env (Suc fuel) env lenv) UNTIL_EMPTY b1" and
    cases: "written_base env cb c b1 \<and> gone written b1 = gone written b @ left a b \<or>
     (writing_base env a cb c b1 \<and> the_watched env (the_stream b1) = WRITE \<and>
       gone written b1 @ left a b1 = gone written b @ left a b \<and> length (left a b1) < length (left a b))"
    using assms(7) by blast
  from cases show ?case
  proof
    assume w: "written_base env cb c b1 \<and> gone written b1 = gone written b @ left a b"
    then have "loop_turns n (blocking_loop_env (Suc fuel) env lenv) UNTIL_EMPTY b1 = Inr b1"
      using loop_turns_empty [OF assms(4,5), of cb c b1 "n - 1"] n by simp
    then show ?thesis using w b1 by simp
  next
    assume w: "writing_base env a cb c b1 \<and> the_watched env (the_stream b1) = WRITE \<and>
       gone written b1 @ left a b1 = gone written b @ left a b \<and> length (left a b1) < length (left a b)"
    then have "length (left a b1) < n" using Suc.prems(3) by simp
    then show ?thesis using Suc.IH [of b1] w b1 by (metis (no_types))
  qed
qed simp

lemma write_turns_spin:
  assumes "libevent_ok le" "posix_write k written" "env = blocking_stream_env le k al self"
    "one_handler (blocking_loop_env (Suc fuel) env lenv) env poll" "0 < lp_fuel lenv" "writable env poll" "broken k"
  shows "writing_base env a cb c b \<Longrightarrow> the_watched env (the_stream b) = WRITE \<Longrightarrow>
    loop_turns n (blocking_loop_env (Suc fuel) env lenv) UNTIL_EMPTY b = Inl Out_Of_Fuel"
proof (induction n arbitrary: b c)
  case (Suc n)
  from write_turn [OF assms(1-5) Suc.prems assms(6), of n] assms(7) obtain b1 c1 where
    "loop_turns (Suc n) (blocking_loop_env (Suc fuel) env lenv) UNTIL_EMPTY b =
      loop_turns n (blocking_loop_env (Suc fuel) env lenv) UNTIL_EMPTY b1"
    "writing_base env a cb c1 b1" "the_watched env (the_stream b1) = WRITE" by blast
  then show ?case using Suc.IH by simp
qed simp


text \<open>A base that is not running its loop, with a stream that has nothing queued.\<close>

definition idle_base :: "('l, 'w \<times> cb_frames) stream_env \<Rightarrow> ('l, 'w) blocking_base \<Rightarrow> bool" where
  "idle_base env b \<longleftrightarrow> quiet_base b (sock (bos b)) \<and> stream_ok env (the_stream b) [] \<and> connectCallback (bos b) = None"

lemma cb_simps [simp]:
  "the_fd (wcb_new cb s) = the_fd s" "the_fd (wcb_delete cb s) = the_fd s"
  "the_watched env (wcb_new cb s) = the_watched env s" "the_watched env (wcb_delete cb s) = the_watched env s"
  "stream_ok env (wcb_new cb s) rs = stream_ok env s rs" "stream_ok env (wcb_delete cb s) rs = stream_ok env s rs"
  "sock (wcb_new cb s) = sock s" "sock (wcb_delete cb s) = sock s"
  "connectCallback (wcb_new cb s) = connectCallback s" "connectCallback (wcb_delete cb s) = connectCallback s"
  "fst (os (wcb_new cb s)) = fst (os s)" "fst (os (wcb_delete cb s)) = fst (os s)"
  by (simp_all add: wcb_new_def wcb_delete_def)

text \<open>The end of the loop, and the end of \<open>write\<close>.\<close>

definition loop_ended :: "('l, 'w) blocking_base \<Rightarrow> ('l, 'w) blocking_base" where
  "loop_ended b = b\<lparr>terminate := False, reg := (reg b)\<lparr>loopThread := 0\<rparr>, finished := True\<rparr>"

definition write_end :: "cbid \<Rightarrow> ('l, 'w) blocking_base \<Rightarrow> fault + string option \<times> ('l, 'w) blocking_base" where
  "write_end cb b = (case wcbs (snd (os (the_stream b))) cb of
       None \<Rightarrow> Inl Use_After_Free
     | Some c \<Rightarrow> let b = put_stream b (wcb_delete cb (the_stream b)) in
         (case w_error c of
            Some e \<Rightarrow> Inr (Some e, b)
          | None \<Rightarrow> bindE (assertE ''cb.complete_'' (w_complete c)) (\<lambda>_. Inr (None, b))))"

lemma Blocking_write_turns:
  "Blocking_write turns lenv env a cb buf n b =
     bindE (on_stream (\<lambda>s. Stream_write env a buf n (Some cb) (wcb_new cb s)) b) (\<lambda>b.
     bindE (loop_turns turns lenv UNTIL_EMPTY (b\<lparr>reg := (reg b)\<lparr>loopThread := env_self env\<rparr>, finished := False\<rparr>))
       (\<lambda>b. write_end cb (loop_ended b)))"
  by (simp add: Blocking_write_def EventBase_loop_def loop_start_def loop_finish_def write_end_def loop_ended_def
    bindE_assoc cong: option.case_cong)

lemma the_stream_ended [simp]:
  "the_stream (loop_ended b) = (the_stream b)\<lparr>sbase := (sbase (the_stream b))\<lparr>loopThread := 0\<rparr>\<rparr>"
  by (simp add: the_stream_def loop_ended_def)

lemma blocking_write_starts:
  assumes "libevent_ok le" "env = blocking_stream_env le k al self" "idle_base env b" "can_write env bs"
  shows "\<exists>b1. (\<forall>turns lenv. Blocking_write turns lenv env a cb bs (of_nat (length bs)) b =
      bindE (loop_turns turns lenv UNTIL_EMPTY b1) (\<lambda>b. write_end cb (loop_ended b))) \<and>
    writing_base env a cb \<lparr>w_error = None, w_complete = False\<rparr> b1 \<and>
    the_watched env (the_stream b1) = ensureWrite (the_watched env (the_stream b)) \<and>
    gone written b1 = gone written b \<and> left a b1 = map Some bs \<and> the_fd (the_stream b1) = the_fd (the_stream b)"
proof -
  let ?s = "wcb_new cb (the_stream b)"
  have ok: "stream_ok env ?s []" "connectCallback ?s = None"
    using assms(3) by (simp_all add: idle_base_def the_stream_def)
  have le: "libevent_ok (env_le env)" using assms(1,2) by simp
  from write_empty [OF le ok(1) assms(4), of a "Some cb"] obtain s1 where
    s1: "Stream_write env a bs (of_nat (length bs)) (Some cb) ?s = Inr s1" "enqueued env ?s [] a bs (Some cb) s1" by blast
  note f = enqueued_facts [OF s1(2)]
  let ?b = "put_stream b s1"
  let ?b1 = "?b\<lparr>reg := (reg ?b)\<lparr>loopThread := env_self env\<rparr>, finished := False\<rparr>"
  have st: "the_stream ?b1 = s1\<lparr>sbase := (sbase s1)\<lparr>loopThread := env_self env\<rparr>\<rparr>"
    by (simp add: the_stream_def put_stream_def)
  have "writing env a cb \<lparr>w_error = None, w_complete = False\<rparr> (the_stream ?b1)"
    unfolding st writing_def using f(1,4,5,11,12) ok(2) stream_ok_thread [of env s1 "[a]" "env_self env"]
    by (auto simp: wcb_new_def orderly_def completes_def split: option.splits)
  moreover have "quiet_base ?b1 (sock (bos ?b1))" using assms(3) f(6)
    by (simp add: idle_base_def quiet_base_def put_stream_def frame_def)
  moreover have "on_stream (\<lambda>s. Stream_write env a bs (of_nat (length bs)) (Some cb) (wcb_new cb s)) b = Inr ?b"
    using s1(1) by (simp add: on_stream_def)
  then have "\<forall>turns lenv. Blocking_write turns lenv env a cb bs (of_nat (length bs)) b =
      bindE (loop_turns turns lenv UNTIL_EMPTY ?b1) (\<lambda>b. write_end cb (loop_ended b))"
    by (simp add: Blocking_write_turns)
  ultimately show ?thesis using f(2,5,10,13) st
    by (intro exI [of _ ?b1]) (simp add: writing_base_def gone_def left_def)
qed


lemma loop_ended_simps [simp]:
  "notify_queue (loop_ended b) = notify_queue b" "notify_handler (loop_ended b) = notify_handler b"
  "\<not> terminate (loop_ended b)" "sock (bos (loop_ended b)) = sock (bos b)"
  by (simp_all add: loop_ended_def)

lemma write_ends:
  assumes "written_base env cb \<lparr>w_error = None, w_complete = False\<rparr> b"
  shows "\<exists>b'. write_end cb (loop_ended b) = Inr (None, b') \<and> idle_base env b' \<and> the_watched env (the_stream b') = NONE \<and>
    gone written b' = gone written b \<and> the_fd (the_stream b') = the_fd (the_stream b)"
proof -
  let ?s = "(the_stream b)\<lparr>sbase := (sbase (the_stream b))\<lparr>loopThread := 0\<rparr>\<rparr>"
  let ?b = "put_stream (loop_ended b) (wcb_delete cb ?s)"
  have "stream_ok env ?s []" "connectCallback ?s = None" "wcbs (snd (os ?s)) cb = Some \<lparr>w_error = None, w_complete = True\<rparr>"
    "quiet_base b (sock (bos b))" "the_watched env ?s = NONE"
    using assms stream_ok_thread [of env "the_stream b" "[]" 0] by (simp_all add: written_base_def written_out_def)
  moreover have "connectCallback (bos ?b) = connectCallback ?s"
    by (simp add: put_stream_def wcb_delete_def)
  ultimately show ?thesis
    by (intro exI [of _ ?b]) (simp add: write_end_def idle_base_def gone_def quiet_base_def)
qed

subsection \<open>A stream that is registered for reading\<close>

text \<open>Nothing arrives, and a stream is found writable only when it is registered for writing.\<close>

definition deaf :: "('l, 'w \<times> cb_frames) stream_env \<Rightarrow> (('l, 'w \<times> cb_frames) stream \<Rightarrow> What) \<Rightarrow> bool" where
  "deaf env poll \<longleftrightarrow> (\<forall>s. \<not> isRead (poll s) \<and> (isWrite (poll s) \<longrightarrow> isWrite (the_watched env s)))"

definition reading_base :: "('l, 'w \<times> cb_frames) stream_env \<Rightarrow> rid \<Rightarrow> cbid \<Rightarrow> ('l, 'w) blocking_base \<Rightarrow> bool" where
  "reading_base env a cb b \<longleftrightarrow> quiet_base b (sock (bos b)) \<and>
     ((\<exists>c. writing env a cb c (the_stream b)) \<and> the_watched env (the_stream b) = READ_WRITE \<or>
      the_watched env (the_stream b) = READ)"

lemma deaf_turn:
  assumes "libevent_ok le" "posix_write k written" "env = blocking_stream_env le k al self"
    "one_handler (blocking_loop_env (Suc fuel) env lenv) env poll" "0 < lp_fuel lenv"
    "reading_base env a cb b" "deaf env poll"
  shows "\<exists>b'. loop_turns (Suc n) (blocking_loop_env (Suc fuel) env lenv) UNTIL_EMPTY b =
      loop_turns n (blocking_loop_env (Suc fuel) env lenv) UNTIL_EMPTY b' \<and> reading_base env a cb b'"
proof -
  have q: "quiet_base b (sock (bos b))" and r: "the_watched env (the_stream b) \<noteq> NONE"
    using assms(6) by (auto simp: reading_base_def)
  note turn = loop_turn [OF assms(4) q assms(5), of n]
  have p: "\<not> isRead (poll (the_stream b))" using assms(7) by (simp add: deaf_def)
  show ?thesis
  proof (cases "isWrite (poll (the_stream b))")
    case False
    then have "SockHandler_ready (Suc fuel) env (poll (the_stream b)) (the_stream b) = Inr (the_stream b)"
      using p by (simp add: SockHandler_ready_def)
    moreover have "reading_base env a cb (put_stream b (the_stream b))" using assms(6) by (simp add: reading_base_def)
    ultimately show ?thesis using turn r by (intro exI [of _ "put_stream b (the_stream b)"]) (simp del: loop_turns.simps)
  next
    case True
    then have W: "poll (the_stream b) = WRITE" using p by (cases "poll (the_stream b)") (simp_all add: what_defs)
    have "isWrite (the_watched env (the_stream b))" using True assms(7) by (simp add: deaf_def)
    then obtain c where c: "writing env a cb c (the_stream b)" and rw: "the_watched env (the_stream b) = READ_WRITE"
      using assms(6) by (auto simp: reading_base_def what_defs)
    from write_event [OF assms(1-3) c, of fuel] rw obtain s' where
      s': "SockHandler_ready (Suc fuel) env WRITE (the_stream b) = Inr s'" "sock s' = sock (the_stream b)"
      "the_watched env s' = READ \<or> (\<exists>c'. writing env a cb c' s') \<and> the_watched env s' = READ_WRITE"
      by (auto simp: removeWrite_def)
    then have "reading_base env a cb (put_stream b s')" using q by (auto simp: reading_base_def)
    then show ?thesis using turn r W s'(1) by (intro exI [of _ "put_stream b s'"]) (simp del: loop_turns.simps)
  qed
qed

lemma deaf_turns:
  assumes "libevent_ok le" "posix_write k written" "env = blocking_stream_env le k al self"
    "one_handler (blocking_loop_env (Suc fuel) env lenv) env poll" "0 < lp_fuel lenv" "deaf env poll"
  shows "reading_base env a cb b \<Longrightarrow>
    loop_turns n (blocking_loop_env (Suc fuel) env lenv) UNTIL_EMPTY b = Inl Out_Of_Fuel"
proof (induction n arbitrary: b)
  case (Suc n)
  from deaf_turn [OF assms(1-5) Suc.prems assms(6), of n] Suc.IH show ?case by metis
qed simp

subsection \<open>A system to run on\<close>

text \<open>An \<open>event_base_loop\<close> that finds the events that \<open>poll\<close> says.\<close>

definition polled_env :: "('l, 'w \<times> cb_frames) stream_env \<Rightarrow> (('l, 'w \<times> cb_frames) stream \<Rightarrow> What) \<Rightarrow>
    ('l, ('l, 'w \<times> cb_frames) stream) loop_env" where
  "polled_env env poll = \<lparr>lp_le = env_le env, lp_kernel = idle_kernel, lp_pipe = (\<lambda>w. (0, 3, 4, w)),
     lp_loopexit = (\<lambda>l. l), lp_base_free = (\<lambda>l. l), lp_client = (\<lambda>c b. Inr b),
     lp_ready = (\<lambda>h what b. Inr b), lp_expired = (\<lambda>t b. Inr b),
     lp_loop = (\<lambda>d b. if the_watched env (the_stream b) = NONE then Inr (1, b)
       else let fl = le_flags (env_le env) in
         bindE (d (libeventCallback (sock (bos b))) (short (toFlags fl (poll (the_stream b)) OR EV_PERSIST fl)) b)
           (\<lambda>b. Inr (0, b))),
     lp_fuel = 1\<rparr>"

lemma polled_env_ok:
  assumes "libevent_ok (env_le env)"
  shows "one_handler (blocking_loop_env fuel env (polled_env env poll)) env poll" "0 < lp_fuel (polled_env env poll)"
proof -
  let ?fl = "\<lambda>b. short (toFlags (le_flags (env_le env)) (poll (the_stream b)) OR EV_PERSIST (le_flags (env_le env)))"
  have "fromFlags (le_flags (env_le env)) (?fl b) = poll (the_stream b)" for b
    using fromFlags_toFlags libevent_laws(1) [OF assms] by blast
  moreover have "lp_loop (polled_env env poll) d b = (if the_watched env (the_stream b) = NONE then Inr (1, b)
      else bindE (d (libeventCallback (sock (bos b))) (?fl b) b) (\<lambda>b. Inr (0, b)))" for d b
    by (simp add: polled_env_def Let_def)
  ultimately show "one_handler (blocking_loop_env fuel env (polled_env env poll)) env poll"
    unfolding one_handler_def lp_fields by (metis (no_types, lifting))
qed (simp add: polled_env_def)

definition blocking_model_env :: "script kernel \<Rightarrow> (event \<Rightarrow> 16 word \<times> bool, script \<times> cb_frames) stream_env" where
  "blocking_model_env k = blocking_stream_env libevent_model k malloc_model 5"

text \<open>A base and a stream on descriptor 8, which a read has left registered if \<open>rd\<close>.\<close>

definition model_stream :: "bool \<Rightarrow> (event \<Rightarrow> 16 word \<times> bool, script \<times> cb_frames) stream" where
  "model_stream rd = (let s = StreamImpl_init base_model 1 8 (([], []), \<lparr>wcbs = Map.empty, rcbs = Map.empty\<rparr>) in
     if rd then s\<lparr>readCallback := Some 6, sbase := (sbase s)\<lparr>lbase := (\<lambda>_. (0, False))(Ev_Handler 1 := (18, True)),
       handlers := [1 \<mapsto> \<lparr>eh_fd = 8, eh_impl = Some \<lparr>he_base = 1, he_registered = True\<rparr>\<rparr>]\<rparr>\<rparr>
     else s)"

definition model_base :: "bool \<Rightarrow> (event \<Rightarrow> 16 word \<times> bool, script) blocking_base" where
  "model_base rd = \<lparr>reg = sbase (model_stream rd), terminate = False, finished = True, notify_type = PIPE,
     notify_queue = mpsc_init Empty_Op 0, notify_fds = (3, 4), notify_handler = 9, frames = Map.empty,
     bos = model_stream rd, ran = []\<rparr>"

lemma model_base_ok:
  "idle_base (blocking_model_env k) (model_base rd)"
  "the_watched (blocking_model_env k) (the_stream (model_base rd)) = (if rd then READ else NONE)"
  "the_fd (the_stream (model_base rd)) = 8" "fst (os (the_stream (model_base rd))) = ([], [])"
  by (cases rd; auto simp: Let_def idle_base_def quiet_base_def model_base_def model_stream_def the_stream_def represents_init stream_ok_def
    StreamImpl_init_def EventHandler_new_def blocking_model_env_def reg_inv_def
    base_model_def libevent_model_def may_register_def inLoopThread_def usable_def eh_defs the_watched_def the_fd_def
    watching_def handler_registered_def timeout_registered_def fromFlags_def ALL_BITS_SET_def short_def)+

lemma model_env_ok:
  "libevent_ok (env_le (blocking_model_env k))" "blocking_model_env k = blocking_stream_env libevent_model k malloc_model 5"
  "can_write (blocking_model_env k) bs \<longleftrightarrow> bs \<noteq> [] \<and> length bs < 2 ^ 64 \<and> malloc_model (of_nat (length bs))"
  by (simp_all add: blocking_model_env_def libevent_model_ok can_write_def malloc_model_bounded)

text \<open>A kernel that takes everything, and one that takes nothing.\<close>

definition failing_kernel :: "script kernel" where
  "failing_kernel = script_kernel\<lparr>k_write := (\<lambda>fd buf n w. (- 1, w))\<rparr>"

lemma model_kernels:
  "steady taking_kernel" "broken failing_kernel" "posix_write failing_kernel (\<lambda>fd w. snd w)"
proof -
  have "1 \<le> int (unat n)" if "0 < n" for n :: size_t
  proof -
    have "0 < unat n" using that by (simp only: word_less_nat_alt unat_0)
    then show ?thesis by linarith
  qed
  then show "steady taking_kernel" by (simp add: steady_def taking_kernel_def)
  have "- 1 \<le> uint n" for n :: size_t using uint_ge_0 [of n] by linarith
  then show "broken failing_kernel" "posix_write failing_kernel (\<lambda>fd w. snd w)"
    by (auto simp: broken_def posix_write_def failing_kernel_def)
qed

subsection \<open>Properties\<close>

text \<open>C17: A blocking write delivers its bytes. On an idle stream that no read has left registered, when
  the descriptor is always writable and the kernel takes one byte at least at each call, \<open>write\<close>
  returns without an exception after at most one turn of the loop more than there are bytes (the
  last turn finds nothing left to wait for): all bytes have gone out, in order, the stream is
  registered for nothing and the base is idle again.\<close>

theorem blocking_write_delivers:
  assumes "libevent_ok le" and "posix_write k written" and "steady k"
    and "env = blocking_stream_env le k al self"
    and "one_handler (blocking_loop_env (Suc fuel) env lenv) env poll" and "0 < lp_fuel lenv" and "writable env poll"
    and "idle_base env b" and "the_watched env (the_stream b) = NONE" and "can_write env bs" and "length bs < turns"
  shows "\<exists>b'. Blocking_write turns (blocking_loop_env (Suc fuel) env lenv) env a cb bs (of_nat (length bs)) b = Inr (None, b') \<and>
    written (the_fd (the_stream b')) (fst (os (the_stream b'))) =
      written (the_fd (the_stream b)) (fst (os (the_stream b))) @ map Some bs \<and>
    the_watched env (the_stream b') = NONE \<and> idle_base env b'"
proof -
  from blocking_write_starts [OF assms(1,4,8,10), of a cb written] obtain b1 where
    b1: "Blocking_write turns (blocking_loop_env (Suc fuel) env lenv) env a cb bs (of_nat (length bs)) b =
      bindE (loop_turns turns (blocking_loop_env (Suc fuel) env lenv) UNTIL_EMPTY b1) (\<lambda>b. write_end cb (loop_ended b))"
    "writing_base env a cb \<lparr>w_error = None, w_complete = False\<rparr> b1" "the_watched env (the_stream b1) = WRITE"
    "gone written b1 = gone written b" "left a b1 = map Some bs" by (auto simp: assms(9) ensureWrite_def)
  from write_turns_deliver [OF assms(1,2,4-7,3) b1(2,3), of turns] assms(11) b1(5) obtain b2 where
    b2: "loop_turns turns (blocking_loop_env (Suc fuel) env lenv) UNTIL_EMPTY b1 = Inr b2"
    "written_base env cb \<lparr>w_error = None, w_complete = False\<rparr> b2" "gone written b2 = gone written b1 @ left a b1" by auto
  from write_ends [OF b2(2), of written] b1 b2 show ?thesis by (auto simp: gone_def)
qed

theorem blocking_write_delivers_witness:
  "\<exists>b'. Blocking_write 9 (blocking_loop_env 1 (blocking_model_env taking_kernel) (polled_env (blocking_model_env taking_kernel)
      (\<lambda>s. the_watched (blocking_model_env taking_kernel) s))) (blocking_model_env taking_kernel) 0 4 ''hello'' 5 (model_base False) = Inr (None, b') \<and>
    snd (fst (os (the_stream b'))) = map Some ''hello''"
  using blocking_write_delivers [OF libevent_model_ok(1) taking_env_ok(4) model_kernels(1) model_env_ok(2)
    polled_env_ok [OF model_env_ok(1)] _ model_base_ok(1), of "\<lambda>s. the_watched (blocking_model_env taking_kernel) s" False
    "''hello''" 9 0 0 4]
  by (auto simp: model_base_ok writable_def model_env_ok(3) malloc_model_def)

text \<open>A blocking write does not report an error. \<open>write\<close> is documented to throw, and it throws the
  error of its callback once the loop has ended; but the stream keeps a request that failed, and stays
  registered for it, so that on a descriptor on which every call of \<open>write\<close> fails (the peer is gone)
  the loop finds the descriptor writable for ever: whatever the number of turns, \<open>write\<close> has not
  returned.\<close>

theorem blocking_write_error_spins:
  assumes "libevent_ok le" and "posix_write k written" and "broken k"
    and "env = blocking_stream_env le k al self"
    and "one_handler (blocking_loop_env (Suc fuel) env lenv) env poll" and "0 < lp_fuel lenv" and "writable env poll"
    and "idle_base env b" and "the_watched env (the_stream b) = NONE" and "can_write env bs"
  shows "Blocking_write turns (blocking_loop_env (Suc fuel) env lenv) env a cb bs (of_nat (length bs)) b = Inl Out_Of_Fuel"
proof -
  from blocking_write_starts [OF assms(1,4,8,10), of a cb written] obtain b1 where
    b1: "Blocking_write turns (blocking_loop_env (Suc fuel) env lenv) env a cb bs (of_nat (length bs)) b =
      bindE (loop_turns turns (blocking_loop_env (Suc fuel) env lenv) UNTIL_EMPTY b1) (\<lambda>b. write_end cb (loop_ended b))"
    "writing_base env a cb \<lparr>w_error = None, w_complete = False\<rparr> b1" "the_watched env (the_stream b1) = WRITE"
    by (auto simp: assms(9) ensureWrite_def)
  from write_turns_spin [OF assms(1,2,4-7,3) b1(2,3)] b1(1) show ?thesis by simp
qed


theorem blocking_write_error_spins_witness:
  "Blocking_write 1000 (blocking_loop_env 1 (blocking_model_env failing_kernel) (polled_env (blocking_model_env failing_kernel)
     (\<lambda>s. the_watched (blocking_model_env failing_kernel) s))) (blocking_model_env failing_kernel) 0 4 ''hello'' 5 (model_base False) =
   Inl Out_Of_Fuel"
  using blocking_write_error_spins [OF libevent_model_ok(1) model_kernels(3,2) model_env_ok(2)
    polled_env_ok [OF model_env_ok(1)] _ model_base_ok(1), of "\<lambda>s. the_watched (blocking_model_env failing_kernel) s" False
    "''hello''" 1000 0 0 4]
  by (auto simp: model_base_ok writable_def model_env_ok(3) malloc_model_def)

text \<open>A blocking write after a read does not return. \<open>read\<close> never calls \<open>stopRead\<close>, so it leaves the
  stream registered for reading, and \<open>write\<close> waits for the base to have nothing registered: as long as
  no input arrives, whatever the kernel does with the bytes and whatever the number of turns of the
  loop, \<open>write\<close> has not returned, also when all its bytes have gone out.\<close>

theorem blocking_write_after_read_hangs:
  assumes "libevent_ok le" and "posix_write k written" and "env = blocking_stream_env le k al self"
    and "one_handler (blocking_loop_env (Suc fuel) env lenv) env poll" and "0 < lp_fuel lenv" and "deaf env poll"
    and "idle_base env b" and "the_watched env (the_stream b) = READ" and "can_write env bs"
  shows "Blocking_write turns (blocking_loop_env (Suc fuel) env lenv) env a cb bs (of_nat (length bs)) b = Inl Out_Of_Fuel"
proof -
  from blocking_write_starts [OF assms(1,3,7,9), of a cb written] obtain b1 where
    b1: "Blocking_write turns (blocking_loop_env (Suc fuel) env lenv) env a cb bs (of_nat (length bs)) b =
      bindE (loop_turns turns (blocking_loop_env (Suc fuel) env lenv) UNTIL_EMPTY b1) (\<lambda>b. write_end cb (loop_ended b))"
    "writing_base env a cb \<lparr>w_error = None, w_complete = False\<rparr> b1" "the_watched env (the_stream b1) = READ_WRITE"
    by (auto simp: assms(8) ensureWrite_def)
  then have "reading_base env a cb b1" by (auto simp: reading_base_def writing_base_def)
  from deaf_turns [OF assms(1-6) this] b1(1) show ?thesis by simp
qed

theorem blocking_write_after_read_hangs_witness:
  "Blocking_write 1000 (blocking_loop_env 1 (blocking_model_env taking_kernel) (polled_env (blocking_model_env taking_kernel)
     (\<lambda>s. if isWrite (the_watched (blocking_model_env taking_kernel) s) then WRITE else NONE)))
     (blocking_model_env taking_kernel) 0 4 ''hello'' 5 (model_base True) = Inl Out_Of_Fuel"
  using blocking_write_after_read_hangs [OF libevent_model_ok(1) taking_env_ok(4) model_env_ok(2)
    polled_env_ok [OF model_env_ok(1)] _ model_base_ok(1),
    of "\<lambda>s. if isWrite (the_watched (blocking_model_env taking_kernel) s) then WRITE else NONE" True "''hello''" 1000 0 0 4]
  by (auto simp: model_base_ok deaf_def what_defs model_env_ok(3) malloc_model_def)

end
