(* ===== verification/Blocking_Read.thy ===== *)
theory Blocking_Read
  imports Blocking_Properties Stream_Read
begin

text \<open>
  The read side of \<open>src/src/blocking_stream.cc\<close>: what \<open>available\<close> does with each chunk, a turn of
  \<open>loop(ONCE)\<close> as a readable event, and the properties of \<open>read\<close>.
\<close>

subsection \<open>The callback\<close>

text \<open>A buffer without bytes has no extents; it holds for a new buffer, and reading keeps it.\<close>

definition clean :: "BufferImpl \<Rightarrow> bool" where
  "clean b \<longleftrightarrow> (contents b = [] \<longrightarrow> extents b = [])"

lemma read_one_extent:
  assumes "buf_inv b" "extents b = [e]" "ext_bytes e \<noteq> []" "unat n \<le> length out"
  shows "\<exists>b'. Buffer_read out n b =
      Inr (take (unat n) (contents b) @ drop (min (unat n) (length (contents b))) out,
           of_nat (min (unat n) (length (contents b))), b') \<and>
    buf_inv b' \<and> clean b' \<and> contents b' = drop (unat n) (contents b)"
proof -
  have ok: "ext_ok e" using assms(1,2) by (simp add: buf_inv_def)
  have c: "contents b = ext_bytes e" using assms(2) by (simp add: contents_def)
  have "length (ext_bytes e) = unat (readable e)" by (rule length_ext_bytes [OF ok])
  then have "read_fits n b" using assms(2) c by (simp add: read_fits_def linear)
  from read_internal_ok [OF assms(1) this assms(4), of True] obtain b' where
    b': "read_internal True out n b = Inr (take (unat n) (contents b) @ drop (min (unat n) (length (contents b))) out,
        of_nat (min (unat n) (length (contents b))), b')"
    "buf_inv b'" "contents b' = drop (unat n) (contents b)" by auto
  have "clean b'"
  proof (cases "n = 0")
    case True
    then show ?thesis using b'(3) c assms(3) by (simp add: clean_def)
  next
    case False
    then have n: "0 < n" by (simp add: word_gt_0)
    obtain ys where ys: "extents b' = ys" "ys = [] \<or> (\<exists>e'. ys = [e'] \<and> readable e' \<noteq> 0)"
      using b'(1) n assms(2)
      by (auto simp: read_internal_def bindE_eq_Inr Let_def ie_consume_def readable_def split: prod.splits if_splits)
    then show ?thesis using b'(2) length_ext_bytes
      by (fastforce simp: clean_def contents_def buf_inv_def unat_eq_0)
  qed
  with b' show ?thesis by (simp add: Buffer_read_def)
qed

lemma read_nothing: "Buffer_read out 0 b = Inr (out, 0, b)"
  by (cases "extents b") (simp_all add: Buffer_read_def read_internal_def)

text \<open>
  The callback object \<open>cb\<close> of a read of \<open>n\<close> bytes into \<open>out\<close> has been offered the bytes \<open>D\<close>: the array
  starts with the first \<open>n\<close> of them, and the others are in the buffer of the stream.
\<close>

definition offered :: "size_t \<Rightarrow> byte array \<Rightarrow> byte list \<Rightarrow> BlockingReadCallback \<Rightarrow> BufferImpl \<Rightarrow> bool" where
  "offered n out D r b \<longleftrightarrow> r_size r = n \<and> r_nread r = of_nat (min (unat n) (length D)) \<and>
     r_buffer r = map Some (take (unat n) D) @ drop (min (unat n) (length D)) out \<and> r_error r = None \<and>
     buf_inv b \<and> clean b \<and> contents b = map Some (drop (unat n) D)"

lemma available_ok:
  assumes "offered n out D r b" "unat n \<le> length out" "bs \<noteq> []"
    "buf_inv b1" "contents b1 = contents b @ map Some bs" "extents b1 = extents b @ [e]" "ext_bytes e = map Some bs"
  shows "\<exists>r' b'. read_available r b1 = Inr (r', b') \<and> offered n out (D @ bs) r' b' \<and> r_eof r' = r_eof r"
proof -
  let ?N = "unat n" and ?k = "min (unat n) (length D)"
  have k64: "unat (of_nat ?k :: size_t) = ?k" using unat_size_bound [of n] by (intro unat_of_nat_size) simp
  have r: "r_size r = n" "r_nread r = of_nat ?k" "r_buffer r = map Some (take ?N D) @ drop ?k out" "r_error r = None"
    "clean b" "contents b = map Some (drop ?N D)" using assms(1) by (simp_all add: offered_def)
  have pre: "length (map Some (take ?N D) :: byte array) = ?k" by simp
  then have buf: "take ?k (r_buffer r) = map Some (take ?N D)" "drop ?k (r_buffer r) = drop ?k out"
    using r(3) by simp_all
  have le: "(of_nat ?k :: size_t) \<le> n" by (simp add: word_le_nat_alt k64)
  then have sub: "unat (n - of_nat ?k) = ?N - ?k" by (simp add: unat_sub k64)
  show ?thesis
  proof (cases "length D < ?N")
    case True
    then have k: "?k = length D" and D: "take ?N D = D" "drop ?N D = []" by simp_all
    have e: "extents b = []" using r(5,6) D by (simp add: clean_def)
    have c1: "contents b1 = map Some bs" using assms(5) r(6) D by simp
    have e1: "ext_bytes e \<noteq> []" "extents b1 = [e]" using assms(3,6,7) e by simp_all
    have "unat (n - of_nat ?k) \<le> length (drop ?k out)" using assms(2) by (simp only: sub length_drop diff_le_mono)
    from read_one_extent [OF assms(4) e1(2,1) this, unfolded sub] obtain b' where b': "Buffer_read (drop ?k out) (n - of_nat ?k) b1 =
        Inr (take (?N - ?k) (contents b1) @ drop (min (?N - ?k) (length (contents b1))) (drop ?k out),
          of_nat (min (?N - ?k) (length (contents b1))), b')"
      "buf_inv b'" "clean b'" "contents b' = drop (?N - ?k) (contents b1)" by blast
    let ?m = "min (?N - ?k) (length bs)"
    let ?r = "r\<lparr>r_buffer := map Some D @ map Some (take (?N - ?k) bs) @ drop ?m (drop ?k out),
      r_nread := r_nread r + of_nat ?m\<rparr>"
    have "read_available r b1 = Inr (?r, b')"
      using b'(1) r(1,2) buf k D c1 k64 by (simp add: read_available_def take_map)
    moreover have "?k + ?m = min ?N (length (D @ bs))" using k by simp
    then have "offered n out (D @ bs) ?r b'"
      using b'(2-4) r k True c1 by (simp add: offered_def drop_map add.commute flip: of_nat_add)
    ultimately show ?thesis by (intro exI [of _ ?r] exI [of _ b']) simp
  next
    case False
    then have k: "?k = ?N" by simp
    have "read_available r b1 = Inr (r\<lparr>r_buffer := r_buffer r, r_nread := r_nread r\<rparr>, b1)"
      using r(1,2) k k64 by (simp add: read_available_def read_nothing)
    moreover have "offered n out (D @ bs) r b1"
      using False r assms(3,4,5) k by (auto simp: offered_def clean_def)
    ultimately show ?thesis by simp
  qed
qed

subsection \<open>Readable events\<close>

definition input_left :: "(int \<Rightarrow> 'w \<Rightarrow> byte list) \<Rightarrow> ('l, 'w \<times> cb_frames) stream \<Rightarrow> byte list" where
  "input_left unread s = unread (the_fd s) (fst (os s))"

text \<open>What a readable event leaves alone, and the callback object.\<close>

definition same_queue :: "('l, 'w) stream \<Rightarrow> ('l, 'w) stream \<Rightarrow> bool" where
  "same_queue s s' \<longleftrightarrow> alive s' = alive s \<and> sock s' = sock s \<and> sbase s' = sbase s \<and> reqs s' = reqs s \<and>
     req_head s' = req_head s \<and> req_tail s' = req_tail s \<and> connectCallback s' = connectCallback s \<and>
     readCallback s' = readCallback s"

definition the_rcb :: "cbid \<Rightarrow> ('l, 'w \<times> cb_frames) stream \<Rightarrow> BlockingReadCallback" where
  "the_rcb cb s = the (rcbs (snd (os s)) cb)"

definition receiving :: "cbid \<Rightarrow> size_t \<Rightarrow> byte array \<Rightarrow> byte list \<Rightarrow> ('l, 'w \<times> cb_frames) stream \<Rightarrow> bool" where
  "receiving cb n out D s \<longleftrightarrow> readCallback s = Some cb \<and> rcbs (snd (os s)) cb \<noteq> None \<and>
     offered n out D (the_rcb cb s) (readBuffer s)"

lemma same_queue_facts:
  "same_queue s s" "same_queue s s' \<Longrightarrow> same_queue s' s'' \<Longrightarrow> same_queue s s''"
  "same_queue s s' \<Longrightarrow> stream_ok env s rs \<Longrightarrow> stream_ok env s' rs"
  "same_queue s s' \<Longrightarrow> the_fd s' = the_fd s" "same_queue s s' \<Longrightarrow> the_watched env s' = the_watched env s"
  "same_queue s s' \<Longrightarrow> sock s' = sock s" "same_queue s s' \<Longrightarrow> connectCallback s' = connectCallback s"
  by (simp_all add: same_queue_def stream_ok_def the_fd_def the_watched_def)

text \<open>One turn of \<open>readHelper\<close>: the end of the input, or a chunk.\<close>

lemma read_turn_eof:
  assumes pr: "posix_read k unread" and fk: "feeds k unread" and env: "env = blocking_stream_env le k al self"
    and ok: "stream_ok env s rs" and rec: "receiving cb n out D s" and none: "input_left unread s = []"
  shows "\<exists>s'. readHelper (Suc fuel) env s = Inr s' \<and> same_queue s s' \<and> receiving cb n out D s' \<and>
    input_left unread s' = [] \<and> r_eof (the_rcb cb s')"
proof -
  let ?fd = "the_fd s" and ?c = "the_rcb cb s"
  have k: "env_kernel env = lift_kernel k" "env_invoke env = blocking_invoke" by (simp_all add: env)
  obtain r bs x where kr: "k_read (env_kernel env) ?fd read_chunk (os s) = (r, bs, x)" by (metis prod_cases3)
  then have kr': "k_read k ?fd read_chunk (fst (os s)) = (r, bs, fst x)" and x: "snd x = snd (os s)"
    by (simp_all add: k lift_read)
  have "0 < read_chunk" by (simp add: read_chunk_def)
  then have r: "r = 0" using fk kr' none unfolding feeds_def input_left_def by (metis fst_conv)
  have left: "unread ?fd (fst x) = []" using pr kr' none by (fastforce simp: posix_read_def input_left_def)
  have fd: "sock_fd s = Inr ?fd" using ok sock_fd_ok by (auto simp: stream_ok_def)
  have cb: "readCallback s = Some cb" "rcbs (snd (os s)) cb = Some ?c" "offered n out D ?c (readBuffer s)"
    using rec by (auto simp: receiving_def the_rcb_def)
  let ?s = "s\<lparr>events := events s @ [Read_Eof cb],
    os := (fst x, (snd x)\<lparr>rcbs := (rcbs (snd x))(cb \<mapsto> ?c\<lparr>r_eof := True\<rparr>)\<rparr>)\<rparr>"
  have "readHelper (Suc fuel) env s = Inr ?s"
    using fd kr r cb(1,2) x by (simp add: xread_def Let_def invoke_callback_def k)
  moreover have "receiving cb n out D ?s" using cb by (simp add: receiving_def the_rcb_def offered_def)
  moreover have "same_queue s ?s" by (simp add: same_queue_def)
  moreover have "r_eof (the_rcb cb ?s)" by (simp add: the_rcb_def)
  moreover have "input_left unread ?s = []" using left by (simp add: input_left_def the_fd_def)
  ultimately show ?thesis by (intro exI [of _ ?s] conjI)
qed

lemma read_turn_chunk:
  assumes pr: "posix_read k unread" and fk: "feeds k unread" and env: "env = blocking_stream_env le k al self"
    and cr: "can_read env" and n: "unat n \<le> length out" and ok: "stream_ok env s rs" and rec: "receiving cb n out D s"
    and bound: "length D + length (input_left unread s) < 2 ^ 64" and some: "input_left unread s \<noteq> []"
  shows "\<exists>s' bs. readHelper (Suc fuel) env s = (if length bs < 4096 then Inr s' else readHelper fuel env s') \<and>
    bs \<noteq> [] \<and> length bs \<le> 4096 \<and> same_queue s s' \<and> receiving cb n out (D @ bs) s' \<and>
    input_left unread s = bs @ input_left unread s' \<and> r_eof (the_rcb cb s') = r_eof (the_rcb cb s)"
proof -
  let ?fd = "the_fd s" and ?c = "the_rcb cb s"
  have k: "env_kernel env = lift_kernel k" "env_invoke env = blocking_invoke" by (simp_all add: env)
  obtain r bs x where kr: "k_read (env_kernel env) ?fd read_chunk (os s) = (r, bs, x)" by (metis prod_cases3)
  then have kr': "k_read k ?fd read_chunk (fst (os s)) = (r, bs, fst x)" and x: "snd x = snd (os s)"
    by (simp_all add: k lift_read)
  have r: "r \<le> int (unat read_chunk)" "length bs = nat r" "input_left unread s = bs @ unread ?fd (fst x)"
    using pr kr' by (simp_all add: posix_read_def input_left_def)
  have "0 < read_chunk" by (simp add: read_chunk_def)
  then have r0: "0 < r" using fk kr' some unfolding feeds_def input_left_def by (metis fst_conv)
  have fd: "sock_fd s = Inr ?fd" using ok sock_fd_ok by (auto simp: stream_ok_def)
  have cb: "readCallback s = Some cb" "rcbs (snd (os s)) cb = Some ?c" "offered n out D ?c (readBuffer s)"
    using rec by (auto simp: receiving_def the_rcb_def)
  have ne: "bs \<noteq> []" "length bs \<le> 4096" using r0 r(1,2) by (auto simp: chunk_facts)
  let ?n = "of_int r :: size_t"
  note sz = chunk_size [OF r0 r(1)]
  have un: "unat ?n = length bs" using sz(1) r(2) by simp
  have al': "env_alloc env ?n" "alloc_bounded (env_alloc env)" using cr sz(2) by (simp_all add: can_read_def)
  have bi: "buf_inv (readBuffer s)" "contents (readBuffer s) = map Some (drop (unat n) D)"
    using cb(3) by (simp_all add: offered_def)
  have "length (contents (readBuffer s)) + unat ?n < 2 ^ 64" using bound r(3) un bi(2) by simp
  from append_ok_extents [OF bi(1) al', of bs] this un obtain b e where
    b: "Buffer_append (env_alloc env) bs ?n (readBuffer s) = Inr b" "buf_inv b"
    "contents b = contents (readBuffer s) @ map Some bs" "extents b = extents (readBuffer s) @ [e]"
    "ext_bytes e = map Some bs" by auto
  from available_ok [OF cb(3) n ne(1) b(2-5)] obtain c' b' where
    c': "read_available ?c b = Inr (c', b')" "offered n out (D @ bs) c' b'" "r_eof c' = r_eof ?c" by blast
  let ?s = "s\<lparr>events := events s @ [Read_Available cb], readBuffer := b',
    os := (fst x, (snd x)\<lparr>rcbs := (rcbs (snd x))(cb \<mapsto> c')\<rparr>)\<rparr>"
  have "readHelper (Suc fuel) env s = (if length bs < 4096 then Inr ?s else readHelper fuel env ?s)"
    using fd kr r0 cb(1,2) x b(1) c'(1) sz(3) r(2) by (simp add: xread_def Let_def invoke_callback_def k)
  moreover have "receiving cb n out (D @ bs) ?s" using cb(1) c'(2) by (simp add: receiving_def the_rcb_def)
  moreover have "same_queue s ?s" by (simp add: same_queue_def)
  moreover have "input_left unread s = bs @ input_left unread ?s" using r(3) by (simp add: input_left_def the_fd_def)
  moreover have "r_eof (the_rcb cb ?s) = r_eof ?c" using c'(3) by (simp add: the_rcb_def)
  ultimately show ?thesis using ne by (intro exI [of _ ?s] exI [of _ bs] conjI)
qed

lemma read_event:
  assumes pr: "posix_read k unread" and fk: "feeds k unread" and env: "env = blocking_stream_env le k al self"
    and cr: "can_read env" and n: "unat n \<le> length out"
  shows "stream_ok env s rs \<Longrightarrow> receiving cb n out D s \<Longrightarrow> length D + length (input_left unread s) < 2 ^ 64 \<Longrightarrow>
    length (input_left unread s) div 4096 < fuel \<Longrightarrow>
    \<exists>s' bs. readHelper fuel env s = Inr s' \<and> same_queue s s' \<and> receiving cb n out (D @ bs) s' \<and>
      input_left unread s = bs @ input_left unread s' \<and>
      (bs = [] \<longrightarrow> r_eof (the_rcb cb s')) \<and>
      (r_eof (the_rcb cb s') \<longrightarrow> r_eof (the_rcb cb s) \<or> input_left unread s' = [])"
proof (induction fuel arbitrary: s D)
  case (Suc fuel)
  show ?case
  proof (cases "input_left unread s = []")
    case True
    from read_turn_eof [OF pr fk env Suc.prems(1,2) True, of fuel] obtain s' where
      "readHelper (Suc fuel) env s = Inr s'" "same_queue s s'" "receiving cb n out D s'"
      "input_left unread s' = []" "r_eof (the_rcb cb s')" by blast
    then show ?thesis using True by (intro exI [of _ s'] exI [of _ "[]"]) simp
  next
    case False
    from read_turn_chunk [OF pr fk env cr n Suc.prems(1-3) False, of fuel] obtain t bs where
      t: "readHelper (Suc fuel) env s = (if length bs < 4096 then Inr t else readHelper fuel env t)"
      "bs \<noteq> []" "length bs \<le> 4096" "same_queue s t" "receiving cb n out (D @ bs) t"
      "input_left unread s = bs @ input_left unread t" "r_eof (the_rcb cb t) = r_eof (the_rcb cb s)" by blast
    show ?thesis
    proof (cases "length bs < 4096")
      case True
      then show ?thesis using t by (intro exI [of _ t] exI [of _ bs] conjI) simp_all
    next
      case full: False
      then have lb: "length bs = 4096" using t(3) by simp
      have "stream_ok env t rs" by (rule same_queue_facts(3) [OF t(4) Suc.prems(1)])
      moreover have "length (D @ bs) + length (input_left unread t) < 2 ^ 64" using Suc.prems(3) t(6) by simp
      moreover have "length (input_left unread t) div 4096 < fuel" using Suc.prems(4) t(6) lb by simp
      ultimately obtain s' bs' where
        ih: "readHelper fuel env t = Inr s'" "same_queue t s'" "receiving cb n out ((D @ bs) @ bs') s'"
        "input_left unread t = bs' @ input_left unread s'"
        "r_eof (the_rcb cb s') \<longrightarrow> r_eof (the_rcb cb t) \<or> input_left unread s' = []"
        using Suc.IH [OF _ t(5)] by blast
      have "same_queue s s'" by (rule same_queue_facts(2) [OF t(4) ih(2)])
      then show ?thesis using t full ih by (intro exI [of _ s'] exI [of _ "bs @ bs'"] conjI) simp_all
    qed
  qed
qed simp

subsection \<open>Turns of the loop\<close>

text \<open>A readable stream is found readable.\<close>

definition hears :: "('l, 'w \<times> cb_frames) stream_env \<Rightarrow> (('l, 'w \<times> cb_frames) stream \<Rightarrow> What) \<Rightarrow> bool" where
  "hears env poll \<longleftrightarrow> (\<forall>s. the_watched env s = READ \<longrightarrow> poll s = READ)"

definition with_thread :: "thread \<Rightarrow> ('l, 'w) stream \<Rightarrow> ('l, 'w) stream" where
  "with_thread t s = s\<lparr>sbase := (sbase s)\<lparr>loopThread := t\<rparr>\<rparr>"

lemma with_thread_simps [simp]:
  "the_watched env (with_thread t s) = the_watched env s" "the_fd (with_thread t s) = the_fd s"
  "os (with_thread t s) = os s" "sock (with_thread t s) = sock s" "connectCallback (with_thread t s) = connectCallback s"
  "receiving cb n out D (with_thread t s) = receiving cb n out D s" "readBuffer (with_thread t s) = readBuffer s"
  "input_left unread (with_thread t s) = input_left unread s" "the_rcb cb (with_thread t s) = the_rcb cb s"
  by (simp_all add: with_thread_def receiving_def the_rcb_def input_left_def)

lemma once_turn:
  assumes "one_handler (blocking_loop_env fuel env lenv) env poll" "quiet_base b (sock (bos b))" "0 < lp_fuel lenv"
    "the_watched env (the_stream b) \<noteq> NONE"
    "SockHandler_ready fuel env (poll (with_thread (env_self env) (the_stream b))) (with_thread (env_self env) (the_stream b)) = Inr s"
    "sock s = sock (bos b)"
  shows "\<exists>b'. EventBase_loop 1 (blocking_loop_env fuel env lenv) (env_self env) ONCE b = Inr (Started b') \<and>
    the_stream b' = with_thread 0 s \<and> quiet_base b' (sock (bos b')) \<and> bos b' = s"
proof -
  let ?L = "blocking_loop_env fuel env lenv"
  let ?b = "b\<lparr>reg := (reg b)\<lparr>loopThread := env_self env\<rparr>, finished := False\<rparr>"
  have st: "the_stream ?b = with_thread (env_self env) (the_stream b)" by (simp add: the_stream_def with_thread_def)
  have q: "quiet_base ?b (sock (bos ?b))" using assms(2) by (simp add: quiet_base_def)
  have "runOpsInQueue (lp_fuel ?L) ?L ?b = Inr ?b" using runOps_quiet [OF q, of ?L] assms(3) by simp
  then have "loop_turns 1 ?L ONCE ?b = Inr (put_stream ?b s)"
    using event_base_loop_turn [OF assms(1) q] assms(4,5) by (simp add: st bindE_assoc)
  then have "EventBase_loop 1 ?L (env_self env) ONCE b = Inr (Started (loop_ended (put_stream ?b s)))"
    by (simp add: EventBase_loop_def loop_start_def loop_finish_def loop_ended_def)
  moreover have "quiet_base (loop_ended (put_stream ?b s)) (sock s)" using assms(2,6) by (simp add: quiet_base_def loop_ended_def)
  moreover have "bos (loop_ended (put_stream ?b s)) = s" by (simp add: loop_ended_def put_stream_def)
  ultimately show ?thesis by (intro exI [of _ "loop_ended (put_stream ?b s)"]) (simp add: with_thread_def)
qed

text \<open>The base in the middle of a read.\<close>

definition reading_from :: "('l, 'w \<times> cb_frames) stream_env \<Rightarrow> cbid \<Rightarrow> size_t \<Rightarrow> byte array \<Rightarrow> byte list \<Rightarrow>
    ('l, 'w) blocking_base \<Rightarrow> bool" where
  "reading_from env cb n out D b \<longleftrightarrow> idle_base env b \<and> the_watched env (the_stream b) = READ \<and>
     receiving cb n out D (the_stream b)"

lemma read_turn:
  assumes "posix_read k unread" "feeds k unread" "env = blocking_stream_env le k al self" "can_read env" "unat n \<le> length out"
    "one_handler (blocking_loop_env fuel env lenv) env poll" "0 < lp_fuel lenv" "hears env poll"
    "reading_from env cb n out D b" "length D + length (input_left unread (the_stream b)) < 2 ^ 64"
    "length (input_left unread (the_stream b)) div 4096 < fuel"
  shows "\<exists>b' bs. EventBase_loop 1 (blocking_loop_env fuel env lenv) (env_self env) ONCE b = Inr (Started b') \<and>
    reading_from env cb n out (D @ bs) b' \<and> the_fd (the_stream b') = the_fd (the_stream b) \<and>
    input_left unread (the_stream b) = bs @ input_left unread (the_stream b') \<and>
    (bs = [] \<longrightarrow> r_eof (the_rcb cb (the_stream b'))) \<and>
    (r_eof (the_rcb cb (the_stream b')) \<longrightarrow>
       r_eof (the_rcb cb (the_stream b)) \<or> input_left unread (the_stream b') = [])"
proof -
  let ?s = "with_thread (env_self env) (the_stream b)"
  have b: "quiet_base b (sock (bos b))" "stream_ok env (the_stream b) []" "connectCallback (bos b) = None"
    "the_watched env (the_stream b) = READ" "receiving cb n out D (the_stream b)"
    using assms(9) by (simp_all add: reading_from_def idle_base_def)
  have ok: "stream_ok env ?s []" unfolding with_thread_def using stream_ok_thread [OF b(2)] by blast
  from read_event [OF assms(1-5) ok, of cb D fuel] b(5) assms(10,11) obtain s' bs where
    s': "readHelper fuel env ?s = Inr s'" "same_queue ?s s'" "receiving cb n out (D @ bs) s'"
    "input_left unread (the_stream b) = bs @ input_left unread s'" "bs = [] \<longrightarrow> r_eof (the_rcb cb s')"
    "r_eof (the_rcb cb s') \<longrightarrow> r_eof (the_rcb cb (the_stream b)) \<or> input_left unread s' = []" by auto
  note same = same_queue_facts(3-7) [OF s'(2)]
  have "poll ?s = READ" using assms(8) b(4) by (simp add: hears_def)
  then have "SockHandler_ready fuel env (poll ?s) ?s = Inr s'" using s'(1) by (simp add: SockHandler_ready_def)
  moreover have "sock s' = sock (bos b)" using same(4) by simp
  moreover have "the_watched env (the_stream b) \<noteq> NONE" using b(4) by simp
  ultimately obtain b' where
    b': "EventBase_loop 1 (blocking_loop_env fuel env lenv) (env_self env) ONCE b = Inr (Started b')"
    "the_stream b' = with_thread 0 s'" "quiet_base b' (sock (bos b'))" "bos b' = s'"
    using once_turn [OF assms(6) b(1) assms(7)] by blast
  have "stream_ok env s' []" by (rule same(1) [OF ok])
  then have "stream_ok env (the_stream b') []" unfolding b'(2) with_thread_def using stream_ok_thread by blast
  moreover have "connectCallback s' = None" using same(5) b(3) by (simp add: the_stream_def)
  moreover have "the_watched env s' = READ" using same(3) b(4) by simp
  ultimately have "reading_from env cb n out (D @ bs) b'" using b'(2-4) s'(3) by (simp add: reading_from_def idle_base_def)
  then show ?thesis using b'(1,2) s'(4-6) same(2) by (intro exI [of _ b'] exI [of _ bs]) simp
qed

lemma offered_ends: "offered n out D r b \<Longrightarrow>
    (r_nread r < r_size r \<and> r_error r = None \<and> \<not> r_eof r) = (length D < unat n \<and> \<not> r_eof r)"
  using unat_size_bound [of n] by (auto simp: offered_def word_less_nat_alt unat_of_nat_size)

lemma read_turns_ok:
  assumes "posix_read k unread" "feeds k unread" "env = blocking_stream_env le k al self" "can_read env" "unat n \<le> length out"
    "one_handler (blocking_loop_env fuel env lenv) env poll" "0 < lp_fuel lenv" "hears env poll"
  shows "reading_from env cb n out D b \<Longrightarrow> length D + length (input_left unread (the_stream b)) < 2 ^ 64 \<Longrightarrow>
    length (input_left unread (the_stream b)) div 4096 < fuel \<Longrightarrow> \<not> r_eof (the_rcb cb (the_stream b)) \<Longrightarrow>
    unat n - length D < turns \<Longrightarrow>
    \<exists>b' bs. read_turns turns (blocking_loop_env fuel env lenv) env cb b = Inr (Inr (the_rcb cb (the_stream b')), b') \<and>
      reading_from env cb n out (D @ bs) b' \<and> the_fd (the_stream b') = the_fd (the_stream b) \<and>
      input_left unread (the_stream b) = bs @ input_left unread (the_stream b') \<and>
      (unat n \<le> length (D @ bs) \<or> input_left unread (the_stream b') = [])"
proof (induction turns arbitrary: b D)
  case (Suc turns)
  from read_turn [OF assms Suc.prems(1-3)] Suc.prems(4) obtain b1 bs where
    b1: "EventBase_loop 1 (blocking_loop_env fuel env lenv) (env_self env) ONCE b = Inr (Started b1)"
    "reading_from env cb n out (D @ bs) b1" "the_fd (the_stream b1) = the_fd (the_stream b)"
    "input_left unread (the_stream b) = bs @ input_left unread (the_stream b1)"
    "bs = [] \<longrightarrow> r_eof (the_rcb cb (the_stream b1))"
    "r_eof (the_rcb cb (the_stream b1)) \<longrightarrow> input_left unread (the_stream b1) = []" by blast
  let ?r = "the_rcb cb (the_stream b1)"
  have r: "rcbs (snd (os (the_stream b1))) cb = Some ?r" and off: "offered n out (D @ bs) ?r (readBuffer (the_stream b1))"
    using b1(2) by (auto simp: reading_from_def receiving_def the_rcb_def)
  have step: "read_turns (Suc turns) (blocking_loop_env fuel env lenv) env cb b =
      (if length (D @ bs) < unat n \<and> \<not> r_eof ?r then read_turns turns (blocking_loop_env fuel env lenv) env cb b1
       else Inr (Inr ?r, b1))"
    using b1(1) r offered_ends [OF off] off by (simp add: offered_def)
  show ?case
  proof (cases "length (D @ bs) < unat n \<and> \<not> r_eof ?r")
    case True
    then have lt: "unat n - length (D @ bs) < turns" using b1(5) Suc.prems(5) by (cases bs) auto
    have len: "length (D @ bs) + length (input_left unread (the_stream b1)) < 2 ^ 64"
      "length (input_left unread (the_stream b1)) div 4096 < fuel"
      using Suc.prems(2,3) div_le_mono [of "length (input_left unread (the_stream b1))" "length (input_left unread (the_stream b))" 4096]
      by (simp_all add: b1(4))
    from Suc.IH [OF b1(2) len _ lt] True obtain b' bs' where
      "read_turns turns (blocking_loop_env fuel env lenv) env cb b1 = Inr (Inr (the_rcb cb (the_stream b')), b')"
      "reading_from env cb n out ((D @ bs) @ bs') b'" "the_fd (the_stream b') = the_fd (the_stream b1)"
      "input_left unread (the_stream b1) = bs' @ input_left unread (the_stream b')"
      "unat n \<le> length ((D @ bs) @ bs') \<or> input_left unread (the_stream b') = []" by blast
    then show ?thesis using step True b1(3,4) by (intro exI [of _ b'] exI [of _ "bs @ bs'"]) simp
  next
    case False
    then show ?thesis using step b1 by (intro exI [of _ b1] exI [of _ bs]) auto
  qed
qed simp

subsection \<open>The start and the end of a read\<close>

text \<open>The frame of \<open>read\<close> comes into being, and \<open>startRead\<close> installs the callback.\<close>

lemma rcb_simps [simp]:
  "the_fd (rcb_new cb out n s) = the_fd s" "the_fd (rcb_delete cb s) = the_fd s"
  "the_watched env (rcb_new cb out n s) = the_watched env s" "the_watched env (rcb_delete cb s) = the_watched env s"
  "stream_ok env (rcb_new cb out n s) rs = stream_ok env s rs" "stream_ok env (rcb_delete cb s) rs = stream_ok env s rs"
  "sock (rcb_new cb out n s) = sock s" "sock (rcb_delete cb s) = sock s"
  "connectCallback (rcb_new cb out n s) = connectCallback s" "connectCallback (rcb_delete cb s) = connectCallback s"
  "fst (os (rcb_new cb out n s)) = fst (os s)" "fst (os (rcb_delete cb s)) = fst (os s)"
  "readBuffer (rcb_new cb out n s) = readBuffer s" "readBuffer (rcb_delete cb s) = readBuffer s"
  "readCallback (rcb_new cb out n s) = readCallback s" "readCallback (rcb_delete cb s) = readCallback s"
  "the_rcb cb (rcb_new cb out n s) = \<lparr>r_buffer = out, r_size = n, r_nread = 0, r_eof = False, r_error = None\<rparr>"
  "rcbs (snd (os (rcb_new cb out n s))) cb \<noteq> None" "rcbs (snd (os (rcb_delete cb s))) cb = None"
  by (simp_all add: rcb_new_def rcb_delete_def the_rcb_def)

lemma read_starts:
  assumes "libevent_ok (env_le env)" "idle_base env b"
    "the_watched env (the_stream b) = READ \<or> the_watched env (the_stream b) = NONE \<and> readCallback (bos b) \<noteq> Some cb"
  shows "\<exists>b1. on_stream (\<lambda>s. startRead env (Some cb) (rcb_new cb out n s)) b = Inr b1 \<and> idle_base env b1 \<and>
    the_watched env (the_stream b1) = READ \<and> the_fd (the_stream b1) = the_fd (the_stream b) \<and>
    fst (os (the_stream b1)) = fst (os (the_stream b)) \<and> readBuffer (the_stream b1) = readBuffer (the_stream b) \<and>
    readCallback (the_stream b1) = Some cb \<and> rcbs (snd (os (the_stream b1))) cb \<noteq> None \<and>
    the_rcb cb (the_stream b1) = \<lparr>r_buffer = out, r_size = n, r_nread = 0, r_eof = False, r_error = None\<rparr>"
proof -
  let ?s = "rcb_new cb out n (the_stream b)"
  have ok: "stream_ok env ?s []" and q: "quiet_base b (sock (bos b))" and c: "connectCallback (bos b) = None"
    using assms(2) by (simp_all add: idle_base_def)
  have "\<exists>s'. startRead env (Some cb) ?s = Inr s' \<and> stream_ok env s' [] \<and> the_watched env s' = READ \<and>
    the_fd s' = the_fd ?s \<and> os s' = os ?s \<and> readBuffer s' = readBuffer ?s \<and> readCallback s' = Some cb \<and>
    sock s' = sock ?s \<and> connectCallback s' = connectCallback ?s"
  proof (cases "readCallback ?s = Some cb")
    case True
    then have "the_watched env ?s = READ" using assms(3) by (simp add: the_stream_def)
    then show ?thesis using True ok by (intro exI [of _ ?s]) (simp add: startRead_def)
  next
    case False
    have s: "alive ?s" "reg_inv (env_le env) (sbase ?s)" "may_register (env_self env) (sbase ?s) (sock ?s)"
      using ok by (simp_all add: stream_ok_def)
    let ?t = "?s\<lparr>readCallback := Some cb\<rparr>"
    have w: "the_watched env ?t = the_watched env ?s" "the_fd ?t = the_fd ?s" by (simp_all add: the_watched_def the_fd_def)
    have r: "ensureRead (the_watched env ?s) = READ" using assms(3) by (auto simp: ensureRead_def)
    have "sock_watched env ?t = Inr (the_watched env ?s)" using sock_watched_ok [of ?t "env_self env" env] s w by simp
    moreover obtain b' where "sock_register env READ ?t = Inr (?t\<lparr>sbase := b'\<rparr>)" "reg_inv (env_le env) b'"
      "may_register (env_self env) b' (sock ?t)" "the_watched env (?t\<lparr>sbase := b'\<rparr>) = READ"
      "the_fd (?t\<lparr>sbase := b'\<rparr>) = the_fd ?t"
      using sock_register_ok [OF assms(1), of ?t READ] s by auto
    ultimately show ?thesis using False ok r w(2)
      by (intro exI [of _ "?t\<lparr>sbase := b'\<rparr>"]) (simp add: startRead_def stream_ok_def)
  qed
  then obtain s' where
    s': "startRead env (Some cb) ?s = Inr s'" "stream_ok env s' []" "the_watched env s' = READ" "the_fd s' = the_fd ?s"
    "os s' = os ?s" "readBuffer s' = readBuffer ?s" "readCallback s' = Some cb" "sock s' = sock ?s"
    "connectCallback s' = connectCallback ?s" by blast
  have "on_stream (\<lambda>s. startRead env (Some cb) (rcb_new cb out n s)) b = Inr (put_stream b s')"
    using s'(1) by (simp add: on_stream_def)
  moreover have "bos (put_stream b s') = s'" by (simp add: put_stream_def)
  then have "idle_base env (put_stream b s')" using q c s'(2,8,9) by (simp add: idle_base_def the_stream_def)
  moreover have "the_rcb cb s' = the_rcb cb ?s" using s'(5) by (simp add: the_rcb_def)
  ultimately show ?thesis using s' by (intro exI [of _ "put_stream b s'"]) simp
qed

subsection \<open>Properties\<close>

text \<open>C18: A blocking read returns the input. On an idle stream with nothing buffered, when
  the peer has sent some bytes and closed, \<open>read\<close> of \<open>n\<close> bytes returns the
  smaller of \<open>n\<close> and the number of bytes sent, having put that many bytes, the first
  ones, at the start of the array of the caller and left the rest of the array alone, after at most
  \<open>n + 1\<close> turns of the loop, for every way in which the kernel cuts the input into
  pieces. Nothing is lost: what has been taken beyond the \<open>n\<close> bytes is in the buffer of
  the stream, followed by what is still in the kernel. The stream stays registered for reading, with
  a callback pointer into the frame that has gone.\<close>

theorem blocking_read_delivers:
  assumes "libevent_ok le" and "posix_read k unread" and "feeds k unread"
    and "env = blocking_stream_env le k al self" and "can_read env"
    and "one_handler (blocking_loop_env fuel env lenv) env poll" and "0 < lp_fuel lenv" and "hears env poll"
    and "idle_base env b" and "buf_inv (readBuffer (bos b))" and "list_empty (readBuffer (bos b))"
    and "the_watched env (the_stream b) = READ \<or> the_watched env (the_stream b) = NONE \<and> readCallback (bos b) \<noteq> Some cb"
    and "unat n \<le> length out" and "unat n < turns"
    and "length (input_left unread (the_stream b)) < 2 ^ 64" and "length (input_left unread (the_stream b)) div 4096 < fuel"
  shows "\<exists>b'. Blocking_read turns (blocking_loop_env fuel env lenv) env cb out n b = Inr (Inr
      (of_nat (min (unat n) (length (input_left unread (the_stream b)))),
       map Some (take (unat n) (input_left unread (the_stream b))) @
         drop (min (unat n) (length (input_left unread (the_stream b)))) out), b') \<and>
    contents (readBuffer (the_stream b')) @ map Some (input_left unread (the_stream b')) =
      map Some (drop (unat n) (input_left unread (the_stream b))) \<and>
    idle_base env b' \<and> the_watched env (the_stream b') = READ \<and>
    readCallback (the_stream b') = Some cb \<and> rcbs (snd (os (the_stream b'))) cb = None"
proof -
  let ?L = "blocking_loop_env fuel env lenv" and ?U = "input_left unread (the_stream b)"
  have le: "libevent_ok (env_le env)" using assms(1,4) by simp
  from read_starts [OF le assms(9,12), of out n] obtain b1 where
    b1: "on_stream (\<lambda>s. startRead env (Some cb) (rcb_new cb out n s)) b = Inr b1" "idle_base env b1"
    "the_watched env (the_stream b1) = READ" "the_fd (the_stream b1) = the_fd (the_stream b)"
    "fst (os (the_stream b1)) = fst (os (the_stream b))" "readBuffer (the_stream b1) = readBuffer (the_stream b)"
    "readCallback (the_stream b1) = Some cb" "rcbs (snd (os (the_stream b1))) cb \<noteq> None"
    "the_rcb cb (the_stream b1) = \<lparr>r_buffer = out, r_size = n, r_nread = 0, r_eof = False, r_error = None\<rparr>" by blast
  have U: "input_left unread (the_stream b1) = ?U" using b1(4,5) by (simp add: input_left_def)
  have "reading_from env cb n out [] b1" using b1(2,3,6-9) assms(10,11)
    by (simp add: reading_from_def receiving_def offered_def clean_def list_empty_def contents_def the_stream_def)
  from read_turns_ok [OF assms(2-5,13,6-8) this, of turns] assms(14-16) obtain b2 bs where
    b2: "read_turns turns ?L env cb b1 = Inr (Inr (the_rcb cb (the_stream b2)), b2)" "reading_from env cb n out bs b2"
    "the_fd (the_stream b2) = the_fd (the_stream b1)" "?U = bs @ input_left unread (the_stream b2)"
    "unat n \<le> length bs \<or> input_left unread (the_stream b2) = []" by (auto simp: U b1(9))
  let ?b = "put_stream b2 (rcb_delete cb (the_stream b2))"
  have off: "offered n out bs (the_rcb cb (the_stream b2)) (readBuffer (the_stream b2))"
    and idle: "idle_base env b2" "the_watched env (the_stream b2) = READ" "readCallback (the_stream b2) = Some cb"
    using b2(2) by (simp_all add: reading_from_def receiving_def)
  have m: "min (unat n) (length ?U) = min (unat n) (length bs)" "take (unat n) ?U = take (unat n) bs"
    "drop (unat n) ?U = drop (unat n) bs @ input_left unread (the_stream b2)"
    using b2(4,5) by auto
  have "Blocking_read turns ?L env cb out n b =
      Inr (Inr (r_nread (the_rcb cb (the_stream b2)), r_buffer (the_rcb cb (the_stream b2))), ?b)"
    using b1(1) b2(1) by (simp add: Blocking_read_def)
  moreover have "input_left unread (the_stream ?b) = input_left unread (the_stream b2)" by (simp add: input_left_def)
  moreover have "idle_base env ?b"
    using idle(1) by (simp add: idle_base_def) (simp add: put_stream_def the_stream_def)
  ultimately show ?thesis using off idle(2,3) m by (intro exI [of _ ?b]) (simp add: offered_def)
qed

text \<open>A peer that has sent \<open>inp\<close> and closed, and a stream on descriptor 8.\<close>

definition closing_kernel :: "byte list kernel" where
  "closing_kernel = input_kernel\<lparr>k_read :=
     (\<lambda>fd n w. (int (min (unat n) (length w)), take (unat n) w, drop (unat n) w))\<rparr>"

definition read_model_env :: "(event \<Rightarrow> 16 word \<times> bool, byte list \<times> cb_frames) stream_env" where
  "read_model_env = blocking_stream_env libevent_model closing_kernel malloc_model 5"

definition read_model_base :: "byte list \<Rightarrow> (event \<Rightarrow> 16 word \<times> bool, byte list) blocking_base" where
  "read_model_base inp = (let s = StreamImpl_init base_model 1 8 (inp, \<lparr>wcbs = Map.empty, rcbs = Map.empty\<rparr>) in
     \<lparr>reg = sbase s, terminate = False, finished = True, notify_type = PIPE, notify_queue = mpsc_init Empty_Op 0,
      notify_fds = (3, 4), notify_handler = 9, frames = Map.empty, bos = s, ran = []\<rparr>)"

lemma read_model_facts:
  "posix_read closing_kernel (\<lambda>fd w. w)" "feeds closing_kernel (\<lambda>fd w. w)" "can_read read_model_env"
  "idle_base read_model_env (read_model_base inp)" "buf_inv (readBuffer (bos (read_model_base inp)))"
  "list_empty (readBuffer (bos (read_model_base inp)))"
  "the_watched read_model_env (the_stream (read_model_base inp)) = NONE" "readCallback (bos (read_model_base inp)) \<noteq> Some cb"
  "input_left (\<lambda>fd w. w) (the_stream (read_model_base inp)) = inp" "hears read_model_env (the_watched read_model_env)"
proof -
  have "int (min (unat n) m) \<le> int (unat n)" for n :: size_t and m
    by (simp only: of_nat_le_iff min.cobounded1)
  then show "posix_read closing_kernel (\<lambda>fd w. w)" by (simp add: posix_read_def closing_kernel_def min.commute)
  show "feeds closing_kernel (\<lambda>fd w. w)"
    by (auto simp: feeds_def closing_kernel_def word_less_nat_alt)
  have "env_alloc read_model_env = env_alloc input_env" by (simp add: read_model_env_def input_env_def)
  then show "can_read read_model_env" using input_facts(3) by (simp add: can_read_def)
  show "idle_base read_model_env (read_model_base inp)"
    "the_watched read_model_env (the_stream (read_model_base inp)) = NONE"
    by (auto simp: Let_def idle_base_def quiet_base_def read_model_base_def the_stream_def represents_init stream_ok_def
      StreamImpl_init_def EventHandler_new_def read_model_env_def reg_inv_def base_model_def libevent_model_def
      may_register_def inLoopThread_def usable_def eh_defs the_watched_def watching_def)
  show "buf_inv (readBuffer (bos (read_model_base inp)))" "list_empty (readBuffer (bos (read_model_base inp)))"
    "readCallback (bos (read_model_base inp)) \<noteq> Some cb" "input_left (\<lambda>fd w. w) (the_stream (read_model_base inp)) = inp"
    by (simp_all add: read_model_base_def StreamImpl_init_def Let_def list_empty_def BufferImpl_init_def input_left_def
      the_stream_def buf_inv_def contents_def)
  show "hears read_model_env (the_watched read_model_env)" by (simp add: hears_def)
qed

theorem blocking_read_delivers_witness:
  "\<exists>b'. Blocking_read 9 (blocking_loop_env 2 read_model_env (polled_env read_model_env (the_watched read_model_env)))
      read_model_env 4 [None, None, None, None, None, None] 5 (read_model_base ''hello world'') =
      Inr (Inr (5, map Some ''hello'' @ [None]), b') \<and>
    contents (readBuffer (the_stream b')) @ map Some (input_left (\<lambda>fd w. w) (the_stream b')) = map Some '' world''"
proof -
  have env: "read_model_env = blocking_stream_env libevent_model closing_kernel malloc_model 5"
    by (simp add: read_model_env_def)
  have le: "libevent_ok (env_le read_model_env)" by (simp add: env libevent_model_ok)
  from blocking_read_delivers [OF libevent_model_ok(1) read_model_facts(1,2) env read_model_facts(3)
    polled_env_ok [OF le] read_model_facts(10) read_model_facts(4-6) [of "''hello world''"],
    where fuel = 2 and n = 5 and turns = 9 and cb = 4 and out = "[None, None, None, None, None, None]"]
  show ?thesis by (auto simp: read_model_facts)
qed

subsection \<open>Input that has been taken already\<close>

lemma silent_turns:
  assumes "one_handler (blocking_loop_env fuel env lenv) env poll" "0 < lp_fuel lenv" "deaf env poll"
  shows "idle_base env b \<Longrightarrow> the_watched env (the_stream b) = READ \<Longrightarrow> rcbs (snd (os (the_stream b))) cb = Some r \<Longrightarrow>
    r_nread r < r_size r \<Longrightarrow> r_error r = None \<Longrightarrow> \<not> r_eof r \<Longrightarrow>
    read_turns turns (blocking_loop_env fuel env lenv) env cb b = Inl Out_Of_Fuel"
proof (induction turns arbitrary: b)
  case (Suc turns)
  let ?s = "with_thread (env_self env) (the_stream b)"
  have b: "quiet_base b (sock (bos b))" "stream_ok env (the_stream b) []" "connectCallback (bos b) = None"
    using Suc.prems(1) by (simp_all add: idle_base_def)
  have "poll ?s = NONE" using assms(3) Suc.prems(2)
    by (cases "poll ?s") (force simp: deaf_def what_defs)+
  then have "SockHandler_ready fuel env (poll ?s) ?s = Inr ?s" by (simp add: SockHandler_ready_def what_defs)
  moreover have "the_watched env (the_stream b) \<noteq> NONE" using Suc.prems(2) by simp
  ultimately obtain b' where
    b': "EventBase_loop 1 (blocking_loop_env fuel env lenv) (env_self env) ONCE b = Inr (Started b')"
    "the_stream b' = with_thread 0 ?s" "quiet_base b' (sock (bos b'))" "bos b' = ?s"
    using once_turn [OF assms(1) b(1) assms(2), of ?s] by auto
  have "stream_ok env ?s []" unfolding with_thread_def using stream_ok_thread [OF b(2)] by blast
  then have "stream_ok env (with_thread 0 ?s) []" unfolding with_thread_def using stream_ok_thread by blast
  then have i: "idle_base env b'" using b'(2-4) b(3) by (simp add: idle_base_def the_stream_def)
  have "the_watched env (the_stream b') = READ" "rcbs (snd (os (the_stream b'))) cb = Some r"
    using b'(2) Suc.prems(2,3) by simp_all
  from Suc.IH [OF i this Suc.prems(4-6)] this(2) b'(1) Suc.prems(4-6) show ?case by simp
qed simp

text \<open>C40: A blocking read does not see what has been taken already. The bytes that an earlier
  \<open>read\<close> took beyond what it was asked for are in the buffer of the stream, but
  \<open>read\<close> looks at the buffer only when more input arrives: whatever is buffered, as
  long as nothing arrives a \<open>read\<close> of one byte or more has not returned after any
  number of turns of the loop.\<close>

theorem blocking_read_strands_input:
  assumes "libevent_ok le" and "env = blocking_stream_env le k al self"
    and "one_handler (blocking_loop_env fuel env lenv) env poll" and "0 < lp_fuel lenv" and "deaf env poll"
    and "idle_base env b" and "0 < n"
    and "the_watched env (the_stream b) = READ \<or> the_watched env (the_stream b) = NONE \<and> readCallback (bos b) \<noteq> Some cb"
  shows "Blocking_read turns (blocking_loop_env fuel env lenv) env cb out n b = Inl Out_Of_Fuel"
proof -
  have le: "libevent_ok (env_le env)" using assms(1,2) by simp
  from read_starts [OF le assms(6,8), of out n] obtain b1 where
    b1: "on_stream (\<lambda>s. startRead env (Some cb) (rcb_new cb out n s)) b = Inr b1" "idle_base env b1"
    "the_watched env (the_stream b1) = READ" "rcbs (snd (os (the_stream b1))) cb \<noteq> None"
    "the_rcb cb (the_stream b1) = \<lparr>r_buffer = out, r_size = n, r_nread = 0, r_eof = False, r_error = None\<rparr>" by blast
  then have "rcbs (snd (os (the_stream b1))) cb = Some \<lparr>r_buffer = out, r_size = n, r_nread = 0, r_eof = False, r_error = None\<rparr>"
    by (auto simp: the_rcb_def)
  from silent_turns [OF assms(3-5) b1(2,3) this] assms(7) b1(1) show ?thesis by (simp add: Blocking_read_def)
qed

text \<open>The buffer with the bytes of an earlier chunk.\<close>

definition stranded_base :: "(event \<Rightarrow> 16 word \<times> bool, byte list) blocking_base" where
  "stranded_base = (read_model_base [])\<lparr>bos := (bos (read_model_base []))\<lparr>readBuffer :=
     \<lparr>extents = [\<lparr>ext_size = 6, ext_data = map Some '' world'', read_offset = 0, write_offset = 6\<rparr>], buf_size = 6\<rparr>\<rparr>\<rparr>"

theorem blocking_read_strands_input_witness:
  "contents (readBuffer (the_stream stranded_base)) = map Some '' world'' \<and>
    Blocking_read 1000 (blocking_loop_env 2 read_model_env (polled_env read_model_env (\<lambda>s. NONE)))
      read_model_env 4 [None] 1 stranded_base = Inl Out_Of_Fuel"
proof -
  have env: "read_model_env = blocking_stream_env libevent_model closing_kernel malloc_model 5"
    by (simp add: read_model_env_def)
  have le: "libevent_ok (env_le read_model_env)" by (simp add: env libevent_model_ok)
  have s: "the_stream stranded_base = (the_stream (read_model_base []))\<lparr>readBuffer := readBuffer (bos stranded_base)\<rparr>"
    by (simp add: stranded_base_def the_stream_def)
  have q: "quiet_base stranded_base (sock (bos stranded_base))" "readCallback (bos stranded_base) \<noteq> Some 4"
    "connectCallback (bos stranded_base) = None"
    using read_model_facts(4) [of "[]"] read_model_facts(8) [of "[]" 4]
    by (simp_all add: stranded_base_def idle_base_def quiet_base_def)
  have i: "idle_base read_model_env stranded_base" "the_watched read_model_env (the_stream stranded_base) = NONE"
    using read_model_facts(4,7) [of "[]"] q by (simp_all add: idle_base_def s stream_ok_def the_watched_def)
  have "deaf read_model_env (\<lambda>s. NONE)" by (simp add: deaf_def what_defs)
  from blocking_read_strands_input [OF libevent_model_ok(1) env polled_env_ok [OF le] this i(1), of 1 4 1000 2 "[None]"] i(2) q(2)
  have "Blocking_read 1000 (blocking_loop_env 2 read_model_env (polled_env read_model_env (\<lambda>s. NONE)))
      read_model_env 4 [None] 1 stranded_base = Inl Out_Of_Fuel" by simp
  moreover have "contents (readBuffer (the_stream stranded_base)) = map Some '' world''"
    by (simp add: the_stream_def stranded_base_def contents_def chain_bytes_def ext_bytes_def readable_def)
  ultimately show ?thesis by blast
qed

end
