(* ===== verification/Echo_Server.thy ===== *)
theory Echo_Server
  imports Stream_Model Connection_Listener Event_Loop
begin

text \<open>
  The echo server of \<open>src/example/echo-server.cc\<close>, a client of the listener, the event base and the
  stream: what it receives on a connection it writes back.

  The components run together here. The world of a connection's stream (\<open>Stream_Model\<close>) is the
  operating system and the rest of its \<open>Connection\<close> object, the callbacks of the stream are those of
  the connection, and the world of the listener (\<open>Connection_Listener\<close>) is the operating system and
  the connections there are. They share one base. \<open>new\<close> is given addresses by a parameter.
\<close>

subsection \<open>Connections\<close>

text \<open>
  A \<open>Connection\<close> but for its stream: the addresses of its callback objects, and whether it has been
  deleted, the callback objects with it.
\<close>

record Connection =
  conn_alive :: bool
  write_cb :: cbid
  read_cb :: cbid

type_synonym ('l, 'w) conn = "('l, 'w \<times> Connection) stream"
type_synonym ('l, 'w) conns = "hid \<rightharpoonup> ('l, 'w) conn"
type_synonym ('l, 'w) echo_server = "('l, 'w \<times> ('l, 'w) conns) listener"

text \<open>
  \<open>ec_request\<close> and \<open>ec_addr\<close> are \<open>new\<close> for a write request, and for a \<open>Connection\<close>, as the addresses of
  its socket handler, its write callback and its read callback; \<open>ec_fuel\<close> bounds the loops of
  the stream.
\<close>

record ('l, 'w) echo_params =
  ec_le :: "'l libevent"
  ec_kernel :: "'w kernel"
  ec_alloc :: "size_t \<Rightarrow> bool"
  ec_self :: thread
  ec_fuel :: nat
  ec_request :: "('l, 'w) conn \<Rightarrow> rid"
  ec_addr :: "('l, 'w) echo_server \<Rightarrow> hid \<times> cbid \<times> cbid"

definition Connection_new :: "'l EventBase \<Rightarrow> int \<Rightarrow> 'w \<Rightarrow> hid \<times> cbid \<times> cbid \<Rightarrow> ('l, 'w) conn" where
  "Connection_new b fd w a = (case a of (h, wcb, rcb) \<Rightarrow>
     StreamImpl_init b h fd (w, \<lparr>conn_alive = True, write_cb = wcb, read_cb = rcb\<rparr>))"

definition deref_conn :: "('l, 'w) conn \<Rightarrow> fault + Connection" where
  "deref_conn s = (if conn_alive (snd (os s)) then Inr (snd (os s)) else Inl Use_After_Free)"

text \<open>\<open>delete conn\<close>: the destructor, then the callback objects, then the stream.\<close>

definition Connection_delete ::
  "nat \<Rightarrow> ('l, 'w \<times> Connection) stream_env \<Rightarrow> ('l, 'w) conn \<Rightarrow> fault + ('l, 'w) conn" where
  "Connection_delete fuel env s =
     bindE (deref_conn s) (\<lambda>c.
     bindE (deref_stream s) (\<lambda>_.
     bindE (stopRead env s) (\<lambda>s.
     bindE (deref_stream s) (\<lambda>_.
     bindE (Stream_close env s) (\<lambda>s.
     StreamImpl_destroy fuel env (s\<lparr>os := (fst (os s), c\<lparr>conn_alive := False\<rparr>)\<rparr>))))))"

text \<open>The methods of the callback objects; \<open>buf\<close> is the read buffer of the stream, \<open>a\<close> the new request.\<close>

definition EchoReadCallback_available ::
  "('l, 'w \<times> Connection) stream_env \<Rightarrow> rid \<Rightarrow> BufferImpl \<Rightarrow> ('l, 'w) conn \<Rightarrow> fault + BufferImpl \<times> ('l, 'w) conn" where
  "EchoReadCallback_available env a buf s =
     bindE (deref_conn s) (\<lambda>c.
     bindE (deref_stream s) (\<lambda>_.
     Stream_write_buffer env a buf (Some (write_cb c)) s))"

definition EchoReadCallback_eof ::
  "nat \<Rightarrow> ('l, 'w \<times> Connection) stream_env \<Rightarrow> ('l, 'w) conn \<Rightarrow> fault + ('l, 'w) conn" where
  "EchoReadCallback_eof fuel env s = Connection_delete fuel env s"

definition EchoReadCallback_error ::
  "nat \<Rightarrow> ('l, 'w \<times> Connection) stream_env \<Rightarrow> string \<Rightarrow> ('l, 'w) conn \<Rightarrow> fault + ('l, 'w) conn" where
  "EchoReadCallback_error fuel env e s = Connection_delete fuel env s"

definition EchoWriteCallback_complete :: "('l, 'w) conn \<Rightarrow> fault + ('l, 'w) conn" where
  "EchoWriteCallback_complete s = Inr s"

definition EchoWriteCallback_error ::
  "nat \<Rightarrow> ('l, 'w \<times> Connection) stream_env \<Rightarrow> string \<Rightarrow> ('l, 'w) conn \<Rightarrow> fault + ('l, 'w) conn" where
  "EchoWriteCallback_error fuel env e s = Connection_delete fuel env s"

text \<open>
  A call of a virtual function goes to the callback object, which is gone when the connection is.
  The server never connects a stream.
\<close>

definition echo_invoke ::
  "nat \<Rightarrow> (('l, 'w) conn \<Rightarrow> rid) \<Rightarrow> ('l, 'w \<times> Connection) stream_env \<Rightarrow> cb_event \<Rightarrow> ('l, 'w) conn \<Rightarrow>
     fault + ('l, 'w) conn" where
  "echo_invoke fuel new env ev s = bindE (deref_conn s) (\<lambda>_. case ev of
       Write_Complete cb \<Rightarrow> EchoWriteCallback_complete s
     | Write_Error cb e \<Rightarrow> EchoWriteCallback_error fuel env e s
     | Read_Available cb \<Rightarrow> bindE (EchoReadCallback_available env (new s) (readBuffer s) s) (\<lambda>(buf, s).
         Inr (s\<lparr>readBuffer := buf\<rparr>))
     | Read_Error cb e \<Rightarrow> EchoReadCallback_error fuel env e s
     | Read_Eof cb \<Rightarrow> EchoReadCallback_eof fuel env s
     | Connect_Complete cb \<Rightarrow> Inl Null_Dereference
     | Connect_Error cb e \<Rightarrow> Inl Null_Dereference)"

text \<open>
  The callbacks call operations of the stream, which may call callbacks; the number bounds the
  nesting of such calls.
\<close>

fun echo_env :: "('l, 'w) echo_params \<Rightarrow> nat \<Rightarrow> ('l, 'w \<times> Connection) stream_env" where
  "echo_env P 0 = \<lparr>env_le = ec_le P, env_kernel = lift_kernel (ec_kernel P), env_alloc = ec_alloc P,
     env_self = ec_self P, env_invoke = (\<lambda>ev s. Inl Out_Of_Fuel)\<rparr>"
| "echo_env P (Suc n) = (echo_env P 0)\<lparr>env_invoke := echo_invoke (ec_fuel P) (ec_request P) (echo_env P n)\<rparr>"

text \<open>The environment of a connection: no callback is called from within more than one other.\<close>

definition conn_env :: "('l, 'w) echo_params \<Rightarrow> ('l, 'w \<times> Connection) stream_env" where
  "conn_env P = echo_env P 2"

definition conn_ready :: "('l, 'w) echo_params \<Rightarrow> What \<Rightarrow> ('l, 'w) conn \<Rightarrow> fault + ('l, 'w) conn" where
  "conn_ready P event s = SockHandler_ready (ec_fuel P) (conn_env P) event s"

subsection \<open>The server\<close>

text \<open>A connection with the base and the system of the server, and the server with the connection \<open>s\<close>.\<close>

definition the_conn :: "('l, 'w) echo_server \<Rightarrow> ('l, 'w) conn \<Rightarrow> ('l, 'w) conn" where
  "the_conn srv s = s\<lparr>sbase := l_base srv, os := (fst (l_os srv), snd (os s))\<rparr>"

definition put_conn :: "('l, 'w) echo_server \<Rightarrow> ('l, 'w) conn \<Rightarrow> ('l, 'w) echo_server" where
  "put_conn srv s = srv\<lparr>l_base := sbase s, l_os := (fst (os s), (snd (l_os srv))(sock s \<mapsto> s))\<rparr>"

definition acceptCb :: "('l, 'w) echo_params \<Rightarrow> int \<Rightarrow> ('l, 'w) echo_server \<Rightarrow> fault + ('l, 'w) echo_server" where
  "acceptCb P fd srv =
     (let conn = Connection_new (l_base srv) fd (fst (l_os srv)) (ec_addr P srv)
      in bindE (startRead (conn_env P) (Some (read_cb (snd (os conn)))) conn) (\<lambda>conn. Inr (put_conn srv conn)))"

text \<open>\<open>errorCb\<close> prints a message.\<close>

definition errorCb :: "string \<Rightarrow> ('l, 'w) echo_server \<Rightarrow> fault + ('l, 'w) echo_server" where
  "errorCb e srv = Inr srv"

fun listener_invoke :: "('l, 'w) echo_params \<Rightarrow> accept_event \<Rightarrow> ('l, 'w) echo_server \<Rightarrow>
    fault + ('l, 'w) echo_server" where
  "listener_invoke P (Accepted fd) srv = acceptCb P fd srv"
| "listener_invoke P (Accept_Error e) srv = errorCb e srv"

definition server_env :: "('l, 'w) echo_params \<Rightarrow> ('l, 'w \<times> ('l, 'w) conns) listener_env" where
  "server_env P = \<lparr>ls_le = ec_le P, ls_kernel = lift_kernel (ec_kernel P), ls_self = ec_self P,
     ls_invoke = listener_invoke P\<rparr>"

text \<open>The handlers that the program has registered: the listener's, and one for each connection.\<close>

definition server_ready :: "('l, 'w) echo_params \<Rightarrow> hid \<Rightarrow> What \<Rightarrow> ('l, 'w) echo_server \<Rightarrow>
    fault + ('l, 'w) echo_server" where
  "server_ready P h event srv =
     (if h = l_handler srv then AcceptHandler_ready (server_env P) event srv
      else case snd (l_os srv) h of
        None \<Rightarrow> Inl Use_After_Free
      | Some s \<Rightarrow> bindE (conn_ready P event (the_conn srv s)) (\<lambda>s. Inr (put_conn srv s)))"

text \<open>
  \<open>main\<close>, up to the loop, on a new base \<open>b\<close>; \<open>h\<close> is the address of the listener's handler. An exception
  ends the program.
\<close>

definition echo_main :: "('l, 'w) echo_params \<Rightarrow> hid \<Rightarrow> 'l EventBase \<Rightarrow> 'w \<Rightarrow> fault + ('l, 'w) echo_server" where
  "echo_main P h b w =
     bindE (Listener_bind (server_env P) 0 (Listener_init b h (w, Map.empty))) (\<lambda>(e, srv).
     case e of Some msg \<Rightarrow> Inl (Runtime_Error msg) | None \<Rightarrow>
     bindE (Listener_listen (server_env P) 128 srv) (\<lambda>(e, srv).
     case e of Some msg \<Rightarrow> Inl (Runtime_Error msg) | None \<Rightarrow>
     startAccepting (server_env P) srv))"

subsection \<open>The server in its loop\<close>

text \<open>
  The base of the server as an event loop (\<open>Event_Loop\<close>), whose world is the server: the server with
  the registrations of the base, and the base with the server \<open>srv\<close>.
\<close>

type_synonym ('l, 'w) echo_base = "('l, ('l, 'w) echo_server) LibeventEventBase"

definition the_server :: "('l, 'w) echo_base \<Rightarrow> ('l, 'w) echo_server" where
  "the_server b = (bos b)\<lparr>l_base := reg b\<rparr>"

definition put_server :: "('l, 'w) echo_base \<Rightarrow> ('l, 'w) echo_server \<Rightarrow> ('l, 'w) echo_base" where
  "put_server b srv = b\<lparr>reg := l_base srv, bos := srv\<rparr>"

text \<open>The callbacks that libevent finds are those of the server's handlers; \<open>lenv\<close> supplies libevent's loop.\<close>

definition echo_loop_env :: "('l, 'w) echo_params \<Rightarrow> ('l, ('l, 'w) echo_server) loop_env \<Rightarrow>
    ('l, ('l, 'w) echo_server) loop_env" where
  "echo_loop_env P lenv = lenv\<lparr>lp_le := ec_le P, lp_client := (\<lambda>c b. Inr b),
     lp_ready := (\<lambda>h what b. bindE (server_ready P h what (the_server b)) (\<lambda>srv. Inr (put_server b srv))),
     lp_expired := (\<lambda>t b. Inr b)\<rparr>"

text \<open>The base that \<open>mkEventBase\<close> has made, with the server on it.\<close>

definition base_with :: "('l, 'v) LibeventEventBase \<Rightarrow> ('l, 'w) echo_server \<Rightarrow> ('l, 'w) echo_base" where
  "base_with b srv = \<lparr>reg = l_base srv, terminate = terminate b, finished = finished b, notify_type = notify_type b,
     notify_queue = notify_queue b, notify_fds = notify_fds b, notify_handler = notify_handler b, frames = frames b,
     bos = srv, ran = ran b\<rparr>"

text \<open>The whole of \<open>main\<close>, on that base; \<open>turns\<close> bounds the turns of the loop.\<close>

definition echo_program :: "nat \<Rightarrow> ('l, 'w) echo_params \<Rightarrow> ('l, ('l, 'w) echo_server) loop_env \<Rightarrow> hid \<Rightarrow> 'w \<Rightarrow>
    ('l, 'v) LibeventEventBase \<Rightarrow> fault + ('l, 'w) echo_base loop_result" where
  "echo_program turns P lenv h w b =
     bindE (echo_main P h (reg b) w) (\<lambda>srv.
     EventBase_loop turns (echo_loop_env P lenv) (ec_self P) FOREVER (base_with b srv))"

end
