(* ===== verification/Echo_Correct.thy ===== *)
theory Echo_Correct
  imports Echo_Server Stream_Read
begin

text \<open>
  A connection of the echo server of \<open>Echo_Server\<close>: the phases it goes through, what a readable and
  a writable event do in each of them, and how it ends.
\<close>

declare echo_env.simps [simp del]

subsection \<open>The socket of a connection\<close>

text \<open>
  What each descriptor has written and can still read, and which are open; and what POSIX says of
  them: of \<open>write\<close> and \<open>read\<close> (\<open>Sys_Kernel\<close>), of open descriptors (\<open>Connection_Listener\<close>), that the two
  directions, and the descriptors, are independent, that \<open>close\<close> neither reads anything nor recalls
  what has been written, and that \<open>accept\<close> touches the new descriptor only.
\<close>

record 'w fd_view =
  written :: "int \<Rightarrow> 'w \<Rightarrow> byte array"
  unread :: "int \<Rightarrow> 'w \<Rightarrow> byte list"
  opened :: "'w \<Rightarrow> int set"

definition posix_socket :: "'w kernel \<Rightarrow> 'w fd_view \<Rightarrow> bool" where
  "posix_socket k V \<longleftrightarrow> posix_write k (written V) \<and> posix_read k (unread V) \<and> posix_fds k (opened V) \<and>
     (\<forall>fd buf n w. let w' = snd (k_write k fd buf n w) in opened V w' = opened V w \<and>
        (\<forall>fd'. unread V fd' w' = unread V fd' w \<and> (fd' \<noteq> fd \<longrightarrow> written V fd' w' = written V fd' w))) \<and>
     (\<forall>fd n w. let w' = snd (snd (k_read k fd n w)) in opened V w' = opened V w \<and>
        (\<forall>fd'. written V fd' w' = written V fd' w \<and> (fd' \<noteq> fd \<longrightarrow> unread V fd' w' = unread V fd' w))) \<and>
     (\<forall>fd w fd'. let w' = snd (k_close k fd w) in written V fd' w' = written V fd' w \<and> unread V fd' w' = unread V fd' w) \<and>
     (\<forall>fd w fd'. let w' = snd (make_socket_nonblocking k fd w) in
        written V fd' w' = written V fd' w \<and> unread V fd' w' = unread V fd' w) \<and>
     (\<forall>l w fd'. let (fd, w') = k_accept k l w in fd' \<noteq> fd \<longrightarrow>
        written V fd' w' = written V fd' w \<and> unread V fd' w' = unread V fd' w)"

lemma posix_socketD:
  assumes "posix_socket k V"
  shows "posix_write k (written V)" "posix_read k (unread V)" "posix_fds k (opened V)"
    "k_write k fd buf n w = (r, w') \<Longrightarrow> opened V w' = opened V w" "k_write k fd buf n w = (r, w') \<Longrightarrow> unread V fd' w' = unread V fd' w"
    "k_write k fd buf n w = (r, w') \<Longrightarrow> fd' \<noteq> fd \<Longrightarrow> written V fd' w' = written V fd' w"
    "k_read k fd n w = (r, bs, w') \<Longrightarrow> opened V w' = opened V w" "k_read k fd n w = (r, bs, w') \<Longrightarrow> written V fd' w' = written V fd' w"
    "k_read k fd n w = (r, bs, w') \<Longrightarrow> fd' \<noteq> fd \<Longrightarrow> unread V fd' w' = unread V fd' w"
    "written V fd' (snd (k_close k fd w)) = written V fd' w" "unread V fd' (snd (k_close k fd w)) = unread V fd' w"
    "opened V (snd (k_close k fd w)) = opened V w - {fd}"
    "make_socket_nonblocking k fd w = (r, w') \<Longrightarrow> written V fd' w' = written V fd' w \<and> unread V fd' w' = unread V fd' w"
    "k_accept k l w = (fd, w') \<Longrightarrow> fd' \<noteq> fd \<Longrightarrow> written V fd' w' = written V fd' w \<and> unread V fd' w' = unread V fd' w"
proof -
  have w: "opened V (snd (k_write k fd buf n w)) = opened V w" "unread V fd' (snd (k_write k fd buf n w)) = unread V fd' w"
    "fd' \<noteq> fd \<Longrightarrow> written V fd' (snd (k_write k fd buf n w)) = written V fd' w"
    using assms by (simp_all add: posix_socket_def Let_def)
  have r: "opened V (snd (snd (k_read k fd n w))) = opened V w" "written V fd' (snd (snd (k_read k fd n w))) = written V fd' w"
    "fd' \<noteq> fd \<Longrightarrow> unread V fd' (snd (snd (k_read k fd n w))) = unread V fd' w"
    using assms by (simp_all add: posix_socket_def Let_def)
  show "k_write k fd buf n w = (r, w') \<Longrightarrow> opened V w' = opened V w" "k_write k fd buf n w = (r, w') \<Longrightarrow> unread V fd' w' = unread V fd' w"
    "k_write k fd buf n w = (r, w') \<Longrightarrow> fd' \<noteq> fd \<Longrightarrow> written V fd' w' = written V fd' w" using w by simp_all
  have n: "written V fd' (snd (make_socket_nonblocking k fd w)) = written V fd' w \<and>
      unread V fd' (snd (make_socket_nonblocking k fd w)) = unread V fd' w"
    using assms by (simp add: posix_socket_def Let_def)
  show "make_socket_nonblocking k fd w = (r, w') \<Longrightarrow> written V fd' w' = written V fd' w \<and> unread V fd' w' = unread V fd' w"
    using n by simp
  have a: "let (fd, w') = k_accept k l w in fd' \<noteq> fd \<longrightarrow> written V fd' w' = written V fd' w \<and> unread V fd' w' = unread V fd' w"
    using assms by (simp add: posix_socket_def)
  show "k_accept k l w = (fd, w') \<Longrightarrow> fd' \<noteq> fd \<Longrightarrow> written V fd' w' = written V fd' w \<and> unread V fd' w' = unread V fd' w"
    using a by simp
  show "k_read k fd n w = (r, bs, w') \<Longrightarrow> opened V w' = opened V w" "k_read k fd n w = (r, bs, w') \<Longrightarrow> written V fd' w' = written V fd' w"
    "k_read k fd n w = (r, bs, w') \<Longrightarrow> fd' \<noteq> fd \<Longrightarrow> unread V fd' w' = unread V fd' w" using r by simp_all
qed (use assms in \<open>simp_all add: posix_socket_def posix_fds_def Let_def\<close>)

text \<open>No \<open>read\<close> fills the array of \<open>readHelper\<close>.\<close>

definition short_reads :: "'w kernel \<Rightarrow> bool" where
  "short_reads k \<longleftrightarrow> (\<forall>fd w. fst (k_read k fd read_chunk w) < 4096)"

text \<open>What the server relies on.\<close>

definition echo_host :: "('l, 'w) echo_params \<Rightarrow> 'w fd_view \<Rightarrow> bool" where
  "echo_host P V \<longleftrightarrow> libevent_ok (ec_le P) \<and> posix_socket (ec_kernel P) V \<and>
     alloc_bounded (ec_alloc P) \<and> (\<forall>n. n \<le> read_chunk \<longrightarrow> ec_alloc P n) \<and> 2 \<le> ec_fuel P \<and>
     (\<forall>s. finite (dom (reqs s)) \<longrightarrow> reqs s (ec_request P s) = None)"

lemma echo_hostD:
  assumes "echo_host P V"
  shows "libevent_ok (ec_le P)" "posix_socket (ec_kernel P) V" "alloc_bounded (ec_alloc P)"
    "n \<le> read_chunk \<Longrightarrow> ec_alloc P n" "2 \<le> ec_fuel P"
    "finite (dom (reqs s)) \<Longrightarrow> reqs s (ec_request P s) = None"
  using assms by (simp_all add: echo_host_def)

lemma echo_env_fields [simp]:
  "env_le (echo_env P n) = ec_le P" "env_kernel (echo_env P n) = lift_kernel (ec_kernel P)"
  "env_alloc (echo_env P n) = ec_alloc P" "env_self (echo_env P n) = ec_self P"
  by (cases n; simp add: echo_env.simps)+

lemma conn_env_fields [simp]:
  "env_le (conn_env P) = ec_le P" "env_kernel (conn_env P) = lift_kernel (ec_kernel P)"
  "env_alloc (conn_env P) = ec_alloc P" "env_self (conn_env P) = ec_self P"
  by (simp_all add: conn_env_def)

lemma conn_env_invoke:
  "env_invoke (conn_env P) = echo_invoke (ec_fuel P) (ec_request P) (echo_env P 1)"
  by (simp add: conn_env_def numeral_2_eq_2 echo_env.simps)

lemma stream_ok_conn_env:
  "stream_ok (echo_env P n) s rs = stream_ok (conn_env P) s rs"
  "the_watched (echo_env P n) s = the_watched (conn_env P) s"
  by (simp_all add: stream_ok_def the_watched_def)

lemma lift_close [simp]:
  "k_close (lift_kernel k) fd x = (fst (k_close k fd (fst x)), snd (k_close k fd (fst x)), snd x)"
  by (simp add: lift_kernel_def lift_call_def split: prod.split)

subsection \<open>Deleting a connection\<close>

text \<open>
  \<open>s'\<close> is what is left of the connection \<open>s\<close> with the queue \<open>rs\<close>: the stream, its requests and the
  callback objects are gone, the descriptor is closed, and libevent knows nothing of the handler.
\<close>

definition deleted :: "('l, 'w) echo_params \<Rightarrow> ('l, 'w) conn \<Rightarrow> rid list \<Rightarrow> ('l, 'w) conn \<Rightarrow> bool" where
  "deleted P s rs s' \<longleftrightarrow> \<not> alive s' \<and> \<not> conn_alive (snd (os s')) \<and> sock s' = sock s \<and>
     fst (os s') = snd (k_close (ec_kernel P) (the_fd s) (fst (os s))) \<and>
     reqs s' = (\<lambda>r. if r \<in> set rs then None else reqs s r) \<and> handlers (sbase s') (sock s) = None \<and>
     reg_inv (ec_le P) (sbase s') \<and> \<not> event_pending (ec_le P) (Ev_Handler (sock s)) (lbase (sbase s'))"

lemma Connection_delete_ok:
  assumes le: "libevent_ok (ec_le P)" and ok: "stream_ok (conn_env P) s rs" and cb: "readCallback s = Some cb"
    and c: "connectCallback s = None" "conn_alive (snd (os s))" "the_fd s \<noteq> - 1" and fuel: "length rs \<le> fuel" "0 < fuel"
  shows "\<exists>s'. Connection_delete fuel (echo_env P n) s = Inr s' \<and> deleted P s rs s'"
proof -
  let ?env = "echo_env P n"
  have le': "libevent_ok (env_le ?env)" and ok': "stream_ok ?env s rs"
    using le ok by (simp_all add: stream_ok_conn_env)
  from stopRead_ok [OF le' ok' cb] obtain b1 where
    s1: "stopRead ?env s = Inr (s\<lparr>readCallback := None, sbase := b1\<rparr>)"
    "stream_ok ?env (s\<lparr>readCallback := None, sbase := b1\<rparr>) rs" "the_fd (s\<lparr>readCallback := None, sbase := b1\<rparr>) = the_fd s"
    by blast
  let ?s1 = "s\<lparr>readCallback := None, sbase := b1\<rparr>"
  have fd1: "the_fd ?s1 \<noteq> - 1" using s1(3) c(3) by metis
  from close_rest_ok [OF le' s1(2) fd1] obtain b2 where
    s2: "close_rest ?env ?s1 = Inr (?s1\<lparr>sbase := b2, os := snd (xclose (env_kernel ?env) (the_fd ?s1) (os ?s1))\<rparr>)"
    "stream_ok ?env (?s1\<lparr>sbase := b2\<rparr>) rs" by blast
  have live: "alive s" "alive ?s1" using ok by (simp_all add: stream_ok_def)
  have "Stream_close ?env ?s1 = close_rest ?env ?s1" by (rule Stream_close_rest(1) [OF live(2)]) (simp_all add: c)
  let ?w = "(snd (k_close (ec_kernel P) (the_fd s) (fst (os s))), (snd (os s))\<lparr>conn_alive := False\<rparr>)"
  let ?s2 = "s\<lparr>readCallback := None, sbase := b2, os := ?w\<rparr>"
  have "stream_ok ?env ?s2 rs" using s2(2) by (simp add: stream_ok_def)
  from StreamImpl_destroy_ok [OF le' this fuel] obtain s' where
    s': "StreamImpl_destroy fuel ?env ?s2 = Inr s'" "destroyed ?env ?s2 rs s'" by blast
  have "Connection_delete fuel ?env s = StreamImpl_destroy fuel ?env ?s2"
    using s1(1,3) s2(1) live c(2) \<open>Stream_close ?env ?s1 = close_rest ?env ?s1\<close>
    by (simp add: Connection_delete_def deref_conn_def deref_stream_def xclose_def)
  then show ?thesis using s' by (auto simp: destroyed_def deleted_def)
qed

subsection \<open>Phases\<close>

text \<open>
  The phases of a connection: waiting for input; with one request queued; with two, when
  \<open>ensureWrite\<close> has taken it off the readable set; with the second of them only; and with none, not
  registered at all.
\<close>

datatype echo_phase = Idle | Echoing | Full | Draining | Stalled

fun in_phase :: "echo_phase \<Rightarrow> What \<Rightarrow> rid list \<Rightarrow> rid option \<Rightarrow> bool" where
  "in_phase Idle w rs t \<longleftrightarrow> w = READ \<and> rs = []"
| "in_phase Echoing w rs t \<longleftrightarrow> w = READ_WRITE \<and> (\<exists>a. rs = [a] \<and> t = Some a)"
| "in_phase Full w rs t \<longleftrightarrow> w = WRITE \<and> length rs = 2"
| "in_phase Draining w rs t \<longleftrightarrow> w = WRITE \<and> length rs = 1"
| "in_phase Stalled w rs t \<longleftrightarrow> w = NONE \<and> rs = []"

text \<open>What a writable and a readable event may do to the phase.\<close>

inductive echo_writes :: "echo_phase \<Rightarrow> echo_phase \<Rightarrow> bool" where
  flushed: "echo_writes Echoing Idle"
| first_out: "echo_writes Full Draining"
| both_out: "echo_writes Full Stalled"
| drained: "echo_writes Draining Stalled"
| blocked: "echo_writes p p"

inductive echo_reads :: "echo_phase \<Rightarrow> echo_phase \<Rightarrow> bool" where
  first_in: "echo_reads Idle Echoing"
| second_in: "echo_reads Echoing Full"
| nothing_in: "echo_reads p p"

inductive_cases echo_writes_cases: "echo_writes p q"
inductive_cases echo_reads_cases: "echo_reads p q"

text \<open>The connection \<open>s\<close> is alive and in phase \<open>ph\<close>, with the queue \<open>rs\<close>.\<close>

definition conn_in :: "('l, 'w) echo_params \<Rightarrow> echo_phase \<Rightarrow> ('l, 'w) conn \<Rightarrow> rid list \<Rightarrow> bool" where
  "conn_in P ph s rs \<longleftrightarrow> stream_ok (conn_env P) s rs \<and> orderly (lift_kernel (ec_kernel P) :: ('w \<times> Connection) kernel) (reqs s) rs \<and>
     in_phase ph (the_watched (conn_env P) s) rs (req_tail s) \<and> dom (reqs s) \<subseteq> set rs \<and>
     (\<forall>r \<in> set rs. completes (reqs s) r \<noteq> []) \<and> readBuffer s = BufferImpl_init \<and> readCallback s \<noteq> None \<and>
     connectCallback s = None \<and> conn_alive (snd (os s)) \<and> the_fd s \<noteq> - 1"

lemma conn_inD:
  assumes "conn_in P ph s rs"
  shows "stream_ok (conn_env P) s rs" "orderly (lift_kernel (ec_kernel P) :: ('w \<times> Connection) kernel) (reqs s) rs"
    "in_phase ph (the_watched (conn_env P) s) rs (req_tail s)" "dom (reqs s) \<subseteq> set rs"
    "r \<in> set rs \<Longrightarrow> completes (reqs s) r \<noteq> []" "readBuffer s = BufferImpl_init"
    "\<exists>cb. readCallback s = Some cb" "connectCallback s = None" "conn_alive (snd (os s))" "the_fd s \<noteq> - 1"
    "length rs \<le> 2"
  using assms by (cases ph; auto simp: conn_in_def)+

text \<open>
  The data: what \<open>s'\<close> has written and \<open>left\<close>, the bytes it has not, are what \<open>s\<close> had written and queued,
  and \<open>d\<close>, the input it has taken in between. Other descriptors are not touched.
\<close>

definition relays :: "'w fd_view \<Rightarrow> ('l, 'w) conn \<Rightarrow> rid list \<Rightarrow>
    byte list \<Rightarrow> ('l, 'w) conn \<Rightarrow> byte array \<Rightarrow> bool" where
  "relays V s rs d s' left \<longleftrightarrow>
     written V (the_fd s) (fst (os s')) @ left = written V (the_fd s) (fst (os s)) @ queued (reqs s) rs @ map Some d \<and>
     unread V (the_fd s) (fst (os s)) = d @ unread V (the_fd s) (fst (os s')) \<and>
     (\<forall>fd. fd \<noteq> the_fd s \<longrightarrow> written V fd (fst (os s')) = written V fd (fst (os s)) \<and>
        unread V fd (fst (os s')) = unread V fd (fst (os s)))"

lemma relays_trans:
  assumes "relays V s rs d1 s1 (queued (reqs s1) rs1)" "relays V s1 rs1 d2 s2 left"
    and "the_fd s1 = the_fd s"
  shows "relays V s rs (d1 @ d2) s2 left"
proof -
  from assms have "written V (the_fd s) (fst (os s2)) @ left =
      (written V (the_fd s) (fst (os s1)) @ queued (reqs s1) rs1) @ map Some d2" by (simp add: relays_def)
  also have "written V (the_fd s) (fst (os s1)) @ queued (reqs s1) rs1 =
      written V (the_fd s) (fst (os s)) @ queued (reqs s) rs @ map Some d1"
    using assms(1) by (simp add: relays_def)
  finally show ?thesis using assms by (simp add: relays_def)
qed

lemma relays_refl: "relays V s rs [] s (queued (reqs s) rs)"
  by (simp add: relays_def)

text \<open>The connection has ended; \<open>left\<close>, what it had not written yet, is lost.\<close>

definition gone :: "('l, 'w) echo_params \<Rightarrow> 'w fd_view \<Rightarrow>
    ('l, 'w) conn \<Rightarrow> rid list \<Rightarrow> byte list \<Rightarrow> ('l, 'w) conn \<Rightarrow> byte array \<Rightarrow> bool" where
  "gone P V s rs d s' left \<longleftrightarrow> \<not> alive s' \<and> \<not> conn_alive (snd (os s')) \<and> reqs s' = Map.empty \<and> sock s' = sock s \<and>
     handlers (sbase s') (sock s) = None \<and> reg_inv (ec_le P) (sbase s') \<and>
     \<not> event_pending (ec_le P) (Ev_Handler (sock s)) (lbase (sbase s')) \<and>
     opened V (fst (os s')) = opened V (fst (os s)) - {the_fd s} \<and> relays V s rs d s' left"

text \<open>The connection lives on, in phase \<open>ph\<close>.\<close>

definition lives :: "('l, 'w) echo_params \<Rightarrow> 'w fd_view \<Rightarrow>
    ('l, 'w) conn \<Rightarrow> rid list \<Rightarrow> byte list \<Rightarrow> echo_phase \<Rightarrow> ('l, 'w) conn \<Rightarrow> rid list \<Rightarrow> bool" where
  "lives P V s rs d ph s' rs' \<longleftrightarrow> conn_in P ph s' rs' \<and> sock s' = sock s \<and> the_fd s' = the_fd s \<and>
     snd (os s') = snd (os s) \<and> opened V (fst (os s')) = opened V (fst (os s)) \<and>
     relays V s rs d s' (queued (reqs s') rs')"

lemma lives_refl: "conn_in P ph s rs \<Longrightarrow> lives P V s rs [] ph s rs"
  by (simp add: lives_def relays_refl)

lemma lives_trans:
  "lives P V s rs d p s1 rs1 \<Longrightarrow> lives P V s1 rs1 d' q s2 rs2 \<Longrightarrow>
   lives P V s rs (d @ d') q s2 rs2"
  using relays_trans by (fastforce simp: lives_def)

lemma lives_gone:
  "lives P V s rs d p s1 rs1 \<Longrightarrow> gone P V s1 rs1 d' s2 left \<Longrightarrow>
   gone P V s rs (d @ d') s2 left"
  using relays_trans by (fastforce simp: lives_def gone_def)

text \<open>Deleting a connection in one of the states above.\<close>

lemma delete_gone:
  assumes host: "echo_host P V" and ok: "stream_ok (conn_env P) s1 rs1" and "readCallback s1 \<noteq> None"
    and "connectCallback s1 = None" "conn_alive (snd (os s1))" "the_fd s1 \<noteq> - 1" "length rs1 \<le> 2"
    and "dom (reqs s1) \<subseteq> set rs1" and eq: "sock s1 = sock s" "the_fd s1 = the_fd s" and rel: "relays V s rs d s1 left"
    and op: "opened V (fst (os s1)) = opened V (fst (os s))"
  shows "\<exists>s'. Connection_delete (ec_fuel P) (echo_env P n) s1 = Inr s' \<and> gone P V s rs d s' left"
proof -
  obtain cb where cb: "readCallback s1 = Some cb" using assms(3) by blast
  have fuel: "length rs1 \<le> ec_fuel P" "0 < ec_fuel P" using echo_hostD(5) [OF host] assms(7) by linarith+
  from Connection_delete_ok [OF echo_hostD(1) [OF host] ok cb assms(4,5,6) fuel] obtain s' where
    s': "Connection_delete (ec_fuel P) (echo_env P n) s1 = Inr s'" "deleted P s1 rs1 s'" by blast
  have w: "fst (os s') = snd (k_close (ec_kernel P) (the_fd s1) (fst (os s1)))" using s'(2) by (simp add: deleted_def)
  have "relays V s rs d s' left"
    using rel unfolding relays_def w by (simp add: posix_socketD(10,11) [OF echo_hostD(2) [OF host]])
  moreover have "opened V (fst (os s')) = opened V (fst (os s)) - {the_fd s}"
    unfolding w posix_socketD(12) [OF echo_hostD(2) [OF host]] by (simp add: op eq)
  moreover have "reqs s' = Map.empty"
    using s'(2) assms(8) by (auto simp: deleted_def fun_eq_iff)
  ultimately have "gone P V s rs d s' left" using s'(2) eq unfolding gone_def deleted_def by auto
  with s'(1) show ?thesis by blast
qed

subsection \<open>Writable events\<close>

lemma phase_writes:
  assumes "in_phase ph w rs t" and rs: "rs = fin @ rest" and "rest \<noteq> [] \<longrightarrow> t' = t"
    and w': "w' = (if fin \<noteq> [] \<and> rest = [] then removeWrite w else w)"
  shows "\<exists>ph'. echo_writes ph ph' \<and> in_phase ph' w' rest t'"
proof (cases ph)
  case Full
  with assms(1) have "length (fin @ rest) = 2" and w: "w = WRITE" by (simp_all add: rs)
  then obtain a b where ab: "fin @ rest = [a, b]" "w = WRITE"
    by (auto simp: length_Suc_conv numeral_2_eq_2 simp del: length_append)
  then consider "fin = []" | "fin = [a]" "rest = [b]" | "rest = []" "fin \<noteq> []"
    by (auto simp: append_eq_Cons_conv)
  then show ?thesis
  proof cases
    case 3
    then show ?thesis using ab(2) Full w' by (intro exI [of _ Stalled]) (simp add: both_out what_defs)
  qed (use ab assms Full in \<open>auto intro: echo_writes.intros simp: rs\<close>)
next
  case Draining
  with assms(1) have "length (fin @ rest) = 1" and w: "w = WRITE" by (simp_all add: rs)
  then obtain b where b: "fin @ rest = [b]" "w = WRITE" by (auto simp: length_Suc_conv simp del: length_append)
  then consider "fin = []" "rest = [b]" | "rest = []" "fin = [b]" by (auto simp: append_eq_Cons_conv)
  then show ?thesis
    using b(2) Draining w' by cases (auto intro: echo_writes.intros exI [of _ Draining] exI [of _ Stalled] simp: what_defs)
next
  case Echoing
  with assms(1) obtain a where a: "fin @ rest = [a]" "w = READ_WRITE" "t = Some a" by (auto simp: rs)
  then consider "fin = []" "rest = [a]" | "rest = []" "fin = [a]" by (auto simp: append_eq_Cons_conv)
  then show ?thesis
    using a(2,3) Echoing w' assms(3)
    by cases (auto intro: echo_writes.intros exI [of _ Echoing] exI [of _ Idle] simp: what_defs)
qed (use assms in \<open>auto intro!: exI [of _ ph] echo_writes.intros\<close>)

lemma conn_env_quiet:
  assumes sock: "posix_socket (ec_kernel P) V"
  shows "quiet (conn_env P) fd (\<lambda>w. snd w = c \<and> opened V (fst w) = F \<and> (\<forall>fd. unread V fd (fst w) = U fd) \<and>
    (\<forall>fd'. fd' \<noteq> fd \<longrightarrow> written V fd' (fst w) = W fd') \<and> conn_alive c)"
proof -
  have "unread V fd' (fst w') = unread V fd' (fst w) \<and> snd w' = snd w \<and> opened V (fst w') = opened V (fst w) \<and>
      (fd' \<noteq> fd \<longrightarrow> written V fd' (fst w') = written V fd' (fst w))"
    if "w' = snd (k_write (lift_kernel (ec_kernel P)) fd buf n w)" for fd' buf n and w w' :: "_ \<times> Connection"
  proof -
    obtain r v where v: "k_write (ec_kernel P) fd buf n (fst w) = (r, v)" by force
    then have "w' = (v, snd w)" using that by (simp add: lift_kernel_def lift_call_def)
    then show ?thesis using posix_socketD(4-6) [OF sock v] by simp
  qed
  then show ?thesis
    by (simp add: quiet_def conn_env_invoke echo_invoke_def deref_conn_def EchoWriteCallback_complete_def)
qed

lemma never_fails_lift [simp]: "never_fails (lift_kernel k :: ('w \<times> 'f) kernel) = never_fails k"
  by (simp add: never_fails_def)

lemma takes_all_lift [simp]: "takes_all (lift_kernel k :: ('w \<times> 'f) kernel) = takes_all k"
  by (simp add: takes_all_def)

lemma broken_lift: "broken (lift_kernel k :: ('w \<times> 'f) kernel) = broken k"
  by (simp add: broken_def)

lemma takes_all_never_fails: "takes_all k \<Longrightarrow> never_fails k"
  unfolding takes_all_def never_fails_def by (metis of_nat_0_le_iff)

text \<open>The write loop on a connection: it changes the descriptor of the connection only.\<close>

lemma conn_write_loop:
  assumes host: "echo_host P V" and ok: "stream_ok (conn_env P) s rs" "orderly (env_kernel (conn_env P)) (reqs s) rs"
    and fuel: "length rs \<le> ec_fuel P" and alive: "conn_alive (snd (os s))"
  shows "\<exists>s' fin rest failed. write_loop (ec_fuel P) (conn_env P) (req_head s) s = (if failed then invoke_opt (conn_env P)
       (\<lambda>cb. Write_Error cb ''Write failed'') (wr_callback (the (reqs s' (hd rest)))) s' else Inr s') \<and>
    wrote (conn_env P) (\<lambda>fd x. written V fd (fst x)) s rs s' fin rest [] \<and>
    (snd (os s') = snd (os s) \<and> opened V (fst (os s')) = opened V (fst (os s)) \<and>
      (\<forall>fd. unread V fd (fst (os s')) = unread V fd (fst (os s))) \<and>
      (\<forall>fd'. fd' \<noteq> the_fd s \<longrightarrow> written V fd' (fst (os s')) = written V fd' (fst (os s))) \<and> conn_alive (snd (os s))) \<and>
    (failed \<longrightarrow> rest \<noteq> [] \<and> \<not> never_fails (ec_kernel P)) \<and> (broken (ec_kernel P) \<longrightarrow> rs \<noteq> [] \<longrightarrow> failed)"
proof -
  note sk = echo_hostD(2) [OF host]
  let ?J = "\<lambda>w. snd w = snd (os s) \<and> opened V (fst w) = opened V (fst (os s)) \<and> (\<forall>fd. unread V fd (fst w) = unread V fd (fst (os s))) \<and>
    (\<forall>fd'. fd' \<noteq> the_fd s \<longrightarrow> written V fd' (fst w) = written V fd' (fst (os s))) \<and> conn_alive (snd (os s))"
  have le: "libevent_ok (env_le (conn_env P))" using echo_hostD(1) [OF host] by simp
  have pw: "posix_write (env_kernel (conn_env P)) (\<lambda>fd x. written V fd (fst x))"
    using lift_posix(1) sk by (auto simp: posix_socket_def)
  have J: "?J (os s)" using alive by simp
  have k: "never_fails (env_kernel (conn_env P)) = never_fails (ec_kernel P)" "broken (env_kernel (conn_env P)) = broken (ec_kernel P)"
    by (simp_all add: broken_lift)
  from write_loop_runs [OF le pw ok fuel, of ?J, OF J conn_env_quiet [OF sk]] show ?thesis unfolding k .
qed

lemma conn_write:
  assumes host: "echo_host P V" and conn: "conn_in P ph s rs"
  shows "\<exists>s'. write_loop (ec_fuel P) (conn_env P) (req_head s) s = Inr s' \<and>
    ((\<exists>ph' rs'. echo_writes ph ph' \<and> lives P V s rs [] ph' s' rs' \<and> (takes_all (ec_kernel P) \<longrightarrow> rs' = []) \<and>
        (broken (ec_kernel P) \<longrightarrow> rs = [])) \<or>
     (\<exists>left. gone P V s rs [] s' left) \<and> \<not> never_fails (ec_kernel P))"
proof -
  note c = conn_inD [OF conn]
  have fuel: "length rs \<le> ec_fuel P" using echo_hostD(5) [OF host] c(11) by linarith
  have ord: "orderly (env_kernel (conn_env P)) (reqs s) rs" using c(2) by simp
  from conn_write_loop [OF host c(1) ord fuel c(9)] obtain s1 fin rest failed where r:
    "write_loop (ec_fuel P) (conn_env P) (req_head s) s = (if failed then invoke_opt (conn_env P)
       (\<lambda>cb. Write_Error cb ''Write failed'') (wr_callback (the (reqs s1 (hd rest)))) s1 else Inr s1)"
    "wrote (conn_env P) (\<lambda>fd x. written V fd (fst x)) s rs s1 fin rest []"
    "snd (os s1) = snd (os s) \<and> opened V (fst (os s1)) = opened V (fst (os s)) \<and>
      (\<forall>fd. unread V fd (fst (os s1)) = unread V fd (fst (os s))) \<and>
      (\<forall>fd'. fd' \<noteq> the_fd s \<longrightarrow> written V fd' (fst (os s1)) = written V fd' (fst (os s))) \<and> conn_alive (snd (os s))"
    "failed \<longrightarrow> rest \<noteq> [] \<and> \<not> never_fails (ec_kernel P)"
    "broken (ec_kernel P) \<longrightarrow> rs \<noteq> [] \<longrightarrow> failed" by blast
  note w = r(2) [unfolded wrote_def]
  have fr: "sock s1 = sock s" "the_fd s1 = the_fd s" "readCallback s1 = readCallback s"
    "connectCallback s1 = connectCallback s" "readBuffer s1 = readBuffer s"
    using w by (simp_all add: frame_def)
  have dom: "dom (reqs s1) \<subseteq> set rest"
  proof
    fix x assume x: "x \<in> dom (reqs s1)"
    show "x \<in> set rest"
    proof (cases "x \<in> set rs")
      case False
      then have "reqs s1 x = reqs s x" using w by blast
      then show ?thesis using x c(4) False by (auto simp: domIff)
    qed (use w x in \<open>auto simp: domIff\<close>)
  qed
  have rel: "relays V s rs [] s1 (queued (reqs s1) rest)"
    using w r(3) by (simp add: relays_def)
  have cps: "\<forall>r \<in> set rest. completes (reqs s1) r \<noteq> []" using w c(5) by auto
  show ?thesis
  proof (cases failed)
    case False
    obtain ph' where ph': "echo_writes ph ph'" "in_phase ph' (the_watched (conn_env P) s1) rest (req_tail s1)"
      using phase_writes [OF c(3), of fin rest "req_tail s1"] w by blast
    have "conn_in P ph' s1 rest"
      using w ph'(2) dom cps c(6-10) fr r(3) by (auto simp: conn_in_def)
    then have "lives P V s rs [] ph' s1 rest" using fr r(3) rel by (simp add: lives_def)
    moreover have "takes_all (ec_kernel P) \<longrightarrow> rest = []" using w by simp
    moreover have "broken (ec_kernel P) \<longrightarrow> rs = []" using r(5) False by (simp add: broken_lift)
    ultimately show ?thesis using r(1) False ph'(1) by auto
  next
    case True
    then obtain x xs where rest: "rest = x # xs" using r(4) by (cases rest) auto
    then obtain cb where cb: "wr_callback (the (reqs s1 x)) = Some cb"
      using cps by (auto simp: completes_def split: option.splits)
    let ?s = "s1\<lparr>events := events s1 @ [Write_Error cb ''Write failed'']\<rparr>"
    have "stream_ok (conn_env P) ?s rest" using w by simp
    moreover have "length rest \<le> 2" using c(11) w by auto
    moreover have "relays V s rs [] ?s (queued (reqs s1) rest)" using rel by (simp add: relays_def)
    ultimately obtain s' where s': "Connection_delete (ec_fuel P) (echo_env P 1) ?s = Inr s'"
      "gone P V s rs [] s' (queued (reqs s1) rest)"
      using delete_gone [OF host, of ?s rest s rs "[]" "queued (reqs s1) rest" 1] fr c(7-10) dom r(3) by auto
    have "write_loop (ec_fuel P) (conn_env P) (req_head s) s = Inr s'"
      using r(1,3) True rest cb s'(1)
      by (simp add: invoke_opt_def invoke_callback_def conn_env_invoke echo_invoke_def deref_conn_def
        EchoWriteCallback_error_def)
    then show ?thesis using s'(2) r(4) True by auto
  qed
qed

subsection \<open>Readable events\<close>

lemma phase_reads:
  assumes "in_phase ph w rs t" "ph = Idle \<or> ph = Echoing" "t' = (if rs = [] then Some a else t)"
  shows "\<exists>ph'. ph' \<noteq> ph \<and> echo_reads ph ph' \<and> in_phase ph' (ensureWrite w) (rs @ [a]) t'"
proof (cases "ph = Idle")
  case True
  with assms show ?thesis by (intro exI [of _ Echoing]) (simp add: first_in what_defs)
next
  case False
  with assms show ?thesis by (intro exI [of _ Full]) (auto simp: second_in what_defs)
qed

lemma enqueue_echo_env: "enqueue (echo_env P n) a q s = enqueue (conn_env P) a q s"
  by (simp add: enqueue_def sock_watched_def sock_register_def)

text \<open>\<open>available\<close> queues the read buffer, which is empty again after that.\<close>

lemma echo_available:
  assumes "alive s" "conn_alive (snd (os s))" "\<not> list_empty (readBuffer s)"
  shows "env_invoke (conn_env P) (Read_Available cb) s =
    bindE (enqueue (conn_env P) (ec_request P s) \<lparr>wr_buffer = readBuffer s, wr_callback = Some (write_cb (snd (os s))),
      wr_next = None\<rparr> s) (\<lambda>s. Inr (s\<lparr>readBuffer := BufferImpl_init\<rparr>))"
proof -
  have "WriteRequest_buffer (readBuffer s) c = (\<lparr>wr_buffer = readBuffer s, wr_callback = c, wr_next = None\<rparr>, BufferImpl_init)" for c
    using assms(3) by (simp add: WriteRequest_buffer_def Buffer_append_buffer_def BufferImpl_init_def reset_def)
  then show ?thesis
    using assms by (simp add: conn_env_invoke echo_invoke_def EchoReadCallback_available_def deref_conn_def deref_stream_def
      Stream_write_buffer_def enqueue_echo_env bindE_assoc)
qed

lemma lift_errors [simp]:
  "socket_geterror (lift_kernel k) fd x = socket_geterror k fd (fst x)" "isReadRetryable (lift_kernel k) e = isReadRetryable k e"
  by (simp_all add: lift_kernel_def isReadRetryable_def)

text \<open>
  A turn of the read loop that reads the bytes \<open>bs\<close>: the new request goes behind the one that the tail
  points to, the first, and takes the place of any other.
\<close>

lemma chunk_turn:
  assumes host: "echo_host P V" and ok: "stream_ok (conn_env P) s rs" and tail: "rs \<noteq> [] \<longrightarrow> req_tail s = Some (hd rs)"
    and fin: "finite (dom (reqs s))" and s: "readBuffer s = BufferImpl_init" "readCallback s = Some cb" "conn_alive (snd (os s))"
    and kr: "k_read (ec_kernel P) (the_fd s) read_chunk (fst (os s)) = (r, bs, w)" and r: "0 < r"
  shows "\<exists>b s' a. readHelper (Suc fuel) (conn_env P) s =
      (if r < 4096 then Inr (s'\<lparr>readBuffer := BufferImpl_init\<rparr>)
       else readHelper fuel (conn_env P) (s'\<lparr>readBuffer := BufferImpl_init\<rparr>)) \<and>
    enqueued (conn_env P) (s\<lparr>os := (w, snd (os s)), readBuffer := b, events := events s @ [Read_Available cb]\<rparr>)
      (take 1 rs) a bs (Some (write_cb (snd (os s)))) s'"
proof -
  have posix: "posix_read (ec_kernel P) (unread V)" using echo_hostD(2) [OF host] by (simp add: posix_socket_def)
  then have k: "r \<le> int (unat read_chunk)" "length bs = nat r" using kr by (simp_all add: posix_read_def)
  note sz = chunk_size [OF r k(1)]
  have bs: "bs \<noteq> []" "(of_nat (length bs) :: size_t) = of_int r" using r k(2) by (auto simp: of_nat_nat)
  have "can_write (conn_env P) bs"
    using bs k echo_hostD(3,4) [OF host] sz(2) by (simp add: can_write_def chunk_facts)
  from new_buffer [OF this] obtain b where
    b: "Buffer_append (ec_alloc P) bs (of_int r) BufferImpl_init = Inr b" "buf_inv b" "contents b = map Some bs"
    "length (extents b) = 1" by (auto simp: bs(2))
  then have ne: "\<not> list_empty b" by (auto simp: list_empty_def)
  let ?wcb = "Some (write_cb (snd (os s)))"
  let ?q = "\<lparr>wr_buffer = b, wr_callback = ?wcb, wr_next = None\<rparr>"
  have q: "carries ?q bs ?wcb" using b bs(1) by (simp add: carries_def)
  let ?s = "s\<lparr>os := (w, snd (os s)), readBuffer := b, events := events s @ [Read_Available cb]\<rparr>"
  let ?a = "ec_request P ?s"
  have le: "libevent_ok (env_le (conn_env P))" using echo_hostD(1) [OF host] by simp
  have ok': "stream_ok (conn_env P) ?s rs" using ok by (simp add: stream_ok_def)
  have fresh: "reqs ?s ?a = None" using echo_hostD(6) [OF host, of ?s] fin by simp
  have "\<exists>s'. enqueue (conn_env P) ?a ?q ?s = Inr s' \<and> enqueued (conn_env P) ?s (take 1 rs) ?a bs ?wcb s'"
  proof (cases rs)
    case Nil
    then show ?thesis using enqueue_empty [OF le _ q, of ?s ?a] ok' by simp
  next
    case (Cons t post)
    then show ?thesis using enqueue_at_tail [OF le _ q, of ?s "[]" t post ?a] ok' fresh tail by simp
  qed
  then obtain s' where s': "enqueue (conn_env P) ?a ?q ?s = Inr s'" "enqueued (conn_env P) ?s (take 1 rs) ?a bs ?wcb s'" by blast
  have live: "alive s" "may_register (ec_self P) (sbase s) (sock s)" using ok by (simp_all add: stream_ok_def)
  have "xread (env_kernel (conn_env P)) (the_fd s) read_chunk (os s) = (r, bs, w, snd (os s))"
    using kr by (simp add: xread_def lift_kernel_def lift_call2_def)
  moreover have "(nat r < 4096) = (r < 4096)" using r by linarith
  ultimately have "readHelper (Suc fuel) (conn_env P) s =
      (if r < 4096 then Inr (s'\<lparr>readBuffer := BufferImpl_init\<rparr>)
       else readHelper fuel (conn_env P) (s'\<lparr>readBuffer := BufferImpl_init\<rparr>))"
    using sock_fd_ok [OF live] r b(1) ne s s'(1) live(1) sz(3)
    by (simp add: invoke_callback_def echo_available)
  with s'(2) show ?thesis by blast
qed

text \<open>In a phase in which there is one request at most, the connection then lives on in another phase.\<close>

lemma conn_enqueued:
  assumes conn: "conn_in P ph s rs" and ph: "ph = Idle \<or> ph = Echoing"
    and enq: "enqueued (conn_env P) (s\<lparr>os := (w, snd (os s)), readBuffer := b, events := evs\<rparr>) rs a bs (Some wcb) s'"
    and op: "opened V w = opened V (fst (os s))" and w: "\<And>fd. written V fd w = written V fd (fst (os s))"
      "unread V (the_fd s) (fst (os s)) = bs @ unread V (the_fd s) w"
      "\<And>fd. fd \<noteq> the_fd s \<Longrightarrow> unread V fd w = unread V fd (fst (os s))"
  shows "\<exists>ph'. ph' \<noteq> ph \<and> echo_reads ph ph' \<and> lives P V s rs bs ph' (s'\<lparr>readBuffer := BufferImpl_init\<rparr>) (rs @ [a])"
proof -
  note c = conn_inD [OF conn]
  let ?s = "s\<lparr>os := (w, snd (os s)), readBuffer := b, events := evs\<rparr>"
  note e = enqueued_facts [OF enq]
  have st: "reqs ?s = reqs s" "req_tail ?s = req_tail s" "the_fd ?s = the_fd s"
    "the_watched (conn_env P) ?s = the_watched (conn_env P) s" by (simp_all add: the_fd_def the_watched_def)
  obtain ph' where ph': "echo_reads ph ph'" "ph' \<noteq> ph" "in_phase ph' (ensureWrite (the_watched (conn_env P) s)) (rs @ [a]) (req_tail s')"
    using phase_reads [OF c(3) ph, of "req_tail s'" a] e(8) unfolding st(2) by blast
  let ?t = "s'\<lparr>readBuffer := BufferImpl_init\<rparr>"
  have "dom (reqs s') \<subseteq> set (rs @ [a])"
  proof
    fix x assume "x \<in> dom (reqs s')"
    then have "reqs s' x \<noteq> None" by (simp add: domIff)
    then have "x = a \<or> reqs s x \<noteq> None" using e(9) [of x] st(1) by metis
    then show "x \<in> set (rs @ [a])" using c(4) by (auto simp: domIff)
  qed
  moreover have "\<forall>r \<in> set (rs @ [a]). completes (reqs s') r \<noteq> []" using e(3,4) c(5) by simp
  moreover have "readCallback s' = readCallback s" "sock s' = sock s" using e(6) by (simp_all add: frame_def)
  ultimately have "conn_in P ph' ?t (rs @ [a])"
    using e(1,5,10-13) c(2,7-10) ph'(3) by (simp add: conn_in_def st)
  moreover have "relays V s rs bs ?t (queued (reqs s') (rs @ [a]))"
    using e(2,5) w by (simp add: relays_def)
  ultimately have "lives P V s rs bs ph' ?t (rs @ [a])"
    using e(5,13) st op \<open>sock s' = sock s\<close> by (simp add: lives_def)
  with ph'(1,2) show ?thesis by blast
qed

lemma in_phase_tail: "in_phase ph w rs t \<Longrightarrow> ph = Idle \<or> ph = Echoing \<Longrightarrow> take 1 rs = rs \<and> (rs \<noteq> [] \<longrightarrow> t = Some (hd rs))"
  by auto

text \<open>The result of the first \<open>read\<close> of a readable event.\<close>

definition read_result :: "('l, 'w) echo_params \<Rightarrow> ('l, 'w) conn \<Rightarrow> int" where
  "read_result P s = fst (k_read (ec_kernel P) (the_fd s) read_chunk (fst (os s)))"

lemma conn_read:
  assumes host: "echo_host P V" and short: "short_reads (ec_kernel P)" and conn: "conn_in P ph s rs"
    and ph: "ph = Idle \<or> ph = Echoing"
  shows "\<exists>s'. readHelper (Suc fuel) (conn_env P) s = Inr s' \<and>
    ((\<exists>ph' rs' d. echo_reads ph ph' \<and> lives P V s rs d ph' s' rs' \<and>
        read_result P s \<noteq> 0 \<and> (0 < read_result P s \<longrightarrow> ph' \<noteq> ph \<and> int (length d) = read_result P s)) \<or>
     gone P V s rs [] s' (queued (reqs s) rs) \<and> read_result P s \<le> 0)"
proof -
  note c = conn_inD [OF conn]
  note sk = echo_hostD(2) [OF host, unfolded posix_socket_def]
  obtain r bs w where kr: "k_read (ec_kernel P) (the_fd s) read_chunk (fst (os s)) = (r, bs, w)" by (metis prod_cases3)
  have r: "r \<le> int (unat read_chunk)" "length bs = nat r" "unread V (the_fd s) (fst (os s)) = bs @ unread V (the_fd s) w"
    using sk kr by (simp_all add: posix_read_def)
  note w = posix_socketD(8,9) [OF echo_hostD(2) [OF host] kr]
  note op = posix_socketD(7) [OF echo_hostD(2) [OF host] kr]
  have r4: "r < 4096" using short kr unfolding short_reads_def by (metis fst_conv)
  have live: "alive s" "may_register (ec_self P) (sbase s) (sock s)" using c(1) by (simp_all add: stream_ok_def)
  have fd: "sock_fd s = Inr (the_fd s)" by (rule sock_fd_ok [OF live])
  have xr: "xread (env_kernel (conn_env P)) (the_fd s) read_chunk (os s) = (r, bs, w, snd (os s))"
    using kr by (simp add: xread_def lift_kernel_def lift_call2_def)
  obtain cb where cb: "readCallback s = Some cb" using c(7) by blast
  let ?s = "s\<lparr>os := (w, snd (os s))\<rparr>"
  have rr: "read_result P s = r" using kr by (simp add: read_result_def)
  have idle: "relays V s rs [] (?s\<lparr>events := evs\<rparr>) (queued (reqs s) rs)" if "bs = []" for evs
    using that r(3) w by (auto simp: relays_def)
  have del: "\<exists>s'. Connection_delete (ec_fuel P) (echo_env P 1) (?s\<lparr>events := evs\<rparr>) = Inr s' \<and>
      gone P V s rs [] s' (queued (reqs s) rs)"
    if "bs = []" for evs
    using delete_gone [OF host, of "?s\<lparr>events := evs\<rparr>" rs s rs "[]" _ 1, OF _ _ _ _ _ _ _ _ _ idle [OF that]] c op
    by (auto simp: stream_ok_def the_fd_def)
  consider "r < 0" "isReadRetryable (ec_kernel P) (socket_geterror (ec_kernel P) (the_fd s) w)"
    | "r < 0" "\<not> isReadRetryable (ec_kernel P) (socket_geterror (ec_kernel P) (the_fd s) w)" | "r = 0" | "0 < r" by linarith
  then show ?thesis
  proof cases
    case 1
    then have "readHelper (Suc fuel) (conn_env P) s = Inr ?s" using fd xr by simp
    moreover have "lives P V s rs [] ph ?s rs"
      using idle [of "events s"] conn r(2) 1(1) op by (simp add: lives_def conn_in_def)
    ultimately show ?thesis using nothing_in [of ph] 1(1) rr by force
  next
    case 2
    from del [of "events s @ [Read_Error cb ''Read failed'']"] 2(1) r(2) show ?thesis
      using fd xr 2 cb c(9) rr by (auto simp: invoke_callback_def conn_env_invoke echo_invoke_def deref_conn_def
        EchoReadCallback_error_def)
  next
    case 3
    from del [of "events s @ [Read_Eof cb]"] 3 r(2) show ?thesis
      using fd xr 3 cb c(9) rr by (auto simp: invoke_callback_def conn_env_invoke echo_invoke_def deref_conn_def
        EchoReadCallback_eof_def)
  next
    case 4
    note t = in_phase_tail [OF c(3) ph]
    have "finite (dom (reqs s))" using c(4) finite_subset by auto
    from chunk_turn [OF host c(1) conjunct2 [OF t] this c(6) cb c(9) kr 4, of fuel] t obtain b s' a where
      e: "readHelper (Suc fuel) (conn_env P) s = Inr (s'\<lparr>readBuffer := BufferImpl_init\<rparr>)"
      "enqueued (conn_env P) (?s\<lparr>readBuffer := b, events := events s @ [Read_Available cb]\<rparr>) rs a bs (Some (write_cb (snd (os s)))) s'"
      using r4 by auto
    from conn_enqueued [OF conn ph e(2) op w(1) r(3) w(2)] obtain ph' where
      "ph' \<noteq> ph" "echo_reads ph ph'" "lives P V s rs bs ph' (s'\<lparr>readBuffer := BufferImpl_init\<rparr>) (rs @ [a])" by blast
    moreover have "int (length bs) = read_result P s" using r(2) 4 rr by simp
    ultimately show ?thesis using e(1) 4 rr by (metis less_irrefl)
  qed
qed

end
