(* ===== verification/Echo_Properties.thy ===== *)
theory Echo_Properties
  imports Echo_Correct
begin

text \<open>
  The properties of a connection of the echo server (\<open>src/example/echo-server.cc\<close>): what comes back on
  it, whatever the order of readable and writable events and whatever the kernel takes, and the
  situations in which it comes to a standstill, loses input or uses freed memory.
\<close>

subsection \<open>The events of a connection\<close>

text \<open>
  libevent reports events that the handler is registered for, and none once the handler has been
  unregistered.
\<close>

definition deliverable :: "What \<Rightarrow> What \<Rightarrow> bool" where
  "deliverable w event \<longleftrightarrow> (isRead event \<longrightarrow> isRead w) \<and> (isWrite event \<longrightarrow> isWrite w)"

definition conn_deliver :: "('l, 'w) echo_params \<Rightarrow> What \<Rightarrow> ('l, 'w) conn \<Rightarrow> fault + ('l, 'w) conn" where
  "conn_deliver P event s =
     (if alive s \<and> deliverable (the_watched (conn_env P) s) event then conn_ready P event s else Inr s)"

lemma in_phase_directions:
  "in_phase ph w rs t \<Longrightarrow> isRead w \<longleftrightarrow> ph = Idle \<or> ph = Echoing"
  "in_phase ph w rs t \<Longrightarrow> isWrite w \<longleftrightarrow> ph \<noteq> Idle \<and> ph \<noteq> Stalled"
  by (cases ph; simp add: what_defs)+

lemma conn_ready_split:
  assumes "conn_in P ph s rs"
  shows "conn_ready P event s =
    bindE (if isWrite event then write_loop (ec_fuel P) (conn_env P) (req_head s) s else Inr s) (\<lambda>s.
    if isRead event then readHelper (ec_fuel P) (conn_env P) s else Inr s)"
  using conn_inD(1,8) [OF assms]
  by (simp add: conn_ready_def SockHandler_ready_def writeHelper_def deref_stream_def stream_ok_def)

text \<open>The effect of an event on the phase: that of a writable event, then that of a readable one.\<close>

definition phase_event :: "What \<Rightarrow> echo_phase \<Rightarrow> echo_phase \<Rightarrow> bool" where
  "phase_event event p q \<longleftrightarrow> (\<exists>r. (if isWrite event then echo_writes p r else r = p) \<and>
     (if isRead event then echo_reads r q else q = r))"

lemma conn_event:
  assumes host: "echo_host P V" and short: "short_reads (ec_kernel P)" and conn: "conn_in P ph s rs"
    and del: "deliverable (the_watched (conn_env P) s) event" and nf: "event = READ_WRITE \<longrightarrow> never_fails (ec_kernel P)"
  shows "\<exists>s'. conn_ready P event s = Inr s' \<and>
    ((\<exists>ph' rs' d. phase_event event ph ph' \<and> lives P V s rs d ph' s' rs') \<or>
     (\<exists>d left. gone P V s rs d s' left))"
proof -
  obtain f where fuel: "ec_fuel P = Suc f" using echo_hostD(5) [OF host] by (cases "ec_fuel P") auto
  obtain s1 where s1: "(if isWrite event then write_loop (ec_fuel P) (conn_env P) (req_head s) s else Inr s) = Inr s1"
    "(\<exists>ph1 rs1. (if isWrite event then echo_writes ph ph1 else ph1 = ph) \<and> lives P V s rs [] ph1 s1 rs1) \<or>
     (\<exists>left. gone P V s rs [] s1 left) \<and> \<not> never_fails (ec_kernel P) \<and> isWrite event"
    using conn_write [OF host conn] lives_refl [OF conn] by (cases "isWrite event") auto
  have ready: "conn_ready P event s = (if isRead event then readHelper (ec_fuel P) (conn_env P) s1 else Inr s1)"
    using conn_ready_split [OF conn, of event] s1(1) by simp
  show ?thesis
  proof (cases "isRead event")
    case False
    then have "phase_event event ph ph1" if "if isWrite event then echo_writes ph ph1 else ph1 = ph" for ph1
      using that by (simp add: phase_event_def)
    then show ?thesis using s1(2) ready False by fastforce
  next
    case True
    have "\<not> (\<not> never_fails (ec_kernel P) \<and> isWrite event)" using nf True by (cases event) (simp_all add: what_defs)
    then obtain ph1 rs1 where l1: "if isWrite event then echo_writes ph ph1 else ph1 = ph" "lives P V s rs [] ph1 s1 rs1"
      using s1(2) by blast
    have "ph = Idle \<or> ph = Echoing"
      using True del conn_inD(3) [OF conn] in_phase_directions(1) by (auto simp: deliverable_def)
    then have "ph1 = Idle \<or> ph1 = Echoing" using l1(1) by (auto elim: echo_writes_cases split: if_splits)
    moreover have "conn_in P ph1 s1 rs1" using l1(2) by (simp add: lives_def)
    ultimately obtain s' where s': "readHelper (Suc f) (conn_env P) s1 = Inr s'"
      "(\<exists>ph' rs' d. echo_reads ph1 ph' \<and> lives P V s1 rs1 d ph' s' rs') \<or>
       gone P V s1 rs1 [] s' (queued (reqs s1) rs1)"
      using conn_read [OF host short, of ph1 s1 rs1 f] by blast
    from s'(2) show ?thesis
    proof
      assume "\<exists>ph' rs' d. echo_reads ph1 ph' \<and> lives P V s1 rs1 d ph' s' rs'"
      then obtain ph' rs' d where "echo_reads ph1 ph'" "lives P V s1 rs1 d ph' s' rs'" by blast
      then have "phase_event event ph ph'" "lives P V s rs ([] @ d) ph' s' rs'"
        using l1(1) lives_trans [OF l1(2)] True by (auto simp: phase_event_def)
      then show ?thesis using s'(1) ready True fuel by auto
    next
      assume "gone P V s1 rs1 [] s' (queued (reqs s1) rs1)"
      then show ?thesis using lives_gone [OF l1(2)] s'(1) ready True fuel by fastforce
    qed
  qed
qed

text \<open>A connection after any number of events.\<close>

definition conn_inv :: "('l, 'w) echo_params \<Rightarrow> 'w fd_view \<Rightarrow>
    ('l, 'w) conn \<Rightarrow> bool" where
  "conn_inv P V s \<longleftrightarrow> echo_host P V \<and> short_reads (ec_kernel P) \<and>
     (\<not> alive s \<or> (\<exists>ph rs. conn_in P ph s rs))"

definition conn_rel :: "('l, 'w) echo_params \<Rightarrow> 'w fd_view \<Rightarrow>
    ('l, 'w) conn \<Rightarrow> ('l, 'w) conn \<Rightarrow> bool" where
  "conn_rel P V s s' \<longleftrightarrow> (\<not> alive s \<longrightarrow> s' = s) \<and>
     (\<forall>ph rs. conn_in P ph s rs \<longrightarrow> (\<exists>ph' rs' d. lives P V s rs d ph' s' rs') \<or>
        (\<exists>d left. gone P V s rs d s' left))"

lemma conn_in_alive: "conn_in P ph s rs \<Longrightarrow> alive s"
  by (simp add: conn_in_def stream_ok_def)

lemma gone_dead [dest]: "gone P V s rs d s' left \<Longrightarrow> \<not> alive s'"
  by (simp add: gone_def)

lemma conn_rel_trans:
  assumes "conn_rel P V s s1" "conn_rel P V s1 s2"
  shows "conn_rel P V s s2"
  unfolding conn_rel_def
proof (intro conjI allI impI)
  show "s2 = s" if "\<not> alive s" using assms that by (simp add: conn_rel_def)
  fix ph rs assume c: "conn_in P ph s rs"
  with assms(1) consider ph1 rs1 d where "lives P V s rs d ph1 s1 rs1"
    | d left where "gone P V s rs d s1 left" unfolding conn_rel_def by blast
  then show "(\<exists>ph' rs' d. lives P V s rs d ph' s2 rs') \<or> (\<exists>d left. gone P V s rs d s2 left)"
  proof cases
    case 1
    then have "conn_in P ph1 s1 rs1" by (simp add: lives_def)
    with assms(2) show ?thesis unfolding conn_rel_def using lives_trans [OF 1] lives_gone [OF 1] by blast
  next
    case 2
    then have "s2 = s1" using assms(2) by (auto simp: conn_rel_def)
    with 2 show ?thesis by blast
  qed
qed

interpretation echo: event_driven "conn_deliver P" "\<lambda>event. event = READ_WRITE \<longrightarrow> never_fails (ec_kernel P)"
  "conn_inv P V" "conn_rel P V" for P V
proof
  fix s event assume inv: "conn_inv P V s" and nf: "event = READ_WRITE \<longrightarrow> never_fails (ec_kernel P)"
  show "\<exists>s'. conn_deliver P event s = Inr s' \<and> conn_inv P V s' \<and> conn_rel P V s s'"
  proof (cases "alive s \<and> deliverable (the_watched (conn_env P) s) event")
    case True
    then obtain ph rs where c: "conn_in P ph s rs" using inv by (auto simp: conn_inv_def)
    have h: "echo_host P V" "short_reads (ec_kernel P)" using inv by (simp_all add: conn_inv_def)
    from conn_event [OF h c _ nf] True obtain s' where s': "conn_ready P event s = Inr s'"
      "(\<exists>ph' rs' d. lives P V s rs d ph' s' rs') \<or> (\<exists>d left. gone P V s rs d s' left)" by blast
    have "rs2 = rs" if "conn_in P ph2 s rs2" for ph2 rs2
      using that c linked_unique by (auto simp: conn_in_def stream_ok_def)
    then have "conn_rel P V s s'" using s'(2) True unfolding conn_rel_def by blast
    moreover have "conn_inv P V s'"
      using s'(2) h by (auto simp: conn_inv_def lives_def)
    ultimately show ?thesis using s'(1) True by (simp add: conn_deliver_def)
  next
    case False
    have "conn_rel P V s s" using lives_refl by (fastforce simp: conn_rel_def)
    then show ?thesis using False inv by (auto simp: conn_deliver_def)
  qed
next
  show "conn_rel P V s s" if "conn_inv P V s" for s
    using lives_refl by (fastforce simp: conn_rel_def)
qed (rule conn_rel_trans)

subsection \<open>A new connection\<close>

lemma conn_started:
  assumes host: "echo_host P V" and b: "reg_inv (ec_le P) b" "handlers b h = None"
    and th: "inLoopThread (ec_self P) b" and fd: "fd \<noteq> - 1"
  shows "\<exists>s. startRead (conn_env P) (Some rcb) (Connection_new b fd w (h, wcb, rcb)) = Inr s \<and>
    conn_in P Idle s [] \<and> the_fd s = fd \<and> sock s = h \<and> fst (os s) = w"
proof -
  let ?s = "Connection_new b fd w (h, wcb, rcb)"
  have le: "libevent_ok (env_le (conn_env P))" using echo_hostD(1) [OF host] by simp
  have np: "\<not> event_pending (ec_le P) (Ev_Handler h) (lbase b)"
    using b by (auto simp: reg_inv_def handler_registered_def)
  have ok: "stream_ok (conn_env P) ?s []"
    using b th np by (auto simp: stream_ok_def Connection_new_def StreamImpl_init_def reg_inv_def handler_registered_def
      timeout_registered_def may_register_def inLoopThread_def usable_def EventHandler_new_def eh_defs)
  have w: "the_watched (conn_env P) ?s = NONE"
    by (simp add: the_watched_def watching_def Connection_new_def StreamImpl_init_def EventHandler_new_def eh_defs)
  have "readCallback ?s \<noteq> Some rcb" by (simp add: Connection_new_def StreamImpl_init_def)
  from startRead_ok [OF le ok this] obtain b' where
    b': "startRead (conn_env P) (Some rcb) ?s = Inr (?s\<lparr>readCallback := Some rcb, sbase := b'\<rparr>)"
    "stream_ok (conn_env P) (?s\<lparr>readCallback := Some rcb, sbase := b'\<rparr>) []"
    "the_watched (conn_env P) (?s\<lparr>readCallback := Some rcb, sbase := b'\<rparr>) = ensureRead NONE"
    "the_fd (?s\<lparr>readCallback := Some rcb, sbase := b'\<rparr>) = the_fd ?s" unfolding w by blast
  let ?t = "?s\<lparr>readCallback := Some rcb, sbase := b'\<rparr>"
  have "the_fd ?s = fd" by (simp add: the_fd_def Connection_new_def StreamImpl_init_def EventHandler_new_def)
  moreover have "conn_in P Idle ?t []"
    using b'(2,3) b'(4) fd \<open>the_fd ?s = fd\<close>
    by (simp add: conn_in_def orderly_def Connection_new_def StreamImpl_init_def what_defs)
  ultimately show ?thesis using b'(1,4) by (simp add: Connection_new_def StreamImpl_init_def)
qed

lemma conn_in_rel:
  assumes "conn_in P ph s rs" "conn_rel P V s s'"
  shows "\<exists>d left. written V (the_fd s) (fst (os s')) @ left = written V (the_fd s) (fst (os s)) @ queued (reqs s) rs @ map Some d \<and>
    unread V (the_fd s) (fst (os s)) = d @ unread V (the_fd s) (fst (os s')) \<and>
    (if alive s' then \<exists>ph' rs'. conn_in P ph' s' rs' \<and> left = queued (reqs s') rs'
     else reqs s' = Map.empty \<and> handlers (sbase s') (sock s) = None \<and>
       \<not> event_pending (ec_le P) (Ev_Handler (sock s)) (lbase (sbase s')) \<and>
       opened V (fst (os s')) = opened V (fst (os s)) - {the_fd s})"
proof -
  from assms consider ph' rs' d where "lives P V s rs d ph' s' rs'"
    | d left where "gone P V s rs d s' left" unfolding conn_rel_def by blast
  then show ?thesis
  proof cases
    case 1
    then have "conn_in P ph' s' rs'" "alive s'" "relays V s rs d s' (queued (reqs s') rs')"
      using conn_in_alive by (auto simp: lives_def)
    then show ?thesis unfolding relays_def by (intro exI [of _ d] exI [of _ "queued (reqs s') rs'"]) auto
  next
    case 2
    then have "\<not> alive s'" "relays V s rs d s' left" by (simp_all add: gone_def)
    then show ?thesis using 2 by (intro exI [of _ d] exI [of _ left]) (simp add: relays_def gone_def)
  qed
qed

subsection \<open>A model of the peers\<close>

text \<open>
  The system of a process that talks to its peers: what each descriptor has to read and has written,
  and the open descriptors. A \<open>read\<close> takes up to four bytes, and finds the end of the input after the
  last one; a \<open>write\<close> takes everything, or always fails.
\<close>

record peers =
  p_in :: "int \<Rightarrow> byte list"
  p_out :: "int \<Rightarrow> byte array"
  p_fds :: "int list"

definition peer_kernel :: "bool \<Rightarrow> peers kernel" where
  "peer_kernel fail = \<lparr>k_write = (\<lambda>fd buf n w. if fail then (- 1, w)
       else (int (unat n), w\<lparr>p_out := (p_out w)(fd := p_out w fd @ take (unat n) buf)\<rparr>)),
     k_read = (\<lambda>fd n w. let m = min 4 (min (unat n) (length (p_in w fd)))
       in (int m, take m (p_in w fd), w\<lparr>p_in := (p_in w)(fd := drop m (p_in w fd))\<rparr>)),
     k_close = (\<lambda>fd w. (0, w\<lparr>p_fds := removeAll fd (p_fds w)\<rparr>)),
     k_socket = (\<lambda>w. (Max (insert 2 (set (p_fds w))) + 1, w\<lparr>p_fds := (Max (insert 2 (set (p_fds w))) + 1) # p_fds w\<rparr>)),
     make_socket_nonblocking = (\<lambda>fd w. (0, w)), make_listen_socket_reuseable = (\<lambda>fd w. (0, w)), k_inet_pton = (\<lambda>s. 1),
     k_connect = (\<lambda>fd s p w. (- 1, w)), k_bind = (\<lambda>fd s p w. (0, w)), k_getsockname = (\<lambda>fd w. (0, 4000, w)),
     k_listen = (\<lambda>fd n w. (0, w)),
     k_accept = (\<lambda>fd w. (Max (insert 2 (set (p_fds w))) + 1, w\<lparr>p_fds := (Max (insert 2 (set (p_fds w))) + 1) # p_fds w\<rparr>)),
     socket_geterror = (\<lambda>fd w. 32), getsockopt_error = (\<lambda>fd w. (- 1, 0, w)),
     EINPROGRESS = 115, EAGAIN = 11, EWOULDBLOCK = 11\<rparr>"

definition echo_model :: "bool \<Rightarrow> (event \<Rightarrow> 16 word \<times> bool, peers) echo_params" where
  "echo_model fail = \<lparr>ec_le = libevent_model, ec_kernel = peer_kernel fail, ec_alloc = malloc_model, ec_self = 5, ec_fuel = 2,
     ec_request = (\<lambda>s. LEAST r. reqs s r = None),
     ec_addr = (\<lambda>srv. (LEAST h. handlers (l_base srv) h = None, 0, 1))\<rparr>"

text \<open>A system with a listening descriptor and a connection that has \<open>inp\<close> to read.\<close>

definition peer_with :: "byte list \<Rightarrow> peers" where
  "peer_with inp = \<lparr>p_in = (\<lambda>fd. if fd = 4 then inp else []), p_out = (\<lambda>fd. []), p_fds = [3]\<rparr>"

definition peer_view :: "peers fd_view" where
  "peer_view = \<lparr>written = (\<lambda>fd w. p_out w fd), unread = (\<lambda>fd w. p_in w fd), opened = (\<lambda>w. set (p_fds w))\<rparr>"

lemma peer_view_simps [simp]:
  "written peer_view fd w = p_out w fd" "unread peer_view = (\<lambda>fd w. p_in w fd)" "opened peer_view w = set (p_fds w)"
  by (simp_all add: peer_view_def)

lemma fresh_least:
  fixes m :: "nat \<rightharpoonup> 'b"
  assumes "finite (dom m)"
  shows "m (LEAST r. m r = None) = None"
proof -
  obtain r :: nat where "r \<notin> dom m" using ex_new_if_finite [OF infinite_UNIV_nat assms] by blast
  then have "m r = None" by (simp add: domIff)
  then show ?thesis by (rule LeastI)
qed

lemma peer_read:
  "k_read (peer_kernel c) fd n w = (r, bs, w') \<longleftrightarrow> (let m = min 4 (min (unat n) (length (p_in w fd))) in
     r = int m \<and> bs = take m (p_in w fd) \<and> w' = w\<lparr>p_in := (p_in w)(fd := drop m (p_in w fd))\<rparr>)"
  by (auto simp: peer_kernel_def Let_def)

lemma peer_kernel_ok:
  "posix_socket (peer_kernel c) peer_view" "short_reads (peer_kernel c)"
  "feeds (peer_kernel c) (\<lambda>fd w. p_in w fd)" "takes_all (peer_kernel False)" "never_fails (peer_kernel False)"
  "broken (peer_kernel True)"
proof -
  have w: "posix_write (peer_kernel c) (\<lambda>fd w. p_out w fd)"
    unfolding posix_write_def
  proof (intro allI impI)
    fix fd buf n and w w' :: peers and r
    assume k: "k_write (peer_kernel c) fd buf n w = (r, w')"
    have "(- 1 :: int) \<le> uint n" by (rule order_trans [OF _ uint_ge_0]) simp
    with k show "r \<le> int (unat n) \<and> p_out w' fd = p_out w fd @ take (nat r) buf"
      by (cases c) (auto simp: peer_kernel_def)
  qed
  have r: "posix_read (peer_kernel c) (\<lambda>fd w. p_in w fd)"
    unfolding posix_read_def
  proof (intro allI impI)
    fix fd n and w w' :: peers and r bs
    assume "k_read (peer_kernel c) fd n w = (r, bs, w')"
    moreover have "int (min 4 (min (unat n) (length (p_in w fd)))) \<le> int (unat n)" by (intro of_nat_mono) auto
    ultimately show "r \<le> int (unat n) \<and> length bs = nat r \<and> p_in w fd = bs @ p_in w' fd"
      by (auto simp: peer_read Let_def)
  qed
  show "short_reads (peer_kernel c)" by (simp add: short_reads_def peer_kernel_def Let_def min_less_iff_disj)
  show "feeds (peer_kernel c) (\<lambda>fd w. p_in w fd)"
    by (auto simp: feeds_def peer_kernel_def Let_def word_less_nat_alt)
  show "takes_all (peer_kernel False)" by (simp add: takes_all_def peer_kernel_def)
  then show "never_fails (peer_kernel False)" by (rule takes_all_never_fails)
  show "broken (peer_kernel True)" by (simp add: broken_def peer_kernel_def)
  have 1: "Max (insert 2 F) + 1 \<notin> F" "Max (insert 2 F) + 1 \<ge> 0" if "finite F" for F :: "int set"
  proof -
    have "x \<in> F \<Longrightarrow> x \<le> Max (insert 2 F)" for x using that by (intro Max_ge) auto
    then show "Max (insert 2 F) + 1 \<notin> F" by force
    have "2 \<le> Max (insert 2 F)" using that by (intro Max_ge) auto
    then show "Max (insert 2 F) + 1 \<ge> 0" by simp
  qed
  have f: "posix_fds (peer_kernel c) (\<lambda>w. set (p_fds w))"
    using 1 [of "set (p_fds w)" for w] by (auto simp: posix_fds_def peer_kernel_def)
  show "posix_socket (peer_kernel c) peer_view"
    using w r f by (simp add: posix_socket_def peer_view_def) (simp add: peer_kernel_def Let_def)
qed

lemma echo_model_ok [simp]:
  "echo_host (echo_model c) peer_view" "ec_kernel (echo_model c) = peer_kernel c"
  "ec_le (echo_model c) = libevent_model" "ec_self (echo_model c) = 5"
proof -
  have "malloc_model n" if "n \<le> read_chunk" for n
    using that by (simp add: malloc_model_def word_le_nat_alt word_less_nat_alt chunk_facts)
  then show "echo_host (echo_model c) peer_view"
    using peer_kernel_ok(1) by (simp add: echo_host_def echo_model_def libevent_model_ok malloc_model_bounded fresh_least)
qed (simp_all add: echo_model_def)

text \<open>The base of the model has no handler at the address 1.\<close>

lemma echo_base_ok:
  "reg_inv libevent_model base_model" "handlers base_model 1 = None" "inLoopThread 5 base_model"
  by (auto simp: reg_inv_def base_model_def libevent_model_def inLoopThread_def)

subsection \<open>Properties\<close>

text \<open>C20: What a connection sends back is what it has received. For a new connection on any descriptor
  and any sequence of readable, writable and combined events, in which the kernel takes any number
  of bytes at each write and reads end short of 4096 bytes, nothing faults, and the bytes written
  are in order those read so far, but for those still queued; once the peer closes or an error
  ends the connection, it leaves no request, no handler and no registration behind and its descriptor
  is closed. (Where reading and writing are reported together, writes must not fail.)\<close>

theorem echo_relays:
  assumes "echo_host P V" and "short_reads (ec_kernel P)" and "reg_inv (ec_le P) b"
    and "handlers b h = None" and "inLoopThread (ec_self P) b" and "fd \<noteq> - 1"
    and "READ_WRITE \<in> set evs \<longrightarrow> never_fails (ec_kernel P)"
  shows "\<exists>s s' d left. startRead (conn_env P) (Some rcb) (Connection_new b fd w (h, wcb, rcb)) = Inr s \<and>
    run_events (conn_deliver P) evs s = Inr s' \<and>
    written V fd (fst (os s')) @ left = written V fd w @ map Some d \<and> unread V fd w = d @ unread V fd (fst (os s')) \<and>
    (if alive s' then \<exists>ph rs. conn_in P ph s' rs \<and> left = queued (reqs s') rs
     else reqs s' = Map.empty \<and> handlers (sbase s') h = None \<and>
       \<not> event_pending (ec_le P) (Ev_Handler h) (lbase (sbase s')) \<and>
       opened V (fst (os s')) = opened V w - {fd})"
proof -
  from conn_started [OF assms(1,3-6)] obtain s where
    s: "startRead (conn_env P) (Some rcb) (Connection_new b fd w (h, wcb, rcb)) = Inr s" "conn_in P Idle s []"
    "the_fd s = fd" "sock s = h" "fst (os s) = w" by blast
  have "conn_inv P V s" using assms(1,2) s(2) by (auto simp: conn_inv_def)
  then obtain s' where s': "run_events (conn_deliver P) evs s = Inr s'" "conn_rel P V s s'"
    using echo.run [of P V s evs] assms(7) by auto
  from conn_in_rel [OF s(2) s'(2), unfolded s(3-5) queued_simps(1) append_Nil] s(1) s'(1) show ?thesis by blast
qed

theorem echo_relays_witness:
  "\<exists>s s' d left. startRead (conn_env (echo_model True)) (Some 3) (Connection_new base_model 4 (peer_with ''hello'') (1, 2, 3)) = Inr s \<and>
    run_events (conn_deliver (echo_model True)) [READ, READ, WRITE, READ] s = Inr s' \<and>
    p_out (fst (os s')) 4 @ left = map Some d \<and> ''hello'' = d @ p_in (fst (os s')) 4 \<and>
    (\<not> alive s' \<longrightarrow> reqs s' = Map.empty \<and> handlers (sbase s') 1 = None)"
  using echo_relays [of "echo_model True" peer_view base_model 1 4 "[READ, READ, WRITE, READ]" 3
    "peer_with ''hello''" 2] peer_kernel_ok(2) echo_base_ok
  by (auto simp: peer_with_def simp del: run_events.simps split: if_splits)


subsection \<open>Request and answer\<close>

lemma dead_stays: "\<not> alive s \<Longrightarrow> run_events (conn_deliver P) evs s = Inr s"
  by (induction evs) (simp_all add: conn_deliver_def)

text \<open>One readable event and one writable one on a connection that waits, when the peer feeds the
  connection and the kernel takes what it is offered.\<close>

lemma echo_round:
  assumes host: "echo_host P V" and short: "short_reads (ec_kernel P)" and feeds: "feeds (ec_kernel P) (unread V)"
    and all: "takes_all (ec_kernel P)" and conn: "conn_in P Idle s []"
  shows "\<exists>s' d. run_events (conn_deliver P) [READ, WRITE] s = Inr s' \<and>
    (if unread V (the_fd s) (fst (os s)) = [] then gone P V s [] [] s' []
     else d \<noteq> [] \<and> lives P V s [] d Idle s' [])"
proof -
  obtain f where fuel: "ec_fuel P = Suc f" using echo_hostD(5) [OF host] by (cases "ec_fuel P") auto
  have rr: "if unread V (the_fd s) (fst (os s)) = [] then read_result P s = 0 else 0 < read_result P s"
    using feeds by (auto simp: feeds_def read_result_def read_chunk_def)
  have w: "the_watched (conn_env P) s = READ" using conn_inD(3) [OF conn] by simp
  have "conn_deliver P READ s = readHelper (ec_fuel P) (conn_env P) s"
    using w conn_in_alive [OF conn] by (simp add: conn_deliver_def deliverable_def conn_ready_split [OF conn] what_defs)
  then obtain s1 where s1: "conn_deliver P READ s = Inr s1"
    "(\<exists>ph' rs' d. echo_reads Idle ph' \<and> lives P V s [] d ph' s1 rs' \<and>
        read_result P s \<noteq> 0 \<and> (0 < read_result P s \<longrightarrow> ph' \<noteq> Idle \<and> int (length d) = read_result P s)) \<or>
      gone P V s [] [] s1 [] \<and> read_result P s \<le> 0"
    using conn_read [OF host short conn, of f] fuel by auto
  show ?thesis
  proof (cases "unread V (the_fd s) (fst (os s)) = []")
    case True
    then have g: "gone P V s [] [] s1 []" using s1(2) rr by auto
    then have "conn_deliver P WRITE s1 = Inr s1" using gone_dead [OF g] by (simp add: conn_deliver_def)
    then show ?thesis using g True s1(1) by (intro exI [of _ s1]) simp
  next
    case False
    then obtain ph rs1 d where l0: "echo_reads Idle ph" "ph \<noteq> Idle" "lives P V s [] d ph s1 rs1"
      "int (length d) = read_result P s" using s1(2) rr by auto
    then have "ph = Echoing" "d \<noteq> []" using rr False by (auto elim!: echo_reads_cases)
    with l0 have l: "lives P V s [] d Echoing s1 rs1" "d \<noteq> []" by simp_all
    then have c1: "conn_in P Echoing s1 rs1" by (simp add: lives_def)
    have "the_watched (conn_env P) s1 = READ_WRITE" using conn_inD(3) [OF c1] by simp
    then have "conn_deliver P WRITE s1 = bindE (write_loop (ec_fuel P) (conn_env P) (req_head s1) s1) Inr"
      using conn_in_alive [OF c1] by (simp add: conn_deliver_def deliverable_def conn_ready_split [OF c1] what_defs)
    then obtain s2 ph where s2: "conn_deliver P WRITE s1 = Inr s2" "echo_writes Echoing ph" "lives P V s1 rs1 [] ph s2 []"
      using conn_write [OF host c1] takes_all_never_fails [OF all] all by auto
    have "ph = Idle"
      using s2(2,3) by (auto elim!: echo_writes_cases simp: lives_def conn_in_def)
    then have "lives P V s [] d Idle s2 []" using lives_trans [OF l(1) s2(3)] by simp
    then show ?thesis using False s1(1) s2(1) l(2) by (intro exI [of _ s2] exI [of _ d]) simp
  qed
qed

lemma echo_rounds:
  assumes host: "echo_host P V" and short: "short_reads (ec_kernel P)" and feeds: "feeds (ec_kernel P) (unread V)"
    and all: "takes_all (ec_kernel P)"
  shows "conn_in P Idle s [] \<Longrightarrow> length (unread V (the_fd s) (fst (os s))) < n \<Longrightarrow>
    \<exists>s'. run_events (conn_deliver P) (concat (replicate n [READ, WRITE])) s = Inr s' \<and>
      gone P V s [] (unread V (the_fd s) (fst (os s))) s' []"
proof (induction n arbitrary: s)
  case (Suc n)
  from echo_round [OF host short feeds all Suc.prems(1)] obtain s1 d where
    s1: "run_events (conn_deliver P) [READ, WRITE] s = Inr s1"
    "if unread V (the_fd s) (fst (os s)) = [] then gone P V s [] [] s1 []
     else d \<noteq> [] \<and> lives P V s [] d Idle s1 []" by blast
  have "concat (replicate (Suc n) [READ, WRITE]) = [READ, WRITE] @ concat (replicate n [READ, WRITE])" by simp
  then have split: "run_events (conn_deliver P) (concat (replicate (Suc n) [READ, WRITE])) s =
      run_events (conn_deliver P) (concat (replicate n [READ, WRITE])) s1"
    by (simp only: run_events_append s1(1) bindE_Inr)
  show ?case
  proof (cases "unread V (the_fd s) (fst (os s)) = []")
    case True
    then have g: "gone P V s [] [] s1 []" using s1(2) by simp
    then show ?thesis using dead_stays [OF gone_dead [OF g]] split True by simp
  next
    case False
    then have l: "lives P V s [] d Idle s1 []" "d \<noteq> []" using s1(2) by auto
    then have u: "unread V (the_fd s) (fst (os s)) = d @ unread V (the_fd s1) (fst (os s1))" "conn_in P Idle s1 []"
      by (simp_all add: lives_def relays_def)
    have "length (unread V (the_fd s1) (fst (os s1))) < n" using u(1) l(2) Suc.prems(2) by (cases d) auto
    from Suc.IH [OF u(2) this] obtain s' where
      "run_events (conn_deliver P) (concat (replicate n [READ, WRITE])) s1 = Inr s'"
      "gone P V s1 [] (unread V (the_fd s1) (fst (os s1))) s' []" by blast
    then show ?thesis using lives_gone [OF l(1)] u(1) split by metis
  qed
qed simp

text \<open>C19: Everything is echoed, if it is read in short chunks. When the peer sends any input
  and closes its side, each \<open>read\<close> returns less than 4096 bytes
  (\<open>echo_burst\<close> is about longer ones), the kernel takes what it is offered, and each
  readable event is followed by a writable one, then after as many rounds as there are bytes, and
  one more, all the input has been read, exactly its bytes have been written, in order, and the
  connection has been closed and deleted.\<close>

theorem echo_answers:
  assumes "echo_host P V" and "short_reads (ec_kernel P)" and "feeds (ec_kernel P) (unread V)"
    and "takes_all (ec_kernel P)" and "reg_inv (ec_le P) b" and "handlers b h = None"
    and "inLoopThread (ec_self P) b" and "fd \<noteq> - 1" and "length (unread V fd w) < n"
  shows "\<exists>s s'. startRead (conn_env P) (Some rcb) (Connection_new b fd w (h, wcb, rcb)) = Inr s \<and>
    run_events (conn_deliver P) (concat (replicate n [READ, WRITE])) s = Inr s' \<and>
    written V fd (fst (os s')) = written V fd w @ map Some (unread V fd w) \<and> unread V fd (fst (os s')) = [] \<and>
    \<not> alive s' \<and> reqs s' = Map.empty \<and> opened V (fst (os s')) = opened V w - {fd}"
proof -
  from conn_started [OF assms(1,5-8)] obtain s where
    s: "startRead (conn_env P) (Some rcb) (Connection_new b fd w (h, wcb, rcb)) = Inr s" "conn_in P Idle s []"
    "the_fd s = fd" "sock s = h" "fst (os s) = w" by blast
  from echo_rounds [OF assms(1-4) s(2), of n] assms(9) s(3,5) obtain s' where
    "run_events (conn_deliver P) (concat (replicate n [READ, WRITE])) s = Inr s'"
    "gone P V s [] (unread V fd w) s' []" by auto
  with s show ?thesis by (auto simp: gone_def relays_def)
qed

theorem echo_answers_witness:
  "\<exists>s s'. startRead (conn_env (echo_model False)) (Some 3) (Connection_new base_model 4 (peer_with ''hello'') (1, 2, 3)) = Inr s \<and>
    run_events (conn_deliver (echo_model False)) (concat (replicate 6 [READ, WRITE])) s = Inr s' \<and>
    p_out (fst (os s')) 4 = map Some ''hello'' \<and> \<not> alive s'"
  using echo_answers [of "echo_model False" peer_view base_model 1 4 "peer_with ''hello''" 6 3 2]
    peer_kernel_ok(2-4) echo_base_ok
  by (auto simp: peer_with_def simp del: run_events.simps)


subsection \<open>Standstill, loss and use of freed memory\<close>

text \<open>A connection that is not registered for reading.\<close>

definition deaf_inv :: "('l, 'w) echo_params \<Rightarrow> 'w fd_view \<Rightarrow>
    ('l, 'w) conn \<Rightarrow> bool" where
  "deaf_inv P V s \<longleftrightarrow> echo_host P V \<and>
     (alive s \<longrightarrow> (\<exists>ph rs. conn_in P ph s rs \<and> ph \<noteq> Idle \<and> ph \<noteq> Echoing))"

definition nothing_read :: "'w fd_view \<Rightarrow> ('l, 'w) conn \<Rightarrow> ('l, 'w) conn \<Rightarrow> bool" where
  "nothing_read V s s' \<longleftrightarrow> (\<forall>fd. unread V fd (fst (os s')) = unread V fd (fst (os s)))"

lemma relays_nothing: "relays V s rs [] s' left \<Longrightarrow> nothing_read V s s'"
  unfolding relays_def nothing_read_def by (metis append_Nil)

interpretation deaf: event_driven "conn_deliver P" "\<lambda>_. True" "deaf_inv P V" "nothing_read V"
  for P V
proof
  fix s event assume inv: "deaf_inv P V s"
  show "\<exists>s'. conn_deliver P event s = Inr s' \<and> deaf_inv P V s' \<and> nothing_read V s s'"
  proof (cases "alive s \<and> deliverable (the_watched (conn_env P) s) event")
    case True
    then obtain ph rs where c: "conn_in P ph s rs" "ph \<noteq> Idle" "ph \<noteq> Echoing" using inv by (auto simp: deaf_inv_def)
    have h: "echo_host P V" using inv by (simp add: deaf_inv_def)
    have r: "\<not> isRead event"
      using True c in_phase_directions(1) [OF conn_inD(3) [OF c(1)]] by (auto simp: deliverable_def)
    show ?thesis
    proof (cases "isWrite event")
      case w: True
      have "conn_deliver P event s = bindE (write_loop (ec_fuel P) (conn_env P) (req_head s) s) Inr"
        using True r w by (simp add: conn_deliver_def conn_ready_split [OF c(1)])
      with conn_write [OF h c(1)] obtain s' where s': "conn_deliver P event s = Inr s'"
        "(\<exists>ph' rs'. echo_writes ph ph' \<and> lives P V s rs [] ph' s' rs') \<or> (\<exists>left. gone P V s rs [] s' left)"
        by (metis bindE_Inr)
      then have "deaf_inv P V s'" using h c(2,3)
        by (fastforce simp: deaf_inv_def lives_def elim: echo_writes_cases)
      moreover have "nothing_read V s s'" using s'(2) relays_nothing by (auto simp: lives_def gone_def)
      ultimately show ?thesis using s'(1) by blast
    next
      case False
      then show ?thesis using True r inv by (simp add: conn_deliver_def conn_ready_split [OF c(1)] nothing_read_def)
    qed
  next
    case False
    then show ?thesis using inv by (auto simp: conn_deliver_def nothing_read_def)
  qed
qed (simp_all add: nothing_read_def)

text \<open>A connection of the model that has echoed none of the first four bytes it has read.\<close>

lemma echoing_model:
  assumes "length inp \<ge> 4"
  shows "\<exists>s rs. conn_in (echo_model c) Echoing s rs \<and> the_fd s = 4 \<and> p_in (fst (os s)) 4 = drop 4 inp"
proof -
  let ?P = "echo_model c"
  obtain s where s: "conn_in ?P Idle s []" "the_fd s = 4" "fst (os s) = peer_with inp"
    using conn_started [of ?P peer_view base_model 1 4 3 "peer_with inp" 2] echo_base_ok by auto
  have r: "read_result ?P s = 4"
    using assms by (simp add: read_result_def s(2,3) peer_kernel_def peer_with_def Let_def chunk_facts)
  from conn_read [OF echo_model_ok(1) _ s(1), of 0] peer_kernel_ok(2) r obtain s1 rs1 d ph where
    l: "echo_reads Idle ph" "ph \<noteq> Idle" "lives ?P peer_view s [] d ph s1 rs1" "length d = 4" by auto
  then have "conn_in ?P Echoing s1 rs1" "the_fd s1 = 4" "inp = d @ p_in (fst (os s1)) 4"
    using s(2,3) by (auto elim!: echo_reads_cases simp: lives_def relays_def peer_with_def)
  then show ?thesis using l(4) by (intro exI [of _ s1] exI [of _ rs1]) simp
qed


text \<open>Two chunks of input ahead of the output bring a connection to a standstill. If input
  arrives while the request for earlier input is still queued, and \<open>read\<close> returns less than 4096
  bytes of it, so that the readable event ends with it, the second call of \<open>write\<close> takes the
  connection off the readable set; whatever events follow, nothing is read any more, not
  even the end of the input.\<close>

theorem echo_stalls:
  assumes "echo_host P V" and "short_reads (ec_kernel P)" and "conn_in P Echoing s rs"
    and "0 < read_result P s"
  shows "\<exists>s1 s'. conn_ready P READ s = Inr s1 \<and> run_events (conn_deliver P) evs s1 = Inr s' \<and>
    unread V (the_fd s) (fst (os s')) = unread V (the_fd s) (fst (os s1)) \<and>
    (alive s' \<longrightarrow> \<not> isRead (the_watched (conn_env P) s'))"
proof -
  obtain f where fuel: "ec_fuel P = Suc f" using echo_hostD(5) [OF assms(1)] by (cases "ec_fuel P") auto
  have "conn_ready P READ s = readHelper (ec_fuel P) (conn_env P) s"
    by (simp add: conn_ready_split [OF assms(3)] what_defs)
  then obtain s1 ph' rs' d where s1: "conn_ready P READ s = Inr s1" "echo_reads Echoing ph'" "ph' \<noteq> Echoing"
    "lives P V s rs d ph' s1 rs'"
    using conn_read [OF assms(1-3), of f] fuel assms(4) by auto
  then have "deaf_inv P V s1"
    using assms(1) by (auto simp: deaf_inv_def lives_def elim!: echo_reads_cases)
  then obtain s' where s': "run_events (conn_deliver P) evs s1 = Inr s'" "deaf_inv P V s'"
    "nothing_read V s1 s'" using deaf.run [of P V s1 evs] by auto
  then have "alive s' \<longrightarrow> \<not> isRead (the_watched (conn_env P) s')"
    using in_phase_directions(1) conn_inD(3) by (fastforce simp: deaf_inv_def)
  with s1(1) s'(1,3) show ?thesis by (auto simp: nothing_read_def)
qed

theorem echo_stalls_witness:
  "\<exists>s s1 s'. p_in (fst (os s)) 4 = ''efghij'' \<and> conn_ready (echo_model False) READ s = Inr s1 \<and>
    run_events (conn_deliver (echo_model False)) [WRITE, READ, READ, WRITE] s1 = Inr s' \<and>
    p_in (fst (os s')) 4 = p_in (fst (os s1)) 4"
proof -
  obtain s rs where s: "conn_in (echo_model False) Echoing s rs" "the_fd s = 4" "p_in (fst (os s)) 4 = ''efghij''"
    using echoing_model [of "''abcdefghij''" False] by auto
  have "0 < read_result (echo_model False) s"
    by (simp add: read_result_def s(2,3) peer_kernel_def Let_def chunk_facts)
  from echo_stalls [OF echo_model_ok(1) _ s(1) this, of "[WRITE, READ, READ, WRITE]"] s(2,3) show ?thesis
    using peer_kernel_ok(2) by (auto simp del: run_events.simps)
qed


text \<open>C39: A failing write next to input uses freed memory. When a connection with a queued request is
  reported readable and writable at once and the write fails, the error callback deletes the
  connection, and with it the stream that then goes on to read from its socket.\<close>

theorem echo_write_error_uses_freed:
  assumes "echo_host P V" and "broken (ec_kernel P)" and "conn_in P Echoing s rs"
  shows "conn_ready P READ_WRITE s = Inl Use_After_Free"
proof -
  obtain f where fuel: "ec_fuel P = Suc f" using echo_hostD(5) [OF assms(1)] by (cases "ec_fuel P") auto
  have "rs \<noteq> []" using conn_inD(3) [OF assms(3)] by auto
  with conn_write [OF assms(1,3)] assms(2) obtain s' left where
    s': "write_loop (ec_fuel P) (conn_env P) (req_head s) s = Inr s'" "gone P V s rs [] s' left" by auto
  then show ?thesis
    using fuel gone_dead [OF s'(2)] by (simp add: conn_ready_split [OF assms(3)] what_defs sock_fd_def deref_stream_def)
qed

theorem echo_write_error_uses_freed_witness:
  "\<exists>s rs. conn_in (echo_model True) Echoing s rs \<and> conn_ready (echo_model True) READ_WRITE s = Inl Use_After_Free"
proof -
  obtain s rs where s: "conn_in (echo_model True) Echoing s rs" using echoing_model [of "''abcdefghij''" True] by auto
  from echo_write_error_uses_freed [OF echo_model_ok(1) _ s] s show ?thesis using peer_kernel_ok(6) by auto
qed


text \<open>The end of the input discards the answer. When the peer closes its sending side while a
  request is still queued, the connection is deleted with the bytes in it, and they are never
  written.\<close>

theorem echo_half_close_loses:
  assumes "echo_host P V" and "short_reads (ec_kernel P)" and "conn_in P Echoing s rs"
    and "read_result P s = 0"
  shows "\<exists>s'. conn_ready P READ s = Inr s' \<and> \<not> alive s' \<and> reqs s' = Map.empty \<and> queued (reqs s) rs \<noteq> [] \<and>
    written V (the_fd s) (fst (os s')) = written V (the_fd s) (fst (os s))"
proof -
  obtain f where fuel: "ec_fuel P = Suc f" using echo_hostD(5) [OF assms(1)] by (cases "ec_fuel P") auto
  have "conn_ready P READ s = readHelper (ec_fuel P) (conn_env P) s"
    by (simp add: conn_ready_split [OF assms(3)] what_defs)
  then obtain s' where s': "conn_ready P READ s = Inr s'" "gone P V s rs [] s' (queued (reqs s) rs)"
    using conn_read [OF assms(1-3), of f] fuel assms(4) by auto
  moreover obtain a where "rs = [a]" "req_good (reqs s) a"
    using conn_inD(1,3) [OF assms(3)] by (auto simp: stream_ok_def)
  ultimately show ?thesis by (auto simp: gone_def relays_def req_good_def)
qed

theorem echo_half_close_loses_witness:
  "\<exists>s s' rs. conn_in (echo_model False) Echoing s rs \<and> conn_ready (echo_model False) READ s = Inr s' \<and> \<not> alive s' \<and>
    queued (reqs s) rs \<noteq> [] \<and> p_out (fst (os s')) 4 = p_out (fst (os s)) 4"
proof -
  obtain s rs where s: "conn_in (echo_model False) Echoing s rs" "the_fd s = 4" "p_in (fst (os s)) 4 = []"
    using echoing_model [of "''abcd''" False] by auto
  have "read_result (echo_model False) s = 0" by (simp add: read_result_def s(2,3) peer_kernel_def Let_def)
  from echo_half_close_loses [OF echo_model_ok(1) _ s(1) this] s(1,2) show ?thesis using peer_kernel_ok(2) by auto
qed


end
