(* ===== verification/Stream_Frame.thy ===== *)
theory Stream_Frame
  imports Stream_Correct
begin

text \<open>
  What the operations of a stream (\<open>Stream_Model\<close>) do to the rest of the base: several streams and
  other handlers share one base, and an operation of one stream, however it ends and whatever its
  callbacks do through the same stream, changes nothing of the base but the handler of its socket.
\<close>

subsection \<open>A change to one handler\<close>

definition base_frame :: "'l libevent \<Rightarrow> hid \<Rightarrow> 'l EventBase \<Rightarrow> 'l EventBase \<Rightarrow> bool" where
  "base_frame le h b b' \<longleftrightarrow> (reg_inv le b \<longrightarrow> reg_inv le b' \<and> only_handler le h b b' \<and>
     this_base b' = this_base b \<and> loopThread b' = loopThread b)"

lemma base_frame_refl [simp]: "base_frame le h b b"
  by (simp add: base_frame_def)

lemma base_frame_trans: "base_frame le h b b1 \<Longrightarrow> base_frame le h b1 b2 \<Longrightarrow> base_frame le h b b2"
  using touches_only_trans by (fastforce simp: base_frame_def only_handler_def)

text \<open>What another handler sees of such a change: nothing.\<close>

lemma base_frame_other:
  assumes "base_frame le h b b'" "reg_inv le b" "h' \<noteq> h"
  shows "handlers b' h' = handlers b h'" "watching le b' h' = watching le b h'"
    "may_register self b' h' = may_register self b h'" "reg_inv le b'"
    "event_pending le (Ev_Handler h') (lbase b') = event_pending le (Ev_Handler h') (lbase b)"
  using assms by (simp_all add: base_frame_def only_handler_def touches_only_def watching_def may_register_def
    inLoopThread_def usable_def eh_defs split: option.split)

lemma same_base_fields: "same_base b b' \<Longrightarrow> this_base b' = this_base b \<and> loopThread b' = loopThread b"
  by (simp add: same_base_def)

lemma registerHandler_frame:
  assumes le: "libevent_ok le" and r: "registerHandler le self h w b = Inr b'"
  shows "base_frame le h b b'"
  unfolding base_frame_def
proof
  assume inv: "reg_inv le b"
  have th: "inLoopThread self b" using r by (auto simp: registerHandler_def assertE_def split: if_splits)
  with r obtain eh where "handlers b h = Some eh" "EventHandler_base eh = None \<or> EventHandler_base eh = Some (this_base b)"
    by (auto simp: registerHandler_def registerHandlerInternal_def lookup_handler_def assertE_def bindE_eq_Inr
      split: option.splits if_splits)
  then have "usable b h" by (simp add: usable_def)
  from register_ok [OF le inv th this, of w] r show "reg_inv le b' \<and> only_handler le h b b' \<and>
      this_base b' = this_base b \<and> loopThread b' = loopThread b"
    by (auto simp: same_base_def)
qed

text \<open>After that the handler is not registered, as far as libevent goes.\<close>

lemma EventHandler_unregister_frame:
  assumes le: "libevent_ok le" and r: "EventHandler_unregister le self h b = Inr b'"
  shows "base_frame le h b b'" "reg_inv le b \<Longrightarrow> \<not> event_pending le (Ev_Handler h) (lbase b')"
proof -
  obtain eh where eh: "handlers b h = Some eh"
    using r by (auto simp: EventHandler_unregister_def lookup_handler_def split: option.splits)
  have "reg_inv le b' \<and> only_handler le h b b' \<and> this_base b' = this_base b \<and> loopThread b' = loopThread b \<and>
      \<not> event_pending le (Ev_Handler h) (lbase b')" if inv: "reg_inv le b"
  proof (cases "EventHandler_base eh")
    case None
    then have "b' = b" using r eh by (simp add: EventHandler_unregister_def lookup_handler_def)
    moreover have "\<not> EventHandler_registered eh" using None by (auto simp: eh_defs split: option.splits)
    then have "\<not> handler_registered b h" using eh by (simp add: handler_registered_def)
    then have "\<not> event_pending le (Ev_Handler h) (lbase b)" using inv by (auto simp: reg_inv_def)
    ultimately show ?thesis using inv by simp
  next
    case (Some x)
    then have u: "unregisterHandler le self h b = Inr b'" using r eh by (simp add: EventHandler_unregister_def lookup_handler_def)
    then have th: "inLoopThread self b" by (auto simp: unregisterHandler_def assertE_def split: if_splits)
    have "usable b h" using u eh Some
      by (auto simp: unregisterHandler_def lookup_handler_def assertE_def usable_def eh_defs bindE_eq_Inr
        split: option.splits if_splits)
    from unregister_ok [OF le inv th this] u show ?thesis by (auto simp: same_base_def)
  qed
  then show "base_frame le h b b'" "reg_inv le b \<Longrightarrow> \<not> event_pending le (Ev_Handler h) (lbase b')"
    by (simp_all add: base_frame_def)
qed

subsection \<open>The operations of a stream\<close>

definition stays :: "'l libevent \<Rightarrow> ('l, 'w) stream \<Rightarrow> ('l, 'w) stream \<Rightarrow> bool" where
  "stays le s s' \<longleftrightarrow> sock s' = sock s \<and> base_frame le (sock s) (sbase s) (sbase s')"

lemma stays_refl [simp]: "stays le s s"
  by (simp add: stays_def)

lemma stays_trans: "stays le s s1 \<Longrightarrow> stays le s1 s2 \<Longrightarrow> stays le s s2"
  using base_frame_trans by (fastforce simp: stays_def)

text \<open>Only the handler and the base count.\<close>

lemma stays_left:
  "stays le (s\<lparr>os := w\<rparr>) t = stays le s t" "stays le (s\<lparr>reqs := h\<rparr>) t = stays le s t"
  "stays le (s\<lparr>events := e\<rparr>) t = stays le s t" "stays le (s\<lparr>readCallback := c\<rparr>) t = stays le s t"
  "stays le (s\<lparr>readBuffer := b\<rparr>) t = stays le s t" "stays le (s\<lparr>connectCallback := c\<rparr>) t = stays le s t"
  "stays le (s\<lparr>req_head := p\<rparr>) t = stays le s t" "stays le (s\<lparr>req_tail := p\<rparr>) t = stays le s t"
  by (simp_all add: stays_def)

lemma stays_right:
  "stays le s (t\<lparr>os := w\<rparr>) = stays le s t" "stays le s (t\<lparr>reqs := h\<rparr>) = stays le s t"
  "stays le s (t\<lparr>events := e\<rparr>) = stays le s t" "stays le s (t\<lparr>readCallback := c\<rparr>) = stays le s t"
  "stays le s (t\<lparr>readBuffer := b\<rparr>) = stays le s t" "stays le s (t\<lparr>connectCallback := c\<rparr>) = stays le s t"
  "stays le s (t\<lparr>req_head := p\<rparr>) = stays le s t" "stays le s (t\<lparr>req_tail := p\<rparr>) = stays le s t"
  "stays le s (t\<lparr>alive := v\<rparr>) = stays le s t"
  by (simp_all add: stays_def)

lemmas stays_simps = stays_left stays_right

text \<open>An environment whose callbacks stay within their stream.\<close>

definition callbacks_stay :: "('l, 'w) stream_env \<Rightarrow> bool" where
  "callbacks_stay env \<longleftrightarrow> libevent_ok (env_le env) \<and> (\<forall>ev s s'. env_invoke env ev s = Inr s' \<longrightarrow> stays (env_le env) s s')"

lemma callbacks_stayD:
  assumes "callbacks_stay env"
  shows "libevent_ok (env_le env)" "invoke_callback env ev s = Inr s' \<Longrightarrow> stays (env_le env) s s'"
  using assms unfolding callbacks_stay_def invoke_callback_def by (blast, metis stays_left(3))

lemma sock_register_stays:
  "libevent_ok (env_le env) \<Longrightarrow> sock_register env w s = Inr s' \<Longrightarrow> stays (env_le env) s s'"
  by (auto simp: sock_register_def bindE_eq_Inr stays_def registerHandler_frame)

lemma Requests_append_stays: "Requests_append r s = Inr s' \<Longrightarrow> stays le s s'"
  by (auto simp: Requests_append_def bindE_eq_Inr stays_simps split: option.splits)

lemma consumeFront_stays: "consumeFront s = Inr (p, s') \<Longrightarrow> stays le s s'"
  by (auto simp: consumeFront_def bindE_eq_Inr stays_simps split: option.splits)

lemma enqueue_stays:
  "libevent_ok (env_le env) \<Longrightarrow> enqueue env a q s = Inr s' \<Longrightarrow> stays (env_le env) s s'"
  using Requests_append_stays [of a "s\<lparr>reqs := (reqs s)(a \<mapsto> q)\<rparr>" _ "env_le env"] sock_register_stays [of env]
  by (auto simp: enqueue_def bindE_eq_Inr stays_simps intro: stays_trans)

lemma Stream_write_buffer_stays:
  assumes "libevent_ok (env_le env)" "Stream_write_buffer env a buf cb s = Inr (buf', s')"
  shows "stays (env_le env) s s'"
proof -
  obtain q b where "WriteRequest_buffer buf cb = (q, b)" by force
  with assms(2) have "enqueue env a q s = Inr s'" by (auto simp: Stream_write_buffer_def bindE_eq_Inr)
  then show ?thesis by (rule enqueue_stays [OF assms(1)])
qed

lemma startRead_stays:
  "libevent_ok (env_le env) \<Longrightarrow> startRead env c s = Inr s' \<Longrightarrow> stays (env_le env) s s'"
  using sock_register_stays [of env _ "s\<lparr>readCallback := c\<rparr>"]
  by (auto simp: startRead_def bindE_eq_Inr stays_simps split: if_splits)

lemma stopRead_stays:
  "libevent_ok (env_le env) \<Longrightarrow> stopRead env s = Inr s' \<Longrightarrow> stays (env_le env) s s'"
  using sock_register_stays [of env _ "s\<lparr>readCallback := None\<rparr>"]
  by (auto simp: stopRead_def bindE_eq_Inr Let_def stays_simps split: if_splits)

text \<open>A callback that is called if there is one.\<close>

lemma optional_callback_stays:
  assumes "callbacks_stay env" "(case c of Some cb \<Rightarrow> invoke_callback env (f cb) s | None \<Rightarrow> Inr s) = Inr s'"
  shows "stays (env_le env) s s'"
  using assms callbacks_stayD(2) [OF assms(1)] by (auto split: option.splits)

lemma readHelper_stays:
  assumes "callbacks_stay env"
  shows "readHelper fuel env s = Inr s' \<Longrightarrow> stays (env_le env) s s'"
proof (induction fuel arbitrary: s)
  case (Suc fuel)
  from Suc.prems obtain fd where fd: "sock_fd s = Inr fd" by (auto simp: bindE_eq_Inr)
  obtain r bs w where k: "xread (env_kernel env) fd read_chunk (os s) = (r, bs, w)" by (metis prod_cases3)
  note cb = optional_callback_stays [OF assms]
  show ?case
  proof (cases "r > 0")
    case False
    with Suc.prems fd k show ?thesis
      using cb [where f = "\<lambda>c. Read_Error c ''Read failed''" and s = "s\<lparr>os := w\<rparr>"] cb [where f = Read_Eof and s = "s\<lparr>os := w\<rparr>"]
      by (auto simp: Let_def stays_simps split: if_splits)
  next
    case True
    with Suc.prems fd k obtain b s1 where b:
      "(case readCallback s of Some cb \<Rightarrow> invoke_callback env (Read_Available cb) (s\<lparr>os := w, readBuffer := b\<rparr>)
        | None \<Rightarrow> Inr (s\<lparr>os := w, readBuffer := b\<rparr>)) = Inr s1"
      "(if of_int r < read_chunk then Inr s1 else readHelper fuel env s1) = Inr s'"
      by (auto simp: Let_def bindE_eq_Inr)
    then show ?thesis using cb [OF b(1)] Suc.IH [of s1] by (auto simp: stays_simps intro: stays_trans split: if_splits)
  qed
qed simp

lemma write_failed_stays: "callbacks_stay env \<Longrightarrow> write_failed env r s = Inr s' \<Longrightarrow> stays (env_le env) s s'"
  using optional_callback_stays by (fastforce simp: write_failed_def bindE_eq_Inr)

lemma write_loop_stays:
  assumes "callbacks_stay env"
  shows "write_loop fuel env p s = Inr s' \<Longrightarrow> stays (env_le env) s s'"
proof (induction fuel arbitrary: p s)
  case 0
  then show ?case by (cases p) simp_all
next
  case (Suc fuel)
  note le = callbacks_stayD(1) [OF assms]
  show ?case
  proof (cases p)
    case (Some r)
    from Suc.prems Some obtain q fd where q: "lookup_req r s = Inr q" "sock_fd s = Inr fd"
      "Buffer_peek_extents (- 1) (wr_buffer q) [] \<noteq> []" by (auto simp: bindE_eq_Inr Let_def assertE_def split: if_splits)
    obtain n b f w where k: "write_extents (env_kernel env) fd (Buffer_peek_extents (- 1) (wr_buffer q) []) 0 False (os s) = (n, b, f, w)"
      by (metis prod_cases4)
    let ?s = "s\<lparr>os := w, reqs := (reqs s)(r \<mapsto> q\<lparr>wr_buffer := Buffer_drain n (wr_buffer q)\<rparr>)\<rparr>"
    have left: "stays (env_le env) ?s t = stays (env_le env) s t" for t by (simp add: stays_simps)
    consider "f" | "\<not> f" "b" | "\<not> f" "\<not> b" by blast
    then show ?thesis
    proof cases
      case 1
      then have "write_failed env r ?s = Inr s'" using Suc.prems Some q k by (simp add: Let_def)
      from write_failed_stays [OF assms this] show ?thesis by (simp add: left)
    next
      case 2
      then have "s' = ?s" using Suc.prems Some q k by (simp add: Let_def)
      then show ?thesis using left [of ?s] by simp
    next
      case 3
      with Suc.prems Some q k obtain nxt s1 s2 s3 where t: "consumeFront ?s = Inr (nxt, s1)"
        "(if nxt = None then bindE (sock_watched env s1) (\<lambda>what. sock_register env (removeWrite what) s1) else Inr s1) = Inr s2"
        "(case wr_callback q of Some cb \<Rightarrow> invoke_callback env (Write_Complete cb) s2 | None \<Rightarrow> Inr s2) = Inr s3"
        "write_loop fuel env nxt s3 = Inr s'"
        by (auto simp: Let_def bindE_eq_Inr)
      have "stays (env_le env) s s1" using consumeFront_stays [OF t(1), of "env_le env"] by (simp add: left)
      moreover have "stays (env_le env) s1 s2"
        using t(2) sock_register_stays [OF le] by (auto simp: bindE_eq_Inr split: if_splits)
      moreover have "stays (env_le env) s2 s3" by (rule optional_callback_stays [OF assms t(3)])
      moreover have "stays (env_le env) s3 s'" by (rule Suc.IH [OF t(4)])
      ultimately show ?thesis by (blast intro: stays_trans)
    qed
  qed (use Suc.prems in simp)
qed

lemma connectHelper_stays:
  assumes "callbacks_stay env" "connectHelper env s = Inr s'"
  shows "stays (env_le env) s s'"
proof -
  obtain cb fd where c: "connectCallback s = Some cb" "sock_fd s = Inr fd"
    using assms(2) by (auto simp: connectHelper_def bindE_eq_Inr split: option.splits)
  obtain rc err w where "getsockopt_error (env_kernel env) fd (os s) = (rc, err, w)" by (metis prod_cases3)
  with c assms(2) obtain ev where "invoke_callback env ev (s\<lparr>os := w, connectCallback := None\<rparr>) = Inr s'"
    by (auto simp: connectHelper_def Let_def split: if_splits)
  from callbacks_stayD(2) [OF assms(1) this] show ?thesis by (simp add: stays_simps)
qed

lemma SockHandler_ready_stays:
  assumes "callbacks_stay env" "SockHandler_ready fuel env event s = Inr s'"
  shows "stays (env_le env) s s'"
proof -
  from assms(2) obtain s1 where s1: "(if isWrite event then bindE (deref_stream s) (\<lambda>_.
      bindE (if connectCallback s \<noteq> None then connectHelper env s else Inr s) (writeHelper fuel env)) else Inr s) = Inr s1"
    "(if isRead event then readHelper fuel env s1 else Inr s1) = Inr s'"
    by (auto simp: SockHandler_ready_def bindE_eq_Inr)
  have "stays (env_le env) s s1"
    using s1(1) connectHelper_stays [OF assms(1)] write_loop_stays [OF assms(1)]
    by (fastforce simp: bindE_eq_Inr writeHelper_def intro: stays_trans split: if_splits)
  moreover have "stays (env_le env) s1 s'"
    using s1(2) readHelper_stays [OF assms(1)] by (auto split: if_splits)
  ultimately show ?thesis by (rule stays_trans)
qed

lemma Stream_close_stays:
  assumes "callbacks_stay env" "Stream_close env s = Inr s'"
  shows "stays (env_le env) s s'"
proof -
  note le = callbacks_stayD(1) [OF assms(1)]
  from assms(2) obtain s1 s2 where s:
    "(case readCallback s of Some cb \<Rightarrow> invoke_callback env (Read_Eof cb) s | None \<Rightarrow> Inr s) = Inr s1"
    "(case connectCallback s1 of Some cb \<Rightarrow> invoke_callback env (Connect_Error cb ''Closed before connect'') s1
      | None \<Rightarrow> Inr s1) = Inr s2"
    by (auto simp: Stream_close_def bindE_eq_Inr)
  from assms(2) s obtain eh b fd where b: "(if EventHandler_registered eh
      then EventHandler_unregister (env_le env) (env_self env) (sock s2) (sbase s2) else Inr (sbase s2)) = Inr b"
    "s' = (if fd \<noteq> - 1 then s2\<lparr>sbase := b, os := snd (xclose (env_kernel env) fd (os (s2\<lparr>sbase := b\<rparr>)))\<rparr> else s2\<lparr>sbase := b\<rparr>)"
    by (auto simp: Stream_close_def bindE_eq_Inr Let_def)
  have "base_frame (env_le env) (sock s2) (sbase s2) b"
    using b(1) EventHandler_unregister_frame(1) [OF le] by (auto split: if_splits)
  then have "stays (env_le env) s2 s'" using b(2) by (simp add: stays_def)
  then show ?thesis
    using optional_callback_stays [OF assms(1) s(1)] optional_callback_stays [OF assms(1) s(2)] stays_trans by blast
qed

lemma consume_all_base: "consume_all fuel s = Inr s' \<Longrightarrow> sock s' = sock s \<and> sbase s' = sbase s"
proof (induction fuel arbitrary: s)
  case (Suc fuel)
  then obtain p s1 where "consumeFront s = Inr (p, s1)" "(if p \<noteq> None then consume_all fuel s1 else Inr s1) = Inr s'"
    by (auto simp: bindE_eq_Inr)
  moreover from this(1) have "sock s1 = sock s \<and> sbase s1 = sbase s"
    by (auto simp: consumeFront_def bindE_eq_Inr split: option.splits)
  ultimately show ?case using Suc.IH [of s1] by (auto split: if_splits)
qed simp

lemma StreamImpl_destroy_stays:
  assumes le: "libevent_ok (env_le env)" and d: "StreamImpl_destroy fuel env s = Inr s'"
  shows "stays (env_le env) s s'"
proof -
  from d obtain b s1 b' where b: "EventHandler_unregister (env_le env) (env_self env) (sock s) (sbase s) = Inr b"
    "consume_all fuel (s\<lparr>sbase := b\<rparr>) = Inr s1" "EventHandler_destroy (sock s1) (sbase s1) = Inr b'"
    "s' = s1\<lparr>alive := False, sbase := b'\<rparr>"
    by (auto simp: StreamImpl_destroy_def bindE_eq_Inr)
  have "sock s1 = sock s \<and> sbase s1 = b" using consume_all_base [OF b(2)] by simp
  then have "b' = b\<lparr>handlers := (handlers b)(sock s := None)\<rparr>" "sock s' = sock s" "sbase s' = b'"
    using b(3,4) by (auto simp: EventHandler_destroy_def bindE_eq_Inr)
  moreover have "base_frame (env_le env) (sock s) (sbase s) (b\<lparr>handlers := (handlers b)(sock s := None)\<rparr>)"
  proof (cases "reg_inv (env_le env) (sbase s)")
    case True
    from EventHandler_unregister_frame(2) [OF le b(1) True]
    have "base_frame (env_le env) (sock s) b (b\<lparr>handlers := (handlers b)(sock s := None)\<rparr>)"
      by (auto simp: base_frame_def reg_inv_def handler_registered_def timeout_registered_def only_handler_def)
    then show ?thesis by (rule base_frame_trans [OF EventHandler_unregister_frame(1) [OF le b(1)]])
  qed (simp add: base_frame_def)
  ultimately show ?thesis by (simp add: stays_def)
qed

end
