(* ===== verification/Echo_Composition.thy ===== *)
theory Echo_Composition
  imports Echo_Properties Stream_Frame
begin

text \<open>
  The echo server as a whole (\<open>main\<close>, \<open>acceptCb\<close> and the events of all handlers, \<open>Echo_Server\<close>): one
  listener and any number of connections on one base. What a connection does is known from
  \<open>Echo_Properties\<close>; here, that it does it to itself only, and that the server never faults.
\<close>

subsection \<open>An event of one connection\<close>

lemma Connection_delete_stays:
  assumes "callbacks_stay env" "Connection_delete fuel env s = Inr s'"
  shows "stays (env_le env) s s'"
proof -
  note le = callbacks_stayD(1) [OF assms(1)]
  from assms(2) obtain c s1 s2 where s: "stopRead env s = Inr s1" "Stream_close env s1 = Inr s2"
    "StreamImpl_destroy fuel env (s2\<lparr>os := (fst (os s2), c\<lparr>conn_alive := False\<rparr>)\<rparr>) = Inr s'"
    by (auto simp: Connection_delete_def bindE_eq_Inr)
  from stopRead_stays [OF le s(1)] Stream_close_stays [OF assms(1) s(2)] StreamImpl_destroy_stays [OF le s(3)]
  show ?thesis by (auto simp: stays_simps intro: stays_trans)
qed

lemma echo_callbacks_stay:
  assumes le: "libevent_ok (ec_le P)"
  shows "callbacks_stay (echo_env P n)"
proof (induction n)
  case 0
  then show ?case using le by (simp add: callbacks_stay_def echo_env.simps)
next
  case (Suc n)
  have "stays (ec_le P) s s'" if i: "echo_invoke (ec_fuel P) (ec_request P) (echo_env P n) ev s = Inr s'" for ev s s'
  proof (cases ev)
    case (Read_Available cb)
    with i obtain c b t where "Stream_write_buffer (echo_env P n) (ec_request P s) (readBuffer s) c s = Inr (b, t)"
      "s' = t\<lparr>readBuffer := b\<rparr>"
      by (auto simp: echo_invoke_def EchoReadCallback_available_def bindE_eq_Inr)
    then show ?thesis using Stream_write_buffer_stays [of "echo_env P n"] le by (simp add: stays_simps)
  qed (use i Connection_delete_stays [OF Suc] in \<open>auto simp: echo_invoke_def bindE_eq_Inr EchoWriteCallback_complete_def
    EchoWriteCallback_error_def EchoReadCallback_error_def EchoReadCallback_eof_def\<close>)
  then show ?case using le by (simp add: callbacks_stay_def echo_env.simps)
qed

lemma conn_ready_stays:
  assumes "libevent_ok (ec_le P)" "conn_ready P event s = Inr s'"
  shows "stays (ec_le P) s s'"
  using SockHandler_ready_stays [of "conn_env P"] echo_callbacks_stay [OF assms(1), of 2] assms(2)
  by (simp add: conn_ready_def conn_env_def)

text \<open>A connection while the base and the system change around it.\<close>

lemma conn_in_other:
  assumes c: "conn_in P ph s rs" and b: "handlers b (sock s) = handlers (sbase s) (sock s)"
    "watching (ec_le P) b (sock s) = watching (ec_le P) (sbase s) (sock s)"
    "may_register (ec_self P) b (sock s) = may_register (ec_self P) (sbase s) (sock s)" "reg_inv (ec_le P) b"
  shows "conn_in P ph (s\<lparr>sbase := b, os := (w, snd (os s))\<rparr>) rs" "the_fd (s\<lparr>sbase := b, os := (w, snd (os s))\<rparr>) = the_fd s"
  using assms by (simp_all add: conn_in_def stream_ok_def the_watched_def the_fd_def)

subsection \<open>The invariant of the server\<close>

text \<open>The descriptors of the connections that live.\<close>

definition live_fds :: "('l, 'w) echo_server \<Rightarrow> hid \<Rightarrow> int option" where
  "live_fds srv c = (case snd (l_os srv) c of None \<Rightarrow> None | Some s \<Rightarrow>
     if alive s then Some (the_fd (the_conn srv s)) else None)"

definition fresh_addresses :: "('l, 'w) echo_params \<Rightarrow> bool" where
  "fresh_addresses P \<longleftrightarrow> (\<forall>srv. finite (dom (handlers (l_base srv))) \<longrightarrow> handlers (l_base srv) (fst (ec_addr P srv)) = None)"

definition server_inv :: "('l, 'w) echo_params \<Rightarrow> 'w fd_view \<Rightarrow> ('l, 'w) echo_server \<Rightarrow> bool" where
  "server_inv P V srv \<longleftrightarrow> echo_host P V \<and> fresh_addresses P \<and>
     reg_inv (ec_le P) (l_base srv) \<and> may_register (ec_self P) (l_base srv) (l_handler srv) \<and>
     finite (dom (handlers (l_base srv))) \<and>
     (\<forall>c s. snd (l_os srv) c = Some s \<longrightarrow> sock s = c \<and> c \<noteq> l_handler srv \<and>
        (if alive s then \<exists>ph rs. conn_in P ph (the_conn srv s) rs else handlers (l_base srv) c = None)) \<and>
     (\<forall>c fd. live_fds srv c = Some fd \<longrightarrow> fd \<in> opened V (fst (l_os srv)) \<and> (\<forall>c'. live_fds srv c' = Some fd \<longrightarrow> c' = c))"

lemma server_invD:
  assumes "server_inv P V srv"
  shows "echo_host P V" "fresh_addresses P"
    "reg_inv (ec_le P) (l_base srv)" "may_register (ec_self P) (l_base srv) (l_handler srv)"
    "finite (dom (handlers (l_base srv)))"
    "snd (l_os srv) c = Some s \<Longrightarrow> sock s = c" "snd (l_os srv) c = Some s \<Longrightarrow> c \<noteq> l_handler srv"
    "snd (l_os srv) c = Some s \<Longrightarrow> alive s \<Longrightarrow> \<exists>ph rs. conn_in P ph (the_conn srv s) rs"
    "snd (l_os srv) c = Some s \<Longrightarrow> \<not> alive s \<Longrightarrow> handlers (l_base srv) c = None"
    "live_fds srv c = Some fd \<Longrightarrow> fd \<in> opened V (fst (l_os srv))"
    "live_fds srv c = Some fd \<Longrightarrow> live_fds srv c' = Some fd \<Longrightarrow> c' = c"
  using assms unfolding server_inv_def by (auto split: if_splits)

lemma the_conn_simps [simp]:
  "sock (the_conn srv s) = sock s" "alive (the_conn srv s) = alive s" "sbase (the_conn srv s) = l_base srv"
  "os (the_conn srv s) = (fst (l_os srv), snd (os s))" "reqs (the_conn srv s) = reqs s"
  "req_head (the_conn srv s) = req_head s"
  by (simp_all add: the_conn_def)

lemma conn_queue:
  assumes "conn_in P ph s rs" "conn_in P ph' s' rs'" "reqs s' = reqs s" "req_head s' = req_head s"
  shows "rs' = rs"
  using conn_inD(1) [OF assms(1)] conn_inD(1) [OF assms(2)] assms(3,4) linked_unique [of "reqs s" "req_head s" rs' rs]
  by (simp add: stream_ok_def)

lemma put_conn_simps [simp]:
  "l_base (put_conn srv s) = sbase s" "l_os (put_conn srv s) = (fst (os s), (snd (l_os srv))(sock s \<mapsto> s))"
  "l_handler (put_conn srv s) = l_handler srv" "l_events (put_conn srv s) = l_events srv" "the_conn (put_conn srv s) s = s"
  by (simp_all add: put_conn_def the_conn_def)

text \<open>The connection \<open>c\<close> has not noticed anything.\<close>

definition undisturbed :: "('l, 'w) echo_params \<Rightarrow> 'w fd_view \<Rightarrow> ('l, 'w) echo_server \<Rightarrow> ('l, 'w) echo_server \<Rightarrow> hid \<Rightarrow> bool" where
  "undisturbed P V srv srv' c \<longleftrightarrow> (\<forall>s fd. snd (l_os srv) c = Some s \<longrightarrow> live_fds srv c = Some fd \<longrightarrow>
     snd (l_os srv') c = Some s \<and> live_fds srv' c = Some fd \<and>
     the_watched (conn_env P) (the_conn srv' s) = the_watched (conn_env P) (the_conn srv s) \<and>
     written V fd (fst (l_os srv')) = written V fd (fst (l_os srv)) \<and>
     unread V fd (fst (l_os srv')) = unread V fd (fst (l_os srv)))"

text \<open>
  A change that leaves the base as it is but for the handler \<open>h\<close>, and all the connections but the one
  there.
\<close>

lemma conn_elsewhere:
  assumes inv: "server_inv P V srv" and s: "snd (l_os srv) c = Some s" "alive s" "c \<noteq> h"
    and f: "base_frame (ec_le P) h (l_base srv) b"
    and srv': "l_base srv' = b" "snd (l_os srv') c = Some s"
  shows "\<exists>ph rs. conn_in P ph (the_conn srv' s) rs" "live_fds srv' c = live_fds srv c"
    "the_watched (conn_env P) (the_conn srv' s) = the_watched (conn_env P) (the_conn srv s)"
proof -
  note o = base_frame_other [OF f server_invD(3) [OF inv] s(3)]
  have k: "sock s = c" by (rule server_invD(6) [OF inv s(1)])
  obtain ph rs where c: "conn_in P ph (the_conn srv s) rs" using server_invD(8) [OF inv s(1,2)] by blast
  have eq: "the_conn srv' s = (the_conn srv s)\<lparr>sbase := b, os := (fst (l_os srv'), snd (os (the_conn srv s)))\<rparr>"
    using srv' by (simp add: the_conn_def)
  have "conn_in P ph (the_conn srv' s) rs" "the_fd (the_conn srv' s) = the_fd (the_conn srv s)"
    unfolding eq by (rule conn_in_other [OF c]; simp add: o k)+
  then show "\<exists>ph rs. conn_in P ph (the_conn srv' s) rs" "live_fds srv' c = live_fds srv c"
    using s srv' by (auto simp: live_fds_def)
  show "the_watched (conn_env P) (the_conn srv' s) = the_watched (conn_env P) (the_conn srv s)"
    by (simp add: the_watched_def srv' o k)
qed

text \<open>
  The server keeps its connections, and every handler on its base is one of before or that of a
  connection.
\<close>

definition extends :: "('l, 'w) echo_server \<Rightarrow> ('l, 'w) echo_server \<Rightarrow> bool" where
  "extends srv srv' \<longleftrightarrow> l_handler srv' = l_handler srv \<and> dom (snd (l_os srv)) \<subseteq> dom (snd (l_os srv')) \<and>
     dom (handlers (l_base srv')) \<subseteq> dom (handlers (l_base srv)) \<union> dom (snd (l_os srv'))"

lemma extends_refl [simp]: "extends srv srv"
  by (simp add: extends_def)

lemma extends_trans: "extends srv srv1 \<Longrightarrow> extends srv1 srv2 \<Longrightarrow> extends srv srv2"
  unfolding extends_def by (elim conjE, intro conjI) (simp, blast+)

lemma put_conn_extends:
  assumes f: "base_frame le (sock s) (l_base srv) (sbase s)" and inv: "reg_inv le (l_base srv)"
  shows "extends srv (put_conn srv s)"
proof -
  have "handlers (sbase s) x = handlers (l_base srv) x" if "x \<noteq> sock s" for x by (rule base_frame_other(1) [OF f inv that])
  then show ?thesis by (auto simp: extends_def domIff)
qed

subsection \<open>Events of the server\<close>

text \<open>libevent reports an event of a handler of the server that is registered for it.\<close>

fun server_deliver :: "('l, 'w) echo_params \<Rightarrow> hid \<times> What \<Rightarrow> ('l, 'w) echo_server \<Rightarrow> fault + ('l, 'w) echo_server" where
  "server_deliver P (h, event) srv =
     (if (h = l_handler srv \<or> snd (l_os srv) h \<noteq> None) \<and> event \<noteq> NONE \<and>
         deliverable (watching (ec_le P) (l_base srv) h) event
      then server_ready P h event srv else Inr srv)"

text \<open>What has become of the connection \<open>c\<close>: it has echoed its input, or it has ended and is closed.\<close>

definition answered :: "('l, 'w) echo_params \<Rightarrow> 'w fd_view \<Rightarrow> ('l, 'w) echo_server \<Rightarrow> ('l, 'w) echo_server \<Rightarrow> hid \<Rightarrow> bool" where
  "answered P V srv srv' c \<longleftrightarrow> (\<forall>s ph rs. snd (l_os srv) c = Some s \<longrightarrow> conn_in P ph (the_conn srv s) rs \<longrightarrow>
     (\<exists>s' d left. snd (l_os srv') c = Some s' \<and> relays V (the_conn srv s) rs d (the_conn srv' s') left \<and>
        (if alive s' then (\<exists>ph' rs'. conn_in P ph' (the_conn srv' s') rs' \<and> left = queued (reqs s') rs') \<and>
           the_fd (the_conn srv' s') = the_fd (the_conn srv s)
         else reqs s' = Map.empty \<and> opened V (fst (l_os srv')) = opened V (fst (l_os srv)) - {the_fd (the_conn srv s)})))"

text \<open>A connection is put back, or put in place, at the address \<open>h\<close>.\<close>

lemma put_conn_inv:
  assumes inv: "server_inv P V srv" and h: "h \<noteq> l_handler srv" "sock s' = h"
    and f: "base_frame (ec_le P) h (l_base srv) (sbase s')"
    and new: "if alive s' then \<exists>ph rs. conn_in P ph s' rs else handlers (sbase s') h = None"
    and own: "alive s' \<Longrightarrow> the_fd s' \<in> opened V (fst (os s')) \<and> (\<forall>c. c \<noteq> h \<longrightarrow> live_fds srv c \<noteq> Some (the_fd s'))"
    and keep: "\<And>c fd. c \<noteq> h \<Longrightarrow> live_fds srv c = Some fd \<Longrightarrow> fd \<in> opened V (fst (os s')) \<and>
      written V fd (fst (os s')) = written V fd (fst (l_os srv)) \<and> unread V fd (fst (os s')) = unread V fd (fst (l_os srv))"
  shows "server_inv P V (put_conn srv s')" "c \<noteq> h \<Longrightarrow> undisturbed P V srv (put_conn srv s') c"
proof -
  let ?srv = "put_conn srv s'"
  note i = server_invD [OF inv]
  have f': "base_frame (ec_le P) h (l_base srv) (l_base ?srv)" using f by simp
  have at: "snd (l_os ?srv) x = snd (l_os srv) x" if "x \<noteq> h" for x using that h(2) by simp
  have same: "live_fds ?srv x = live_fds srv x" if "x \<noteq> h" for x
  proof (cases "snd (l_os srv) x")
    case (Some t)
    then show ?thesis
      using conn_elsewhere(2) [OF inv Some _ that f' refl] at [OF that] by (cases "alive t") (auto simp: live_fds_def)
  qed (use at [OF that] in \<open>simp add: live_fds_def\<close>)
  have here: "live_fds ?srv h = (if alive s' then Some (the_fd s') else None)" using h(2) by (simp add: live_fds_def)
  show "undisturbed P V srv ?srv c" if "c \<noteq> h"
    unfolding undisturbed_def
  proof (intro allI impI)
    fix t fd assume t: "snd (l_os srv) c = Some t" "live_fds srv c = Some fd"
    then have "alive t" by (simp add: live_fds_def split: if_splits)
    from conn_elsewhere(3) [OF inv t(1) this that f' refl] at [OF that] t(1)
    show "snd (l_os ?srv) c = Some t \<and> live_fds ?srv c = Some fd \<and>
        the_watched (conn_env P) (the_conn ?srv t) = the_watched (conn_env P) (the_conn srv t) \<and>
        written V fd (fst (l_os ?srv)) = written V fd (fst (l_os srv)) \<and> unread V fd (fst (l_os ?srv)) = unread V fd (fst (l_os srv))"
      using keep [OF that t(2)] same [OF that] t by simp
  qed
  show "server_inv P V ?srv"
    unfolding server_inv_def
  proof (intro conjI allI impI)
    show "reg_inv (ec_le P) (l_base ?srv)" "may_register (ec_self P) (l_base ?srv) (l_handler ?srv)"
      using base_frame_other [OF f' i(3), of "l_handler srv"] h(1) i(4) by simp_all
    have "dom (handlers (l_base ?srv)) \<subseteq> insert h (dom (handlers (l_base srv)))"
      using base_frame_other(1) [OF f' i(3)] by (auto simp: domIff)
    then show "finite (dom (handlers (l_base ?srv)))" using i(5) finite_subset by blast
  next
    fix x t assume x: "snd (l_os ?srv) x = Some t"
    show "sock t = x" "x \<noteq> l_handler ?srv" using x i(6,7) h by (auto split: if_splits)
    show "if alive t then \<exists>ph rs. conn_in P ph (the_conn ?srv t) rs else handlers (l_base ?srv) x = None"
    proof (cases "x = h")
      case True
      then have "t = s'" using x h(2) by simp
      then show ?thesis using True new by (simp cong: if_cong)
    next
      case False
      then have t: "snd (l_os srv) x = Some t" using x at by simp
      then show ?thesis
        using conn_elsewhere(1) [OF inv t _ False f' refl x] i(9) [OF t] base_frame_other(1) [OF f' i(3) False] by auto
    qed
  next
    fix x fd assume l: "live_fds ?srv x = Some fd"
    show "fd \<in> opened V (fst (l_os ?srv))" using l keep own same here by (cases "x = h") (auto split: if_splits)
    show "y = x" if "live_fds ?srv y = Some fd" for y
      using l that own same here i(11) by (cases "x = h"; cases "y = h") (auto split: if_splits)
  qed (use i in simp_all)
qed

text \<open>An event of a connection.\<close>

lemma conn_event_server:
  assumes inv: "server_inv P V srv" and short: "short_reads (ec_kernel P)" and nf: "event = READ_WRITE \<longrightarrow> never_fails (ec_kernel P)"
    and s: "snd (l_os srv) h = Some s" and ev: "event \<noteq> NONE"
    and del: "deliverable (watching (ec_le P) (l_base srv) h) event"
  shows "\<exists>srv'. server_ready P h event srv = Inr srv' \<and> server_inv P V srv' \<and> answered P V srv srv' h \<and>
    (\<forall>c. c \<noteq> h \<longrightarrow> undisturbed P V srv srv' c) \<and> extends srv srv'"
proof -
  note i = server_invD [OF inv]
  have k: "sock s = h" "h \<noteq> l_handler srv" using i(6,7) [OF s] by blast+
  have al: "alive s"
  proof (rule ccontr)
    assume "\<not> alive s"
    then have "watching (ec_le P) (l_base srv) h = NONE" using i(9) [OF s] by (simp add: watching_def)
    then show False using ev del by (cases event) (simp_all add: deliverable_def what_defs)
  qed
  obtain ph rs where c: "conn_in P ph (the_conn srv s) rs" using i(8) [OF s al] by blast
  have fdh: "live_fds srv h = Some (the_fd (the_conn srv s))" using s al by (simp add: live_fds_def)
  have "deliverable (the_watched (conn_env P) (the_conn srv s)) event" using del by (simp add: the_watched_def k)
  from conn_event [OF i(1) short c this nf] obtain s' where
    s': "conn_ready P event (the_conn srv s) = Inr s'"
    "(\<exists>ph' rs' d. lives P V (the_conn srv s) rs d ph' s' rs') \<or> (\<exists>d left. gone P V (the_conn srv s) rs d s' left)" by blast
  let ?srv = "put_conn srv s'"
  have ready: "server_ready P h event srv = Inr ?srv" using s s'(1) k(2) by (simp add: server_ready_def)
  have f: "base_frame (ec_le P) h (l_base srv) (sbase s')" and k': "sock s' = h"
    using conn_ready_stays [OF echo_hostD(1) [OF i(1)] s'(1)] k(1) by (simp_all add: stays_def)
  have fds: "if alive s' then the_fd s' = the_fd (the_conn srv s) \<and> opened V (fst (os s')) = opened V (fst (l_os srv))
      else opened V (fst (os s')) = opened V (fst (l_os srv)) - {the_fd (the_conn srv s)}"
    using s'(2) conn_in_alive gone_dead by (auto simp: lives_def gone_def)
  obtain d left where rel: "relays V (the_conn srv s) rs d s' left" using s'(2) by (auto simp: lives_def gone_def)
  have new: "if alive s' then \<exists>ph rs. conn_in P ph s' rs else handlers (sbase s') h = None"
    using s'(2) k(1) conn_in_alive by (auto simp: lives_def gone_def)
  have own: "the_fd s' \<in> opened V (fst (os s')) \<and> (\<forall>c. c \<noteq> h \<longrightarrow> live_fds srv c \<noteq> Some (the_fd s'))" if "alive s'"
    using that fds i(10,11) [OF fdh] by auto
  have keep: "fd \<in> opened V (fst (os s')) \<and> written V fd (fst (os s')) = written V fd (fst (l_os srv)) \<and>
      unread V fd (fst (os s')) = unread V fd (fst (l_os srv))" if "x \<noteq> h" "live_fds srv x = Some fd" for x fd
  proof -
    have "fd \<noteq> the_fd (the_conn srv s)" using i(11) [OF that(2)] fdh that(1) by auto
    then show ?thesis using i(10) [OF that(2)] fds rel by (auto simp: relays_def split: if_splits)
  qed
  have "answered P V srv ?srv h"
    unfolding answered_def
  proof (intro allI impI)
    fix t ph2 rs2 assume t: "snd (l_os srv) h = Some t" "conn_in P ph2 (the_conn srv t) rs2"
    then have "t = s" using s by simp
    then have "rs2 = rs" using conn_queue [OF c t(2)] by simp
    then show "\<exists>s' d left. snd (l_os ?srv) h = Some s' \<and> relays V (the_conn srv t) rs2 d (the_conn ?srv s') left \<and>
        (if alive s' then (\<exists>ph' rs'. conn_in P ph' (the_conn ?srv s') rs' \<and> left = queued (reqs s') rs') \<and>
           the_fd (the_conn ?srv s') = the_fd (the_conn srv t)
         else reqs s' = Map.empty \<and> opened V (fst (l_os ?srv)) = opened V (fst (l_os srv)) - {the_fd (the_conn srv t)})"
      using s'(2) k' \<open>t = s\<close> gone_dead conn_in_alive by (intro exI [of _ s']) (fastforce simp: lives_def gone_def)
  qed
  moreover have "server_inv P V ?srv" by (rule put_conn_inv(1) [OF inv k(2) k' f new own keep])
  moreover have "\<forall>c. c \<noteq> h \<longrightarrow> undisturbed P V srv ?srv c"
    by (intro allI impI, rule put_conn_inv(2) [OF inv k(2) k' f new own keep])
  moreover have "extends srv ?srv" by (rule put_conn_extends [OF _ i(3)]) (use f k' in simp)
  ultimately show ?thesis using ready by blast
qed

subsection \<open>Accepting\<close>

lemma server_inv_world:
  assumes inv: "server_inv P V srv" and op: "opened V (fst (l_os srv)) \<subseteq> opened V w"
  shows "server_inv P V (srv\<lparr>l_os := (w, snd (l_os srv)), l_events := evs\<rparr>)"
    (is "server_inv P V ?srv")
proof -
  have eq: "the_conn ?srv s = (the_conn srv s)\<lparr>sbase := l_base srv, os := (w, snd (os (the_conn srv s)))\<rparr>" for s
    by (simp add: the_conn_def)
  have c: "conn_in P ph (the_conn srv s) rs \<Longrightarrow> conn_in P ph (the_conn ?srv s) rs" for ph s rs
    unfolding eq by (erule conn_in_other(1)) (simp_all add: server_invD(3) [OF inv])
  have "live_fds ?srv = live_fds srv" by (auto simp: live_fds_def fun_eq_iff the_conn_def the_fd_def split: option.splits)
  then have lf: "live_fds ?srv x = live_fds srv x" for x by simp
  note i = server_invD [OF inv]
  show ?thesis
    unfolding server_inv_def
  proof (intro conjI allI impI)
    fix x t assume x: "snd (l_os ?srv) x = Some t"
    then have t: "snd (l_os srv) x = Some t" by simp
    show "sock t = x" "x \<noteq> l_handler ?srv" using i(6,7) [OF t] by simp_all
    show "if alive t then \<exists>ph rs. conn_in P ph (the_conn ?srv t) rs else handlers (l_base ?srv) x = None"
    proof (cases "alive t")
      case True
      then obtain ph rs where "conn_in P ph (the_conn srv t) rs" using i(8) [OF t] by blast
      from c [OF this] True show ?thesis by (simp only: if_True) blast
    qed (use i(9) [OF t] in simp)
  next
    fix x fd assume "live_fds ?srv x = Some fd"
    then have l: "live_fds srv x = Some fd" by (simp only: lf)
    show "fd \<in> opened V (fst (l_os ?srv))" using i(10) [OF l] op by auto
    show "y = x" if "live_fds ?srv y = Some fd" for y using i(11) [OF l] that by (simp only: lf)
  qed (use i in simp_all)
qed


lemma lift_call_eq:
  "lift_call f x = (fst (f (fst x)), snd (f (fst x)), snd x)"
  "lift_call2 g x = (fst (g (fst x)), fst (snd (g (fst x))), snd (snd (g (fst x))), snd x)"
  by (simp_all add: lift_call_def lift_call2_def split: prod.split)

lemma lift_accept [simp]:
  "k_accept (lift_kernel k) fd x = (fst (k_accept k fd (fst x)), snd (k_accept k fd (fst x)), snd x)"
  "make_socket_nonblocking (lift_kernel k) fd x =
     (fst (make_socket_nonblocking k fd (fst x)), snd (make_socket_nonblocking k fd (fst x)), snd x)"
  by (simp_all add: lift_kernel_def lift_call_eq)

lemma lift_fds:
  assumes "posix_fds k fds"
  shows "posix_fds (lift_kernel k :: ('w \<times> 'f) kernel) (\<lambda>x. fds (fst x))"
proof -
  note D = posix_fdsD [OF assms]
  have "fst (k_socket k w) = - 1 \<and> fds (snd (k_socket k w)) = fds w \<or>
      0 \<le> fst (k_socket k w) \<and> fst (k_socket k w) \<notin> fds w \<and> fds (snd (k_socket k w)) = insert (fst (k_socket k w)) (fds w)" for w
    by (rule D(1)) simp
  moreover have "fst (k_accept k l w) = - 1 \<and> fds (snd (k_accept k l w)) = fds w \<or>
      0 \<le> fst (k_accept k l w) \<and> fst (k_accept k l w) \<notin> fds w \<and> fds (snd (k_accept k l w)) = insert (fst (k_accept k l w)) (fds w)" for l w
    by (rule D(2)) simp
  ultimately show ?thesis using assms by (simp add: posix_fds_def lift_kernel_def lift_call_eq)
qed

lemma new_handler_frame:
  assumes "handlers b h = None"
  shows "base_frame le h b (b\<lparr>handlers := (handlers b)(h \<mapsto> EventHandler_new fd)\<rparr>)"
proof -
  have "\<not> event_pending le (Ev_Handler h) (lbase b)" if "reg_inv le b"
    using that assms by (auto simp: reg_inv_def handler_registered_def)
  then show ?thesis
    by (auto simp: base_frame_def only_handler_def touches_only_def reg_inv_def handler_registered_def timeout_registered_def)
qed

lemma Connection_new_frame:
  "handlers b h = None \<Longrightarrow> base_frame le h b (sbase (Connection_new b fd w (h, wcb, rcb)))"
  "sock (Connection_new b fd w (h, wcb, rcb)) = h"
  using new_handler_frame by (simp_all add: Connection_new_def StreamImpl_init_def)

text \<open>
  What has come of a connection request: the client is told of a failure and no descriptor stays
  open, or there is a new connection on a new descriptor, which waits for input.
\<close>

definition accepts :: "('l, 'w) echo_params \<Rightarrow> 'w fd_view \<Rightarrow> ('l, 'w) echo_server \<Rightarrow> ('l, 'w) echo_server \<Rightarrow> bool" where
  "accepts P V srv srv' \<longleftrightarrow>
     (\<exists>msg. l_events srv' = l_events srv @ [Accept_Error msg] \<and> snd (l_os srv') = snd (l_os srv) \<and>
        l_base srv' = l_base srv \<and> opened V (fst (l_os srv')) = opened V (fst (l_os srv))) \<or>
     (\<exists>fd c s. l_events srv' = l_events srv @ [Accepted fd] \<and> fd \<notin> opened V (fst (l_os srv)) \<and>
        opened V (fst (l_os srv')) = insert fd (opened V (fst (l_os srv))) \<and> handlers (l_base srv) c = None \<and>
        snd (l_os srv') = (snd (l_os srv))(c \<mapsto> s) \<and> conn_in P Idle (the_conn srv' s) [] \<and> live_fds srv' c = Some fd)"

lemma server_env_fields [simp]:
  "ls_le (server_env P) = ec_le P" "ls_kernel (server_env P) = lift_kernel (ec_kernel P)"
  "ls_self (server_env P) = ec_self P" "ls_invoke (server_env P) = listener_invoke P"
  by (simp_all add: server_env_def)

text \<open>A connection that lives has a handler, so a new one is not put in its place.\<close>

lemma conn_handler: "conn_in P ph s rs \<Longrightarrow> handlers (sbase s) (sock s) \<noteq> None"
  by (auto simp: conn_in_def stream_ok_def may_register_def usable_def split: option.splits)

lemma acceptCb_ok:
  assumes inv: "server_inv P V srv" and fd: "fd \<in> opened V (fst (l_os srv))" "fd \<noteq> - 1" "\<forall>c. live_fds srv c \<noteq> Some fd"
  shows "\<exists>c s. acceptCb P fd srv = Inr (put_conn srv s) \<and> server_inv P V (put_conn srv s) \<and> sock s = c \<and>
    handlers (l_base srv) c = None \<and> conn_in P Idle s [] \<and> the_fd s = fd \<and> fst (os s) = fst (l_os srv) \<and>
    (\<forall>x. undisturbed P V srv (put_conn srv s) x) \<and> extends srv (put_conn srv s)"
proof -
  note i = server_invD [OF inv]
  obtain h wcb rcb where a: "ec_addr P srv = (h, wcb, rcb)" by (cases "ec_addr P srv") auto
  have h: "handlers (l_base srv) h = None" using i(2,5) a unfolding fresh_addresses_def by (metis fst_conv)
  have hl: "h \<noteq> l_handler srv" using i(4) h by (auto simp: may_register_def usable_def)
  have th: "inLoopThread (ec_self P) (l_base srv)" using i(4) by (simp add: may_register_def)
  let ?n = "Connection_new (l_base srv) fd (fst (l_os srv)) (h, wcb, rcb)"
  from conn_started [OF i(1,3) h th fd(2), where wcb = wcb and rcb = rcb and w = "fst (l_os srv)"] obtain s where
    s: "startRead (conn_env P) (Some rcb) ?n = Inr s" "conn_in P Idle s []" "the_fd s = fd" "sock s = h"
    "fst (os s) = fst (l_os srv)" by blast
  have "stays (ec_le P) ?n s" using startRead_stays [OF _ s(1)] echo_hostD(1) [OF i(1)] by simp
  then have "base_frame (ec_le P) h (sbase ?n) (sbase s)" by (simp add: stays_def Connection_new_frame(2))
  with Connection_new_frame(1) [OF h] have f: "base_frame (ec_le P) h (l_base srv) (sbase s)" by (rule base_frame_trans)
  have new: "if alive s then \<exists>ph rs. conn_in P ph s rs else handlers (sbase s) h = None"
    using s(2) conn_in_alive [OF s(2)] by auto
  have own: "the_fd s \<in> opened V (fst (os s)) \<and> (\<forall>c. c \<noteq> h \<longrightarrow> live_fds srv c \<noteq> Some (the_fd s))"
    using fd s(3,5) by simp
  have keep: "fd' \<in> opened V (fst (os s)) \<and> written V fd' (fst (os s)) = written V fd' (fst (l_os srv)) \<and>
      unread V fd' (fst (os s)) = unread V fd' (fst (l_os srv))" if "live_fds srv c = Some fd'" for c fd'
    using i(10) [OF that] s(5) by simp
  have at_h: "live_fds srv h = None"
  proof (cases "snd (l_os srv) h")
    case (Some t)
    then show ?thesis using i(6,8) [OF Some] h conn_handler by (fastforce simp: live_fds_def)
  qed (simp add: live_fds_def)
  have und: "undisturbed P V srv (put_conn srv s) x" for x
  proof (cases "x = h")
    case True
    then show ?thesis using at_h by (simp add: undisturbed_def)
  next
    case False
    show ?thesis by (rule put_conn_inv(2) [OF inv hl s(4) f new own keep False])
  qed
  have "acceptCb P fd srv = Inr (put_conn srv s)" using s(1) a
    by (simp add: acceptCb_def Let_def Connection_new_def StreamImpl_init_def)
  moreover have "server_inv P V (put_conn srv s)" by (rule put_conn_inv(1) [OF inv hl s(4) f new own keep])
  moreover have "extends srv (put_conn srv s)" by (rule put_conn_extends [OF _ i(3)]) (use f s(4) in simp)
  ultimately show ?thesis using und h s by blast
qed

text \<open>A connection request.\<close>

lemma world_undisturbed:
  assumes w: "\<And>fd. live_fds srv c = Some fd \<Longrightarrow>
    written V fd w = written V fd (fst (l_os srv)) \<and> unread V fd w = unread V fd (fst (l_os srv))"
  shows "undisturbed P V srv (srv\<lparr>l_os := (w, snd (l_os srv)), l_events := evs\<rparr>) c" (is "undisturbed P V srv ?srv c")
proof -
  have "live_fds ?srv c = live_fds srv c" by (auto simp: live_fds_def the_conn_def the_fd_def split: option.splits)
  then show ?thesis using w by (simp add: undisturbed_def the_watched_def)
qed

lemma undisturbed_trans:
  assumes "undisturbed P V srv srv1 c" "undisturbed P V srv1 srv2 c"
  shows "undisturbed P V srv srv2 c"
  unfolding undisturbed_def
proof (intro allI impI)
  fix s fd assume s: "snd (l_os srv) c = Some s" "live_fds srv c = Some fd"
  with assms(1) have 1: "snd (l_os srv1) c = Some s" "live_fds srv1 c = Some fd"
    "the_watched (conn_env P) (the_conn srv1 s) = the_watched (conn_env P) (the_conn srv s)"
    "written V fd (fst (l_os srv1)) = written V fd (fst (l_os srv))"
    "unread V fd (fst (l_os srv1)) = unread V fd (fst (l_os srv))"
    unfolding undisturbed_def by blast+
  with assms(2) have "snd (l_os srv2) c = Some s \<and> live_fds srv2 c = Some fd \<and>
     the_watched (conn_env P) (the_conn srv2 s) = the_watched (conn_env P) (the_conn srv1 s) \<and>
     written V fd (fst (l_os srv2)) = written V fd (fst (l_os srv1)) \<and>
     unread V fd (fst (l_os srv2)) = unread V fd (fst (l_os srv1))"
    unfolding undisturbed_def by blast
  with 1 show "snd (l_os srv2) c = Some s \<and> live_fds srv2 c = Some fd \<and>
     the_watched (conn_env P) (the_conn srv2 s) = the_watched (conn_env P) (the_conn srv s) \<and>
     written V fd (fst (l_os srv2)) = written V fd (fst (l_os srv)) \<and>
     unread V fd (fst (l_os srv2)) = unread V fd (fst (l_os srv))" by simp
qed

text \<open>\<open>AcceptHandler::ready\<close> on the server, by the results of the two system calls.\<close>

abbreviation (input) with_event :: "('l, 'w) echo_server \<Rightarrow> 'w \<Rightarrow> accept_event \<Rightarrow> ('l, 'w) echo_server" where
  "with_event srv w ev \<equiv> srv\<lparr>l_os := (w, snd (l_os srv)), l_events := l_events srv @ [ev]\<rparr>"

lemma accept_step:
  assumes "handlers (l_base srv) (l_handler srv) = Some eh"
    and "k_accept (ec_kernel P) (eh_fd eh) (fst (l_os srv)) = (fd, w1)" and "make_socket_nonblocking (ec_kernel P) fd w1 = (rc, w2)"
  shows "server_ready P (l_handler srv) event srv =
    (if fd < 0 then Inr (with_event srv w1 (Accept_Error ''Failed to accept connection''))
     else if rc = - 1
     then Inr (with_event srv (snd (k_close (ec_kernel P) fd w2)) (Accept_Error ''Failed to make accepted socket non-blocking''))
     else acceptCb P fd (with_event srv w2 (Accepted fd)))"
  using assms by (simp add: server_ready_def AcceptHandler_ready_def l_fd_def lookup_handler_def l_invoke_def errorCb_def
    xclose_def Let_def)

text \<open>What the system calls do to a descriptor \<open>fd\<close> that no connection has is not seen by the connections.\<close>

lemma accept_quiet:
  assumes inv: "server_inv P V srv" and new: "fd = - 1 \<or> fd \<notin> opened V (fst (l_os srv))"
    and o: "opened V (fst (l_os srv)) \<subseteq> opened V w"
    and rw: "\<forall>x. x \<noteq> fd \<longrightarrow> written V x w = written V x (fst (l_os srv)) \<and> unread V x w = unread V x (fst (l_os srv))"
  shows "server_inv P V (with_event srv w ev) \<and> (\<forall>c. undisturbed P V srv (with_event srv w ev) c) \<and>
    extends srv (with_event srv w ev)"
proof -
  note i = server_invD [OF inv]
  have other: "x \<noteq> fd" if l: "live_fds srv c = Some x" for c x
  proof -
    obtain t where t: "snd (l_os srv) c = Some t" "alive t" "x = the_fd (the_conn srv t)"
      using l by (auto simp: live_fds_def split: option.splits if_splits)
    then obtain ph rs where c: "conn_in P ph (the_conn srv t) rs" using i(8) by blast
    have "x \<noteq> - 1" using conn_inD(10) [OF c] t(3) by simp
    then show ?thesis using new i(10) [OF l] by auto
  qed
  have "undisturbed P V srv (with_event srv w ev) c" for c
    using world_undisturbed [of srv c V w P "l_events srv @ [ev]"] rw other by auto
  then show ?thesis using server_inv_world [OF inv o] by (simp add: extends_def)
qed

lemma accept_fails:
  assumes inv: "server_inv P V srv" and new: "fd = - 1 \<or> fd \<notin> opened V (fst (l_os srv))"
    and "opened V w = opened V (fst (l_os srv))"
    and "\<forall>x. x \<noteq> fd \<longrightarrow> written V x w = written V x (fst (l_os srv)) \<and> unread V x w = unread V x (fst (l_os srv))"
  shows "server_inv P V (with_event srv w (Accept_Error e)) \<and> accepts P V srv (with_event srv w (Accept_Error e)) \<and>
    (\<forall>c. undisturbed P V srv (with_event srv w (Accept_Error e)) c) \<and> extends srv (with_event srv w (Accept_Error e))"
  using accept_quiet [OF inv new _ assms(4), of "Accept_Error e"] assms(3) by (simp add: accepts_def)

lemma accept_connects:
  assumes inv: "server_inv P V srv" and new: "0 \<le> fd" "fd \<notin> opened V (fst (l_os srv))"
    and o: "opened V w = insert fd (opened V (fst (l_os srv)))"
    and rw: "\<forall>x. x \<noteq> fd \<longrightarrow> written V x w = written V x (fst (l_os srv)) \<and> unread V x w = unread V x (fst (l_os srv))"
  shows "\<exists>srv'. acceptCb P fd (with_event srv w (Accepted fd)) = Inr srv' \<and> server_inv P V srv' \<and>
    accepts P V srv srv' \<and> (\<forall>c. undisturbed P V srv srv' c) \<and> extends srv srv'"
proof -
  let ?srv = "with_event srv w (Accepted fd)"
  have q: "server_inv P V ?srv" "undisturbed P V srv ?srv c" "extends srv ?srv" for c
    using accept_quiet [OF inv _ _ rw, of "Accepted fd"] new o by auto
  have lf: "live_fds ?srv = live_fds srv" by (auto simp: live_fds_def fun_eq_iff the_conn_def the_fd_def split: option.splits)
  have "\<forall>c. live_fds ?srv c \<noteq> Some fd" using server_invD(10) [OF inv] new(2) unfolding lf by blast
  from acceptCb_ok [OF q(1) _ _ this] o new obtain c s where
    s: "acceptCb P fd ?srv = Inr (put_conn ?srv s)" "server_inv P V (put_conn ?srv s)" "sock s = c"
    "handlers (l_base srv) c = None" "conn_in P Idle s []" "the_fd s = fd" "fst (os s) = w"
    "\<And>x. undisturbed P V ?srv (put_conn ?srv s) x" "extends ?srv (put_conn ?srv s)" by auto
  have "live_fds (put_conn ?srv s) c = Some fd" using s(3,6) conn_in_alive [OF s(5)] by (simp add: live_fds_def)
  then have "accepts P V srv (put_conn ?srv s)"
    unfolding accepts_def using s o new(2) by (intro disjI2 exI [of _ fd] exI [of _ c] exI [of _ s]) simp
  then show ?thesis
    using s(1,2) undisturbed_trans [OF q(2) s(8)] extends_trans [OF q(3) s(9)] by (intro exI [of _ "put_conn ?srv s"]) simp
qed

lemma accept_server:
  assumes inv: "server_inv P V srv"
  shows "\<exists>srv'. server_ready P (l_handler srv) event srv = Inr srv' \<and> server_inv P V srv' \<and>
    accepts P V srv srv' \<and> (\<forall>c. undisturbed P V srv srv' c) \<and> extends srv srv'"
proof -
  note i = server_invD [OF inv]
  note pk = posix_socketD [OF echo_hostD(2) [OF i(1)]]
  let ?k = "ec_kernel P" and ?w = "fst (l_os srv)"
  obtain eh where eh: "handlers (l_base srv) (l_handler srv) = Some eh"
    using i(4) by (auto simp: may_register_def usable_def split: option.splits)
  obtain fd w1 where acc: "k_accept ?k (eh_fd eh) ?w = (fd, w1)" by force
  obtain rc w2 where nb: "make_socket_nonblocking ?k fd w1 = (rc, w2)" by force
  let ?w3 = "snd (k_close ?k fd w2)"
  note step = accept_step [OF eh acc nb, of event]
  have o1: "(fd = - 1 \<and> opened V w1 = opened V ?w) \<or> (fd \<ge> 0 \<and> fd \<notin> opened V ?w \<and> opened V w1 = insert fd (opened V ?w))"
    by (rule posix_fdsD(2) [OF pk(3) acc])
  have o2: "opened V w2 = opened V w1" by (rule posix_fdsD(4) [OF pk(3) nb])
  have o3: "opened V ?w3 = opened V w2 - {fd}" by (rule pk(12))
  have rw1: "\<forall>x. x \<noteq> fd \<longrightarrow> written V x w1 = written V x ?w \<and> unread V x w1 = unread V x ?w" using pk(14) [OF acc] by simp
  then have rw2: "\<forall>x. x \<noteq> fd \<longrightarrow> written V x w2 = written V x ?w \<and> unread V x w2 = unread V x ?w" using pk(13) [OF nb] by simp
  then have rw3: "\<forall>x. x \<noteq> fd \<longrightarrow> written V x ?w3 = written V x ?w \<and> unread V x ?w3 = unread V x ?w"
    using pk(10,11) [where fd = fd and w = w2] by simp
  have new: "fd = - 1 \<or> fd \<notin> opened V ?w" using o1 by blast
  consider "fd < 0" | "\<not> fd < 0" "rc = - 1" | "\<not> fd < 0" "rc \<noteq> - 1" by blast
  then show ?thesis
  proof cases
    case 1
    then have "opened V w1 = opened V ?w" using o1 by auto
    note f = accept_fails [OF inv new this rw1, of "''Failed to accept connection''"]
    have "server_ready P (l_handler srv) event srv = Inr (with_event srv w1 (Accept_Error ''Failed to accept connection''))"
      using step 1 by simp
    with f show ?thesis by blast
  next
    case 2
    then have "opened V ?w3 = opened V ?w" using o1 o2 o3 by auto
    note f = accept_fails [OF inv new this rw3, of "''Failed to make accepted socket non-blocking''"]
    have "server_ready P (l_handler srv) event srv = Inr (with_event srv ?w3 (Accept_Error ''Failed to make accepted socket non-blocking''))"
      using step 2 by simp
    with f show ?thesis by blast
  next
    case 3
    then have "0 \<le> fd" "fd \<notin> opened V ?w" "opened V w2 = insert fd (opened V ?w)" using o1 o2 by auto
    note f = accept_connects [OF inv this rw2]
    have "server_ready P (l_handler srv) event srv = acceptCb P fd (with_event srv w2 (Accepted fd))" using step 3 by simp
    with f show ?thesis by metis
  qed
qed

end
