(* ===== verification/Echo_Service.thy ===== *)
theory Echo_Service
  imports Echo_Composition
begin

text \<open>
  The properties of the echo server as a whole (\<open>main\<close> of \<open>src/example/echo-server.cc\<close>): it starts or
  throws, serves any number of connections without a fault, and none of them notices the others.
\<close>

subsection \<open>Runs of the server\<close>

lemma undisturbed_refl [simp]: "undisturbed P V srv srv c"
  by (simp add: undisturbed_def)

lemma answered_refl: "answered P V srv srv c"
  unfolding answered_def
proof (intro allI impI)
  fix s ph rs assume s: "snd (l_os srv) c = Some s" "conn_in P ph (the_conn srv s) rs"
  have "alive s" using conn_in_alive [OF s(2)] by simp
  moreover have "relays V (the_conn srv s) rs [] (the_conn srv s) (queued (reqs s) rs)"
    using relays_refl [of V "the_conn srv s" rs] by simp
  ultimately show "\<exists>s' d left. snd (l_os srv) c = Some s' \<and> relays V (the_conn srv s) rs d (the_conn srv s') left \<and>
      (if alive s' then (\<exists>ph' rs'. conn_in P ph' (the_conn srv s') rs' \<and> left = queued (reqs s') rs') \<and>
         the_fd (the_conn srv s') = the_fd (the_conn srv s)
       else reqs s' = Map.empty \<and> opened V (fst (l_os srv)) = opened V (fst (l_os srv)) - {the_fd (the_conn srv s)})"
    using s by (intro exI [of _ s] exI [of _ "[]"] exI [of _ "queued (reqs s) rs"]) auto
qed

text \<open>The input and the output of a connection's descriptor between two states of the server.\<close>

definition echoes :: "'w fd_view \<Rightarrow> int \<Rightarrow> ('l, 'w) echo_server \<Rightarrow> byte array \<Rightarrow> byte list \<Rightarrow>
    ('l, 'w) echo_server \<Rightarrow> byte array \<Rightarrow> bool" where
  "echoes V fd srv before d srv' left \<longleftrightarrow>
     written V fd (fst (l_os srv')) @ left = written V fd (fst (l_os srv)) @ before @ map Some d \<and>
     unread V fd (fst (l_os srv)) = d @ unread V fd (fst (l_os srv'))"

lemma echoes_trans:
  assumes "echoes V fd srv before d srv1 left1" "echoes V fd srv1 left1 d' srv2 left2"
  shows "echoes V fd srv before (d @ d') srv2 left2"
proof -
  have "written V fd (fst (l_os srv2)) @ left2 = (written V fd (fst (l_os srv1)) @ left1) @ map Some d'"
    using assms(2) by (simp add: echoes_def)
  also have "written V fd (fst (l_os srv1)) @ left1 = written V fd (fst (l_os srv)) @ before @ map Some d"
    using assms(1) by (simp add: echoes_def)
  finally show ?thesis using assms by (simp add: echoes_def)
qed

text \<open>The connection \<open>c\<close>, which was \<open>s\<close> with the queue \<open>rs\<close>: it lives and has echoed its input, or has ended.\<close>

definition tracked :: "('l, 'w) echo_params \<Rightarrow> 'w fd_view \<Rightarrow> ('l, 'w) echo_server \<Rightarrow> hid \<Rightarrow> ('l, 'w) conn \<Rightarrow> rid list \<Rightarrow>
    ('l, 'w) echo_server \<Rightarrow> bool \<Rightarrow> bool" where
  "tracked P V srv c s rs srv' lives_on \<longleftrightarrow> (\<exists>s' d left. snd (l_os srv') c = Some s' \<and> alive s' = lives_on \<and>
     echoes V (the_fd (the_conn srv s)) srv (queued (reqs s) rs) d srv' left \<and>
     (if alive s' then (\<exists>ph' rs'. conn_in P ph' (the_conn srv' s') rs' \<and> left = queued (reqs s') rs') \<and>
        the_fd (the_conn srv' s') = the_fd (the_conn srv s)
      else reqs s' = Map.empty))"

lemma tracked_refl:
  assumes "snd (l_os srv) c = Some s" "conn_in P ph (the_conn srv s) rs"
  shows "tracked P V srv c s rs srv True"
  unfolding tracked_def using assms conn_in_alive [OF assms(2)]
  by (intro exI [of _ s] exI [of _ "[]"] exI [of _ "queued (reqs s) rs"]) (auto simp: echoes_def)

lemma answered_tracked:
  assumes a: "answered P V srv srv' c" and s: "snd (l_os srv) c = Some s" "conn_in P ph (the_conn srv s) rs"
  shows "\<exists>v. tracked P V srv c s rs srv' v"
proof -
  from a s obtain s' d left where s': "snd (l_os srv') c = Some s'" "relays V (the_conn srv s) rs d (the_conn srv' s') left"
    "if alive s' then (\<exists>ph' rs'. conn_in P ph' (the_conn srv' s') rs' \<and> left = queued (reqs s') rs') \<and>
       the_fd (the_conn srv' s') = the_fd (the_conn srv s)
     else reqs s' = Map.empty \<and> opened V (fst (l_os srv')) = opened V (fst (l_os srv)) - {the_fd (the_conn srv s)}"
    unfolding answered_def by blast
  have "echoes V (the_fd (the_conn srv s)) srv (queued (reqs s) rs) d srv' left"
    using s'(2) by (simp add: relays_def echoes_def)
  with s'(1,3) show ?thesis
    unfolding tracked_def by (intro exI [of _ "alive s'"] exI [of _ s'] exI [of _ d] exI [of _ left]) auto
qed

lemma undisturbed_tracked:
  assumes u: "undisturbed P V srv srv' c" and inv: "server_inv P V srv'"
    and s: "snd (l_os srv) c = Some s" "conn_in P ph (the_conn srv s) rs"
  shows "tracked P V srv c s rs srv' True"
proof -
  have al: "alive s" using conn_in_alive [OF s(2)] by simp
  let ?fd = "the_fd (the_conn srv s)"
  have "live_fds srv c = Some ?fd" using s(1) al by (simp add: live_fds_def)
  with u s(1) have s': "snd (l_os srv') c = Some s" "live_fds srv' c = Some ?fd"
    "written V ?fd (fst (l_os srv')) = written V ?fd (fst (l_os srv))"
    "unread V ?fd (fst (l_os srv')) = unread V ?fd (fst (l_os srv))" unfolding undisturbed_def by blast+
  obtain ph' rs' where c: "conn_in P ph' (the_conn srv' s) rs'" using server_invD(8) [OF inv s'(1) al] by blast
  then have "rs' = rs" using conn_queue [OF s(2) c] by simp
  moreover have "the_fd (the_conn srv' s) = ?fd" using s'(1,2) al by (simp add: live_fds_def)
  ultimately show ?thesis unfolding tracked_def using s' c al
    by (intro exI [of _ s] exI [of _ "[]"] exI [of _ "queued (reqs s) rs"]) (auto simp: echoes_def)
qed

lemma server_event:
  assumes inv: "server_inv P V srv" and short: "short_reads (ec_kernel P)" and nf: "event = READ_WRITE \<longrightarrow> never_fails (ec_kernel P)"
  shows "\<exists>srv'. server_deliver P (h, event) srv = Inr srv' \<and> server_inv P V srv' \<and> extends srv srv' \<and>
    (\<forall>c. c \<noteq> h \<longrightarrow> undisturbed P V srv srv' c) \<and>
    (if h = l_handler srv then srv' = srv \<or> accepts P V srv srv' else answered P V srv srv' h) \<and>
    (h = l_handler srv \<longrightarrow> undisturbed P V srv srv' h)"
proof (cases "(h = l_handler srv \<or> snd (l_os srv) h \<noteq> None) \<and> event \<noteq> NONE \<and>
    deliverable (watching (ec_le P) (l_base srv) h) event")
  case False
  then show ?thesis using inv answered_refl [of P V srv h] by (auto simp del: de_Morgan_conj)
next
  case True
  then have d: "server_deliver P (h, event) srv = server_ready P h event srv" by simp
  show ?thesis
  proof (cases "h = l_handler srv")
    case h: True
    from accept_server [OF inv, of event] show ?thesis unfolding d using h by auto
  next
    case False
    then obtain s where s: "snd (l_os srv) h = Some s" using True by auto
    from conn_event_server [OF inv short nf s] True obtain srv' where
      srv': "server_ready P h event srv = Inr srv'" "server_inv P V srv'" "answered P V srv srv' h"
      "\<forall>c. c \<noteq> h \<longrightarrow> undisturbed P V srv srv' c" "extends srv srv'" by blast
    with False show ?thesis unfolding d by (intro exI [of _ srv']) simp
  qed
qed

interpretation server: event_driven "server_deliver P" "\<lambda>e. snd e = READ_WRITE \<longrightarrow> never_fails (ec_kernel P)"
  "\<lambda>srv. server_inv P V srv \<and> short_reads (ec_kernel P)" extends for P V
proof
  fix srv :: "('a, 'b) echo_server" and e :: "hid \<times> What"
  assume inv: "server_inv P V srv \<and> short_reads (ec_kernel P)" and nf: "snd e = READ_WRITE \<longrightarrow> never_fails (ec_kernel P)"
  show "\<exists>srv'. server_deliver P e srv = Inr srv' \<and> (server_inv P V srv' \<and> short_reads (ec_kernel P)) \<and> extends srv srv'"
    using server_event [of P V srv "snd e" "fst e"] inv nf by (simp only: prod.collapse) blast
qed (simp_all add: extends_trans)

lemma server_tracks:
  assumes short: "short_reads (ec_kernel P)" and "READ_WRITE \<in> snd ` set evs \<longrightarrow> never_fails (ec_kernel P)"
    and "server_inv P V srv" "snd (l_os srv) c = Some s" "conn_in P ph (the_conn srv s) rs"
  shows "\<exists>n t v. n \<le> length evs \<and> run_events (server_deliver P) (take n evs) srv = Inr t \<and>
    tracked P V srv c s rs t v \<and> (v \<longrightarrow> n = length evs)"
  using assms(2-)
proof (induction evs arbitrary: srv s ph rs)
  case Nil
  then show ?case using tracked_refl [OF Nil(3,4)] by auto
next
  case (Cons e es)
  obtain h event where e: "e = (h, event)" by (cases e)
  have nf: "event = READ_WRITE \<longrightarrow> never_fails (ec_kernel P)" "READ_WRITE \<in> snd ` set es \<longrightarrow> never_fails (ec_kernel P)"
    using Cons.prems(1) e by auto
  from server_event [OF Cons.prems(2) short nf(1), of h] obtain srv1 where
    1: "server_deliver P e srv = Inr srv1" "server_inv P V srv1" "\<forall>c. c \<noteq> h \<longrightarrow> undisturbed P V srv srv1 c"
    "h \<noteq> l_handler srv \<longrightarrow> answered P V srv srv1 h" "h = l_handler srv \<longrightarrow> undisturbed P V srv srv1 h"
    unfolding e by metis
  obtain v where v: "tracked P V srv c s rs srv1 v"
    using undisturbed_tracked [OF _ 1(2) Cons.prems(3,4)] answered_tracked [OF _ Cons.prems(3,4)] 1(3-5) by metis
  then obtain s1 d left where s1: "snd (l_os srv1) c = Some s1" "alive s1 = v"
    "echoes V (the_fd (the_conn srv s)) srv (queued (reqs s) rs) d srv1 left"
    "if alive s1 then (\<exists>ph' rs'. conn_in P ph' (the_conn srv1 s1) rs' \<and> left = queued (reqs s1) rs') \<and>
        the_fd (the_conn srv1 s1) = the_fd (the_conn srv s)
      else reqs s1 = Map.empty" unfolding tracked_def by blast
  show ?case
  proof (cases v)
    case False
    then show ?thesis using 1(1) v by (intro exI [of _ "Suc 0"] exI [of _ srv1] exI [of _ False]) simp
  next
    case True
    then obtain ph1 rs1 where c1: "conn_in P ph1 (the_conn srv1 s1) rs1" "left = queued (reqs s1) rs1"
      "the_fd (the_conn srv1 s1) = the_fd (the_conn srv s)" using s1(2,4) by auto
    from Cons.IH [OF nf(2) 1(2) s1(1) c1(1)] obtain n t v' where
      t: "n \<le> length es" "run_events (server_deliver P) (take n es) srv1 = Inr t" "tracked P V srv1 c s1 rs1 t v'"
      "v' \<longrightarrow> n = length es" by blast
    have "tracked P V srv c s rs t v'"
      using t(3) echoes_trans [OF s1(3)] unfolding tracked_def c1(2,3) [symmetric] by (simp only: c1(2,3)) blast
    then show ?thesis using t 1(1) by (intro exI [of _ "Suc n"] exI [of _ t] exI [of _ v']) simp
  qed
qed

subsection \<open>Starting the server\<close>

lemma bind_keeps_conns:
  "Listener_bind (server_env P) port srv = Inr (e, srv') \<Longrightarrow> snd (l_os srv') = snd (l_os srv)"
  by (auto simp: Listener_bind_def Listener_bind_addr_def Let_def lift_kernel_def lift_call_eq bind_fails_def xclose_def
    l_setFd_def bindE_eq_Inr split: if_splits)

lemma server_registers:
  assumes le: "libevent_ok (ec_le P)" and inv: "reg_inv (ec_le P) (l_base srv)"
    and may: "may_register (ec_self P) (l_base srv) (l_handler srv)" and fin: "finite (dom (handlers (l_base srv)))"
  shows "\<exists>b'. startAccepting (server_env P) srv = Inr (srv\<lparr>l_base := b'\<rparr>) \<and> reg_inv (ec_le P) b' \<and>
    may_register (ec_self P) b' (l_handler srv) \<and> finite (dom (handlers b')) \<and>
    watching (ec_le P) b' = (watching (ec_le P) (l_base srv))(l_handler srv := READ) \<and>
    the_handler_fd (srv\<lparr>l_base := b'\<rparr>) = the_handler_fd srv \<and> base_frame (ec_le P) (l_handler srv) (l_base srv) b'"
proof -
  let ?h = "l_handler srv"
  have "inLoopThread (ec_self P) (l_base srv)" "usable (l_base srv) ?h" using may by (simp_all add: may_register_def)
  from register_ok [OF le inv this, of READ] obtain b' where
    b': "registerHandler (ec_le P) (ec_self P) ?h READ (l_base srv) = Inr b'" "reg_inv (ec_le P) b'"
    "watching (ec_le P) b' = (watching (ec_le P) (l_base srv))(?h := READ)" "same_base (l_base srv) b'"
    "only_handler (ec_le P) ?h (l_base srv) b'" by blast
  have "dom (handlers b') \<subseteq> insert ?h (dom (handlers (l_base srv)))" using b'(5) by (auto simp: only_handler_def domIff)
  then have "finite (dom (handlers b'))" using fin finite_subset by blast
  moreover have "map_option eh_fd (handlers b' ?h) = map_option eh_fd (handlers (l_base srv) ?h)"
    using b'(4) by (simp add: same_base_def)
  then have "the_handler_fd (srv\<lparr>l_base := b'\<rparr>) = the_handler_fd srv" by (auto simp: the_handler_fd_def split: option.splits)
  moreover have "base_frame (ec_le P) ?h (l_base srv) b'" using registerHandler_frame [OF le b'(1)] .
  ultimately show ?thesis using b' may_register_same_base [OF b'(4) may]
    by (intro exI [of _ b']) (simp add: startAccepting_def)
qed

lemma echo_main_cases:
  assumes host: "echo_host P V" "fresh_addresses P"
    and b: "reg_inv (ec_le P) b" "handlers b h = None" "inLoopThread (ec_self P) b" "finite (dom (handlers b))"
  shows "(\<exists>msg. echo_main P h b w = Inl (Runtime_Error msg)) \<or>
    (\<exists>srv. echo_main P h b w = Inr srv \<and> server_inv P V srv \<and> l_handler srv = h \<and> snd (l_os srv) = Map.empty \<and>
       watching (ec_le P) (l_base srv) h = READ \<and> the_handler_fd srv \<notin> opened V w \<and>
       opened V (fst (l_os srv)) = insert (the_handler_fd srv) (opened V w) \<and> base_frame (ec_le P) h b (l_base srv))"
proof -
  let ?s0 = "Listener_init b h (w, Map.empty) :: ('a, 'b) echo_server"
  let ?O = "\<lambda>x :: 'b \<times> ('a, 'b) conns. opened V (fst x)"
  have le: "libevent_ok (ec_le P)" by (rule echo_hostD(1) [OF host(1)])
  have fds: "posix_fds (ls_kernel (server_env P)) ?O"
    using lift_fds [OF posix_socketD(3) [OF echo_hostD(2) [OF host(1)]]] by simp
  have idle: "idle ?s0" by (simp add: idle_def Listener_init_def EventHandler_new_def EventHandler_registered_def)
  from bind_cases [OF fds idle, of "''0.0.0.0''" 0] consider
      msg x where "Listener_bind (server_env P) 0 ?s0 = Inr (Some msg, ?s0\<lparr>l_os := x\<rparr>)"
    | fd s1 where "Listener_bind (server_env P) 0 ?s0 = Inr (None, s1)" "fd \<ge> 0" "fd \<notin> opened V w"
      "opened V (fst (l_os s1)) = insert fd (opened V w)" "the_handler_fd s1 = fd" "l_handler s1 = h"
      "l_base s1 = b\<lparr>handlers := (handlers b)(h \<mapsto> EventHandler_new fd)\<rparr>"
    by (auto simp: Listener_bind_def Listener_init_def EventHandler_new_def)
  then show ?thesis
  proof cases
    case 1
    then show ?thesis by (simp add: echo_main_def)
  next
    case 2
    have conns: "snd (l_os s1) = Map.empty" using bind_keeps_conns [OF 2(1)] by (simp add: Listener_init_def)
    have fd: "l_fd s1 = Inr fd" using 2(6,7) by (simp add: l_fd_def lookup_handler_def EventHandler_new_def)
    obtain rc w2 where k: "k_listen (ec_kernel P) fd 128 (fst (l_os s1)) = (rc, w2)" by force
    then have kl: "k_listen (lift_kernel (ec_kernel P)) fd 128 (l_os s1) = (rc, w2, Map.empty)"
      using conns by (simp add: lift_kernel_def lift_call_def)
    have o2: "opened V w2 = insert fd (opened V w)"
      using posix_fdsD(8) [OF posix_socketD(3) [OF echo_hostD(2) [OF host(1)]] k] 2(4) by simp
    let ?s2 = "s1\<lparr>l_os := (w2, Map.empty)\<rparr>"
    show ?thesis
    proof (cases "rc = - 1")
      case True
      then show ?thesis using 2(1) fd kl by (simp add: echo_main_def Listener_listen_def)
    next
      case False
      have np: "\<not> event_pending (ec_le P) (Ev_Handler h) (lbase b)" using b by (auto simp: reg_inv_def handler_registered_def)
      have "reg_inv (ec_le P) (l_base ?s2)"
        using b(1) np 2(7) by (auto simp: reg_inv_def handler_registered_def timeout_registered_def)
      moreover have "may_register (ec_self P) (l_base ?s2) (l_handler ?s2)"
        using b(3) 2(6,7) by (simp add: may_register_def inLoopThread_def usable_def EventHandler_new_def EventHandler_base_def)
      moreover have "finite (dom (handlers (l_base ?s2)))" using b(4) 2(7) by simp
      ultimately obtain b' where b': "startAccepting (server_env P) ?s2 = Inr (?s2\<lparr>l_base := b'\<rparr>)" "reg_inv (ec_le P) b'"
        "may_register (ec_self P) b' h" "finite (dom (handlers b'))"
        "watching (ec_le P) b' = (watching (ec_le P) (l_base ?s2))(h := READ)"
        "the_handler_fd (?s2\<lparr>l_base := b'\<rparr>) = the_handler_fd ?s2" "base_frame (ec_le P) h (l_base ?s2) b'"
        using server_registers [OF le, of ?s2] 2(6) by auto
      let ?srv = "?s2\<lparr>l_base := b'\<rparr>"
      have "echo_main P h b w = Inr ?srv" using 2(1) fd kl False b'(1) by (simp add: echo_main_def Listener_listen_def)
      moreover have "server_inv P V ?srv" using host b'(2-4) 2(6) by (simp add: server_inv_def live_fds_def)
      moreover have "the_handler_fd ?s2 = fd" using 2(5) by (simp add: the_handler_fd_def)
      moreover have "base_frame (ec_le P) h b b'"
        using base_frame_trans [OF new_handler_frame [OF b(2)]] b'(7) 2(7) by simp
      ultimately show ?thesis using 2(3,6) o2 b'(5,6) by (intro disjI2 exI [of _ ?srv]) simp
    qed
  qed
qed

subsection \<open>Properties\<close>


text \<open>The model of the peers as a host of the server; a server on it with a connection that has input.\<close>

lemma fresh_model: "fresh_addresses (echo_model c)"
  by (simp add: fresh_addresses_def echo_model_def fresh_least)

lemma base_model_finite: "finite (dom (handlers base_model))"
  by (simp add: base_model_def)

lemma main_model:
  "\<exists>srv. echo_main (echo_model False) 1 base_model (peer_with ''hello'') = Inr srv \<and>
    server_inv (echo_model False) peer_view srv \<and> l_handler srv = 1 \<and> snd (l_os srv) = Map.empty"
proof -
  have b: "\<exists>srv. Listener_bind (server_env (echo_model False)) 0 (Listener_init base_model 1 (peer_with ''hello'', Map.empty)) =
      Inr (None, srv) \<and> Listener_listen (server_env (echo_model False)) 128 srv = Inr (None, srv) \<and>
      l_base srv = base_model\<lparr>handlers := (handlers base_model)(1 \<mapsto> EventHandler_new 4)\<rparr> \<and> l_handler srv = 1"
    by (simp add: Listener_bind_def Listener_bind_addr_def Listener_listen_def server_env_def lift_kernel_def lift_call_def
      lift_call2_def peer_kernel_def peer_with_def Listener_init_def l_setFd_def l_fd_def lookup_handler_def EventHandler_setFd_def
      EventHandler_new_def EventHandler_registered_def base_model_def)
  then obtain srv where srv: "Listener_bind (server_env (echo_model False)) 0
        (Listener_init base_model 1 (peer_with ''hello'', Map.empty)) = Inr (None, srv)"
      "Listener_listen (server_env (echo_model False)) 128 srv = Inr (None, srv)"
      "l_base srv = base_model\<lparr>handlers := (handlers base_model)(1 \<mapsto> EventHandler_new 4)\<rparr>" "l_handler srv = 1" by blast
  have "reg_inv libevent_model (l_base srv)" "may_register 5 (l_base srv) 1" "finite (dom (handlers (l_base srv)))"
    using echo_base_ok unfolding srv(3)
    by (auto simp: reg_inv_def base_model_def libevent_model_def may_register_def inLoopThread_def usable_def EventHandler_new_def
      EventHandler_base_def handler_registered_def timeout_registered_def)
  then obtain b' where "startAccepting (server_env (echo_model False)) srv = Inr (srv\<lparr>l_base := b'\<rparr>)"
    using server_registers [of "echo_model False" srv] srv(4) libevent_model_ok by auto
  then have "echo_main (echo_model False) 1 base_model (peer_with ''hello'') = Inr (srv\<lparr>l_base := b'\<rparr>)"
    using srv(1,2) by (simp add: echo_main_def)
  then show ?thesis
    using echo_main_cases [of "echo_model False" peer_view base_model 1 "peer_with ''hello''"] fresh_model
      base_model_finite echo_base_ok by auto
qed

lemma served_model:
  "\<exists>srv c s. server_inv (echo_model False) peer_view srv \<and> l_handler srv = 1 \<and> c \<noteq> 1 \<and> snd (l_os srv) c = Some s \<and>
    conn_in (echo_model False) Idle (the_conn srv s) [] \<and> the_fd (the_conn srv s) = 4 \<and> reqs s = Map.empty \<and>
    p_in (fst (l_os srv)) 4 = ''hello'' \<and> p_out (fst (l_os srv)) 4 = []"
proof -
  let ?P = "echo_model False"
  obtain srv where srv: "server_inv ?P peer_view srv" "l_handler srv = 1" "snd (l_os srv) = Map.empty"
    using main_model by blast
  let ?w = "(peer_with ''hello'')\<lparr>p_fds := 4 # p_fds (fst (l_os srv))\<rparr>"
  let ?srv = "srv\<lparr>l_os := (?w, snd (l_os srv)), l_events := []\<rparr>"
  have inv: "server_inv ?P peer_view ?srv" using server_inv_world [OF srv(1), of ?w "[]"] by auto
  have "\<forall>c. live_fds ?srv c \<noteq> Some 4" using srv(3) by (simp add: live_fds_def)
  from acceptCb_ok [OF inv _ _ this] obtain c s where
    s: "server_inv ?P peer_view (put_conn ?srv s)" "sock s = c" "conn_in ?P Idle s []" "the_fd s = 4" "fst (os s) = ?w" by auto
  have at: "snd (l_os (put_conn ?srv s)) c = Some s" using s(2) by simp
  have "c \<noteq> 1" using server_invD(7) [OF s(1) at] srv(2) by simp
  moreover have "reqs s = Map.empty" using conn_inD(4) [OF s(3)] by auto
  ultimately show ?thesis using s at srv(2)
    by (intro exI [of _ "put_conn ?srv s"] exI [of _ c] exI [of _ s]) (simp add: peer_with_def)
qed



text \<open>C7: What a connection receives it sends back, for as long as it lives. Take a server in
  its invariant on a kernel whose \<open>read\<close> returns less than 4096 bytes at a time
  (\<open>echo_burst\<close> is about longer ones). It handles every sequence of events without a
  fault, where events that are both readable and writable may be among them only if no
  \<open>write\<close> fails (\<open>echo_write_error_uses_freed\<close>). And each connection it
  has, with any requests queued, has at the end taken some of its input and written exactly what was
  queued and that input, in order, but for what is queued then, or has reached such a state on the
  way and ended, with all its requests freed.\<close>

theorem server_echoes:
  assumes "server_inv P V srv" and "short_reads (ec_kernel P)" and "READ_WRITE \<in> snd ` set evs \<longrightarrow> never_fails (ec_kernel P)"
    and "snd (l_os srv) c = Some s" and "conn_in P ph (the_conn srv s) rs"
  shows "\<exists>srv'. run_events (server_deliver P) evs srv = Inr srv' \<and> server_inv P V srv' \<and>
    (\<exists>n t s' d left. run_events (server_deliver P) (take n evs) srv = Inr t \<and> snd (l_os t) c = Some s' \<and>
      echoes V (the_fd (the_conn srv s)) srv (queued (reqs s) rs) d t left \<and>
      (if alive s' then t = srv' \<and> (\<exists>ph' rs'. conn_in P ph' (the_conn t s') rs' \<and> left = queued (reqs s') rs')
       else reqs s' = Map.empty))"
proof -
  have ok: "\<forall>e \<in> set evs. snd e = READ_WRITE \<longrightarrow> never_fails (ec_kernel P)" using assms(3) by force
  obtain srv' where srv': "run_events (server_deliver P) evs srv = Inr srv'" "server_inv P V srv'"
    using server.run [OF _ ok, of V srv] assms(1,2) by blast
  from server_tracks [OF assms(2,3,1,4,5)] obtain n t v where
    t: "run_events (server_deliver P) (take n evs) srv = Inr t" "tracked P V srv c s rs t v" "v \<longrightarrow> n = length evs" by blast
  then have "v \<longrightarrow> t = srv'" using srv'(1) by auto
  with srv' t(1,2) show ?thesis unfolding tracked_def by (elim exE conjE) (metis (full_types))
qed

theorem server_echoes_witness:
  "\<exists>srv c srv' n t s' d left. run_events (server_deliver (echo_model False)) [(c, READ), (1, READ), (c, WRITE)] srv = Inr srv' \<and>
    run_events (server_deliver (echo_model False)) (take n [(c, READ), (1, READ), (c, WRITE)]) srv = Inr t \<and>
    snd (l_os t) c = Some s' \<and> p_out (fst (l_os t)) 4 @ left = map Some d \<and> ''hello'' = d @ p_in (fst (l_os t)) 4"
proof -
  obtain srv c s where srv: "server_inv (echo_model False) peer_view srv" "snd (l_os srv) c = Some s"
    "conn_in (echo_model False) Idle (the_conn srv s) []" "the_fd (the_conn srv s) = 4"
    "p_in (fst (l_os srv)) 4 = ''hello''" "p_out (fst (l_os srv)) 4 = []" using served_model by blast
  have e: "echoes peer_view 4 srv [] d t left \<Longrightarrow>
      p_out (fst (l_os t)) 4 @ left = map Some d \<and> ''hello'' = d @ p_in (fst (l_os t)) 4" for d t left
    using srv(5,6) by (simp add: echoes_def)
  have sh: "short_reads (ec_kernel (echo_model False))" using peer_kernel_ok(2) by simp
  have nf: "READ_WRITE \<in> snd ` set [(c, READ), (1, READ), (c, WRITE)] \<longrightarrow> never_fails (ec_kernel (echo_model False))" by simp
  from server_echoes [OF srv(1) sh nf srv(2,3), unfolded srv(4) queued_simps(1)] e show ?thesis by blast
qed


text \<open>The server starts, or throws, and then never fails. \<open>main\<close> either ends with the exception of
  \<open>bind\<close> or \<open>listen\<close>, or listens on one new descriptor, registered for reading; from then on every
  sequence of events is handled without a fault.\<close>

theorem server_starts:
  assumes "echo_host P V" and "short_reads (ec_kernel P)" and "never_fails (ec_kernel P)" and "fresh_addresses P"
    and "reg_inv (ec_le P) b" and "handlers b h = None" and "inLoopThread (ec_self P) b" and "finite (dom (handlers b))"
  shows "(\<exists>msg. echo_main P h b w = Inl (Runtime_Error msg)) \<or>
    (\<exists>srv. echo_main P h b w = Inr srv \<and> l_handler srv = h \<and> snd (l_os srv) = Map.empty \<and>
       watching (ec_le P) (l_base srv) h = READ \<and> the_handler_fd srv \<notin> opened V w \<and>
       opened V (fst (l_os srv)) = insert (the_handler_fd srv) (opened V w) \<and>
       (\<forall>evs. \<exists>srv'. run_events (server_deliver P) evs srv = Inr srv' \<and> server_inv P V srv'))"
proof -
  have "\<forall>evs. \<exists>srv'. run_events (server_deliver P) evs srv = Inr srv' \<and> server_inv P V srv'" if "server_inv P V srv" for srv
    using server.run [of P V srv evs for evs] that assms(2,3) by auto
  then show ?thesis using echo_main_cases [OF assms(1,4-8)] by blast
qed

theorem server_starts_witness:
  "\<exists>srv srv'. echo_main (echo_model False) 1 base_model (peer_with ''hello'') = Inr srv \<and>
    watching libevent_model (l_base srv) 1 = READ \<and>
    run_events (server_deliver (echo_model False)) [(1, READ), (1, READ), (0, READ), (1, WRITE)] srv = Inr srv'"
proof -
  obtain srv where m: "echo_main (echo_model False) 1 base_model (peer_with ''hello'') = Inr srv" using main_model by blast
  have "watching libevent_model (l_base srv) 1 = READ \<and>
      (\<forall>evs. \<exists>srv'. run_events (server_deliver (echo_model False)) evs srv = Inr srv')"
    using server_starts [of "echo_model False" peer_view base_model 1 "peer_with ''hello''"] peer_kernel_ok(2,5) fresh_model
      base_model_finite echo_base_ok m by (simp del: run_events.simps) blast
  then show ?thesis using m by blast
qed

end
