(* ===== verification/Echo_Loop.thy ===== *)
theory Echo_Loop
  imports Echo_Service Op_Queue
begin

text \<open>
  The echo server in its event loop: \<open>main\<close> of \<open>src/example/echo-server.cc\<close> from the start to the loop
  that does not end, on the loop of \<open>Event_Loop\<close>.
\<close>

subsection \<open>What libevent reports\<close>

text \<open>
  The callbacks that \<open>event_base_loop\<close> may call: that of a handler with events that it is registered
  for, that of a pending timeout, and the timer. The notification descriptor of the base never
  becomes readable: nothing is handed to the loop from elsewhere.
\<close>

fun callback_due :: "'l libevent \<Rightarrow> callback \<times> 16 word \<Rightarrow> ('l, 'w) LibeventEventBase \<Rightarrow> bool" where
  "callback_due le (libeventCallback h, flags) b \<longleftrightarrow> h \<noteq> notify_handler b \<and> fromFlags (le_flags le) flags \<noteq> NONE \<and>
     deliverable (watching le (reg b) h) (fromFlags (le_flags le) flags)"
| "callback_due le (libeventTimeout t, flags) b \<longleftrightarrow> event_pending le (Ev_Timeout t) (lbase (reg b))"
| "callback_due le (persistentTimerCb, flags) b \<longleftrightarrow> event_pending le Ev_Persistent (lbase (reg b))"

definition report :: "('l, 'w) loop_env \<Rightarrow> callback \<times> 16 word \<Rightarrow> ('l, 'w) LibeventEventBase \<Rightarrow>
    fault + ('l, 'w) LibeventEventBase" where
  "report env c b = (if callback_due (lp_le env) c b then dispatch env (fst c) (snd c) b else Inr b)"

text \<open>\<open>event_base_loop\<close> calls callbacks, each of them due when it is called, and does nothing else that shows.\<close>

definition reports :: "('l, 'w) loop_env \<Rightarrow> bool" where
  "reports env \<longleftrightarrow> (\<forall>b. \<exists>cs rc. lp_loop env (dispatch env) b =
     bindE (run_events (report env) cs b) (\<lambda>b. Inr (rc, b)))"

subsection \<open>Turns of the loop\<close>

lemma the_server_put [simp]: "the_server (put_server b srv) = srv"
  by (simp add: the_server_def put_server_def)

lemma put_server_simps [simp]:
  "notify_queue (put_server b srv) = notify_queue b" "notify_handler (put_server b srv) = notify_handler b"
  "terminate (put_server b srv) = terminate b" "reg (put_server b srv) = l_base srv" "bos (put_server b srv) = srv"
  by (simp_all add: put_server_def)

lemma the_server_simps [simp]:
  "l_base (the_server b) = reg b" "l_handler (the_server b) = l_handler (bos b)" "l_os (the_server b) = l_os (bos b)"
  by (simp_all add: the_server_def)

lemma echo_loop_env_simps [simp]:
  "lp_le (echo_loop_env P lenv) = ec_le P" "lp_loop (echo_loop_env P lenv) = lp_loop lenv"
  "lp_fuel (echo_loop_env P lenv) = lp_fuel lenv"
  by (simp_all add: echo_loop_env_def)

text \<open>The base of the server between callbacks.\<close>

definition serving :: "('l, 'w) echo_params \<Rightarrow> 'w fd_view \<Rightarrow> ('l, 'w) echo_base \<Rightarrow> bool" where
  "serving P V b \<longleftrightarrow> server_inv P V (the_server b) \<and> short_reads (ec_kernel P) \<and> never_fails (ec_kernel P) \<and> represents (notify_queue b) [] \<and> \<not> terminate b \<and>
     dom (handlers (reg b)) \<subseteq> {l_handler (bos b), notify_handler b} \<union> dom (snd (l_os (bos b)))"

definition came_by :: "('l, 'w) echo_params \<Rightarrow> ('l, 'w) echo_base \<Rightarrow> ('l, 'w) echo_base \<Rightarrow> bool" where
  "came_by P b b' \<longleftrightarrow> (\<exists>evs. run_events (server_deliver P) evs (the_server b) = Inr (the_server b'))"

lemma came_by_refl: "came_by P b b"
  unfolding came_by_def by (rule exI [of _ "[]"]) simp

lemma came_by_trans: "came_by P b b1 \<Longrightarrow> came_by P b1 b2 \<Longrightarrow> came_by P b b2"
  unfolding came_by_def by (elim exE) (metis run_events_append bindE_Inr)

lemma report_ok:
  assumes s: "serving P V b"
  shows "\<exists>b'. report (echo_loop_env P lenv) (cb, flags) b = Inr b' \<and> serving P V b' \<and> came_by P b b'"
proof (cases "callback_due (ec_le P) (cb, flags) b \<and> (\<exists>h. cb = libeventCallback h)")
  case False
  then have "report (echo_loop_env P lenv) (cb, flags) b = Inr b"
    by (cases cb) (auto simp: report_def echo_loop_env_def)
  then show ?thesis using s came_by_refl by blast
next
  case True
  let ?event = "fromFlags (le_flags (ec_le P)) flags"
  from True obtain h where h: "cb = libeventCallback h" and
    due: "h \<noteq> notify_handler b" "?event \<noteq> NONE" "deliverable (watching (ec_le P) (reg b) h) ?event" by auto
  have "handlers (reg b) h \<noteq> None"
  proof
    assume "handlers (reg b) h = None"
    then show False using due(2,3) by (cases ?event) (auto simp: watching_def deliverable_def what_defs)
  qed
  then have mine: "h = l_handler (bos b) \<or> snd (l_os (bos b)) h \<noteq> None"
    using s due(1) unfolding serving_def by blast
  have inv: "server_inv P V (the_server b)" using s by (simp add: serving_def)
  have host: "short_reads (ec_kernel P)" "never_fails (ec_kernel P)" using s by (simp_all add: serving_def)
  from server_event [OF inv host(1), of ?event h] host(2) obtain srv' where
    srv': "server_deliver P (h, ?event) (the_server b) = Inr srv'" "server_inv P V srv'" "extends (the_server b) srv'" by blast
  have "server_ready P h ?event (the_server b) = Inr srv'" using srv'(1) mine due by simp
  then have "report (echo_loop_env P lenv) (cb, flags) b = Inr (put_server b srv')"
    using due by (simp add: report_def h echo_loop_env_def)
  moreover have "dom (handlers (l_base srv')) \<subseteq> {l_handler (bos b), notify_handler b} \<union> dom (snd (l_os srv'))"
    using s srv'(3) unfolding serving_def extends_def the_server_simps by blast
  then have "serving P V (put_server b srv')" using s srv'(2,3) by (simp add: serving_def extends_def)
  moreover have "came_by P b (put_server b srv')"
    unfolding came_by_def using srv'(1) by (intro exI [of _ "[(h, ?event)]"]) (simp del: server_deliver.simps)
  ultimately show ?thesis by blast
qed

interpretation reporting: event_driven "report (echo_loop_env P lenv)" "\<lambda>_. True" "serving P V" "came_by P" for P V lenv
proof
  fix b :: "('a, 'b) echo_base" and c :: "callback \<times> 16 word" assume "serving P V b"
  from report_ok [OF this, of lenv "fst c" "snd c"]
  show "\<exists>b'. report (echo_loop_env P lenv) c b = Inr b' \<and> serving P V b' \<and> came_by P b b'" by simp
qed (auto intro: came_by_refl came_by_trans)

text \<open>A turn of the loop: the operations that are queued, and \<open>event_base_loop\<close>.\<close>

definition loop_turn :: "('l, 'w) loop_env \<Rightarrow> unit \<Rightarrow> ('l, 'w) LibeventEventBase \<Rightarrow> fault + ('l, 'w) LibeventEventBase" where
  "loop_turn env u b = bindE (runOpsInQueue (lp_fuel env) env b) (\<lambda>b.
     bindE (lp_loop env (dispatch env) b) (\<lambda>(rc, b). Inr b))"

lemma turn_ok:
  assumes r: "reports (echo_loop_env P lenv)" and f: "0 < lp_fuel lenv" and s: "serving P V b"
  shows "\<exists>b'. loop_turn (echo_loop_env P lenv) u b = Inr b' \<and> serving P V b' \<and> came_by P b b' \<and>
    loop_turns (Suc n) (echo_loop_env P lenv) FOREVER b = loop_turns n (echo_loop_env P lenv) FOREVER b'"
proof -
  let ?env = "echo_loop_env P lenv"
  have ops: "runOpsInQueue (lp_fuel lenv) ?env b = Inr b"
    using f s mq.pop_none [of "notify_queue b"] by (cases "lp_fuel lenv") (auto simp: serving_def)
  obtain cs rc where l: "lp_loop ?env (dispatch ?env) b = bindE (run_events (report ?env) cs b) (\<lambda>b. Inr (rc, b))"
    using r unfolding reports_def by blast
  from reporting.run [OF s, of cs lenv] obtain b' where
    b': "run_events (report ?env) cs b = Inr b'" "serving P V b'" "came_by P b b'" by auto
  have "\<not> terminate b'" using b'(2) by (simp add: serving_def)
  then show ?thesis using ops l b' by (intro exI [of _ b']) (simp add: loop_turn_def)
qed

lemma turns_ok:
  assumes r: "reports (echo_loop_env P lenv)" and f: "0 < lp_fuel lenv"
  shows "serving P V b \<Longrightarrow> \<exists>b'. run_events (loop_turn (echo_loop_env P lenv)) (replicate n ()) b = Inr b' \<and> serving P V b' \<and>
    came_by P b b' \<and> loop_turns n (echo_loop_env P lenv) FOREVER b = Inl Out_Of_Fuel"
proof (induction n arbitrary: b)
  case 0
  then show ?case using came_by_refl by simp
next
  case (Suc n)
  from turn_ok [OF r f Suc.prems, of "()" n] obtain b1 where
    b1: "loop_turn (echo_loop_env P lenv) () b = Inr b1" "serving P V b1" "came_by P b b1"
    "loop_turns (Suc n) (echo_loop_env P lenv) FOREVER b = loop_turns n (echo_loop_env P lenv) FOREVER b1" by blast
  from Suc.IH [OF b1(2)] obtain b' where
    "run_events (loop_turn (echo_loop_env P lenv)) (replicate n ()) b1 = Inr b'" "serving P V b'" "came_by P b1 b'"
    "loop_turns n (echo_loop_env P lenv) FOREVER b1 = Inl Out_Of_Fuel" by blast
  with b1 show ?case using came_by_trans [OF b1(3)] by (intro exI [of _ b']) (simp del: loop_turns.simps)
qed

subsection \<open>Starting the loop\<close>

lemma base_with_simps [simp]:
  "reg (base_with b srv) = l_base srv" "bos (base_with b srv) = srv" "the_server (base_with b srv) = srv"
  "terminate (base_with b srv) = terminate b" "notify_queue (base_with b srv) = notify_queue b"
  "notify_handler (base_with b srv) = notify_handler b"
  by (simp_all add: base_with_def the_server_def)

text \<open>A change of the base that does not touch the handlers.\<close>

lemma server_inv_timer:
  assumes inv: "server_inv P V srv" and none: "snd (l_os srv) = Map.empty" and t: "touches_only (ec_le P) Ev_Persistent (lbase (l_base srv)) l"
  shows "server_inv P V (srv\<lparr>l_base := (l_base srv)\<lparr>loopThread := ec_self P, lbase := l\<rparr>\<rparr>)" (is "server_inv P V ?srv")
proof -
  note i = server_invD [OF inv]
  have "reg_inv (ec_le P) (l_base ?srv)"
    using i(3) t by (auto simp: reg_inv_def touches_only_def handler_registered_def timeout_registered_def)
  moreover have "may_register (ec_self P) (l_base ?srv) (l_handler srv)"
    using i(4) by (auto simp: may_register_def inLoopThread_def usable_def split: option.splits)
  ultimately show ?thesis using i none by (simp add: server_inv_def live_fds_def)
qed

lemma start_serving:
  assumes le: "libevent_ok (ec_le P)" and inv: "server_inv P V srv"
    and kernel: "short_reads (ec_kernel P)" "never_fails (ec_kernel P)" and none: "snd (l_os srv) = Map.empty"
    and idle: "\<not> event_pending (ec_le P) Ev_Persistent (lbase (l_base srv))"
    and b: "represents (notify_queue b) []" "\<not> terminate b" "dom (handlers (l_base srv)) \<subseteq> {l_handler srv, notify_handler b}"
  shows "(\<exists>msg b'. loop_start (echo_loop_env P lenv) (ec_self P) FOREVER (base_with b srv) = Threw msg b') \<or>
    (\<exists>b'. loop_start (echo_loop_env P lenv) (ec_self P) FOREVER (base_with b srv) = Started b' \<and> serving P V b')"
proof -
  let ?le = "ec_le P" and ?l = "lbase (l_base srv)"
  let ?l1 = "event_assign ?le Ev_Persistent (- 1) (short (EV_PERSIST (le_flags ?le))) persistentTimerCb ?l"
  obtain rc l where a: "event_add ?le Ev_Persistent (Some \<lparr>tv_sec = 3600, tv_usec = 0\<rparr>) ?l1 = (rc, l)" by force
  have "touches_only ?le Ev_Persistent ?l ?l1" "touches_only ?le Ev_Persistent ?l1 (snd (event_add ?le Ev_Persistent
      (Some \<lparr>tv_sec = 3600, tv_usec = 0\<rparr>) ?l1))" using le idle unfolding libevent_ok_def by blast+
  then have t: "touches_only ?le Ev_Persistent ?l l" unfolding a snd_conv by (rule touches_only_trans)
  let ?b = "(base_with b srv)\<lparr>reg := (l_base srv)\<lparr>loopThread := ec_self P, lbase := l\<rparr>, finished := False\<rparr>"
  have start: "loop_start (echo_loop_env P lenv) (ec_self P) FOREVER (base_with b srv) =
      (if rc \<noteq> 0 then Threw ''Internal error starting loop'' ?b else Started ?b)"
    using a by (simp add: loop_start_def)
  have "the_server ?b = srv\<lparr>l_base := (l_base srv)\<lparr>loopThread := ec_self P, lbase := l\<rparr>\<rparr>" by (simp add: the_server_def)
  then have "serving P V ?b" using server_inv_timer [OF inv none t] b none kernel by (simp add: serving_def)
  then show ?thesis unfolding start by (cases "rc = 0") auto
qed

subsection \<open>Properties\<close>

text \<open>C6: The program serves for ever. On a kernel whose \<open>read\<close> returns less than
  4096 bytes at a time and whose \<open>write\<close> never fails (\<open>echo_burst\<close> and
  \<open>echo_write_error_uses_freed\<close> are about others), on a new base, with nothing handed
  to the loop from elsewhere and with a libevent that calls only callbacks that are due,
  \<open>main\<close> ends with an exception of \<open>bind\<close>, \<open>listen\<close> or the
  start of the loop, or it listens on a new descriptor, registered for reading, enters the loop, and
  never returns and never faults: after any number of turns the server that was started is in a
  state that a sequence of events of its handlers leads to, with its invariant, and the loop goes
  on.\<close>

theorem echo_serves_forever:
  assumes "echo_host P V" and "short_reads (ec_kernel P)" and "never_fails (ec_kernel P)" and "fresh_addresses P"
    and "reg_inv (ec_le P) (reg b)" and "handlers (reg b) h = None" and "inLoopThread (ec_self P) (reg b)"
    and "dom (handlers (reg b)) \<subseteq> {notify_handler b}" and "\<not> event_pending (ec_le P) Ev_Persistent (lbase (reg b))"
    and "represents (notify_queue b) []" and "\<not> terminate b"
    and "reports (echo_loop_env P lenv)" and "0 < lp_fuel lenv"
  shows "(\<exists>msg. \<forall>n. echo_program n P lenv h w b = Inl (Runtime_Error msg)) \<or>
    (\<exists>msg b'. \<forall>n. echo_program n P lenv h w b = Inr (Threw msg b')) \<or>
    (\<exists>srv b1. echo_main P h (reg b) w = Inr srv \<and> watching (ec_le P) (l_base srv) h = READ \<and> l_handler srv = h \<and>
      opened V (fst (l_os srv)) = insert (the_handler_fd srv) (opened V w) \<and> the_handler_fd srv \<notin> opened V w \<and>
      loop_start (echo_loop_env P lenv) (ec_self P) FOREVER (base_with b srv) = Started b1 \<and>
      (\<forall>n. echo_program n P lenv h w b = Inl Out_Of_Fuel \<and>
        (\<exists>b' evs. run_events (loop_turn (echo_loop_env P lenv)) (replicate n ()) b1 = Inr b' \<and>
          server_inv P V (the_server b') \<and> run_events (server_deliver P) evs (the_server b1) = Inr (the_server b'))))"
proof -
  have fin: "finite (dom (handlers (reg b)))" by (rule finite_subset [OF assms(8)]) simp
  from echo_main_cases [OF assms(1,4-7) fin, of w] consider msg where "echo_main P h (reg b) w = Inl (Runtime_Error msg)"
    | srv where "echo_main P h (reg b) w = Inr srv" "server_inv P V srv" "l_handler srv = h" "snd (l_os srv) = Map.empty"
      "base_frame (ec_le P) h (reg b) (l_base srv)" "watching (ec_le P) (l_base srv) h = READ" "the_handler_fd srv \<notin> opened V w"
      "opened V (fst (l_os srv)) = insert (the_handler_fd srv) (opened V w)" by blast
  then show ?thesis
  proof cases
    case 1
    then show ?thesis by (simp add: echo_program_def)
  next
    case 2
    have f: "only_handler (ec_le P) h (reg b) (l_base srv)" using 2(5) assms(5) by (simp add: base_frame_def)
    have "dom (handlers (l_base srv)) \<subseteq> insert h (dom (handlers (reg b)))" using f by (auto simp: only_handler_def domIff)
    then have d: "dom (handlers (l_base srv)) \<subseteq> {l_handler srv, notify_handler b}" using assms(8) 2(3) by blast
    have "\<not> event_pending (ec_le P) Ev_Persistent (lbase (l_base srv))"
      using f assms(9) by (simp add: only_handler_def touches_only_def)
    from start_serving [OF echo_hostD(1) [OF assms(1)] 2(2) assms(2,3) 2(4) this assms(10,11) d, of lenv] show ?thesis
    proof (elim disjE exE conjE, goal_cases)
      case (1 msg b')
      then show ?case using 2(1) by (simp add: echo_program_def EventBase_loop_def)
    next
      case b1: (2 b1)
      have "echo_program n P lenv h w b = Inl Out_Of_Fuel \<and>
          (\<exists>b' evs. run_events (loop_turn (echo_loop_env P lenv)) (replicate n ()) b1 = Inr b' \<and>
            server_inv P V (the_server b') \<and> run_events (server_deliver P) evs (the_server b1) = Inr (the_server b'))" for n
        using turns_ok [OF assms(12,13) b1(2), of n] 2(1) b1(1)
        by (auto simp: echo_program_def EventBase_loop_def came_by_def serving_def)
      then show ?case using 2 b1(1) by blast
    qed
  qed
qed

text \<open>A libevent that finds a connection request in every turn.\<close>

definition calls_listener :: "(event \<Rightarrow> 16 word \<times> bool, (event \<Rightarrow> 16 word \<times> bool, peers) echo_server) loop_env" where
  "calls_listener = \<lparr>lp_le = libevent_model, lp_kernel = idle_kernel, lp_pipe = (\<lambda>w. (0, 3, 4, w)), lp_loopexit = (\<lambda>l. l),
     lp_base_free = (\<lambda>l _. (0, False)), lp_client = (\<lambda>c b. Inr b), lp_ready = (\<lambda>h what b. Inr b), lp_expired = (\<lambda>t b. Inr b),
     lp_loop = (\<lambda>d b. bindE (if callback_due libevent_model (libeventCallback 1, 2) b then d (libeventCallback 1) 2 b else Inr b)
       (\<lambda>b. Inr (0, b))), lp_fuel = 1\<rparr>"

lemma calls_listener_simps [simp]:
  "lp_loop calls_listener = (\<lambda>d b. bindE (if callback_due libevent_model (libeventCallback 1, 2) b
     then d (libeventCallback 1) 2 b else Inr b) (\<lambda>b. Inr (0, b)))" "lp_fuel calls_listener = 1"
  by (simp_all add: calls_listener_def)

lemma calls_listener_reports: "reports (echo_loop_env (echo_model False) calls_listener)"
  unfolding reports_def
  by (intro allI exI [of _ "[(libeventCallback 1, 2)]"] exI [of _ 0])
    (simp add: report_def bindE_assoc del: callback_due.simps)

definition new_base :: "(event \<Rightarrow> 16 word \<times> bool, unit) LibeventEventBase" where
  "new_base = \<lparr>reg = base_model, terminate = False, finished = False, notify_type = PIPE,
     notify_queue = mpsc_init Empty_Op 0, notify_fds = (3, 4), notify_handler = 0, frames = Map.empty, bos = (), ran = []\<rparr>"

lemma new_base_ok:
  "reg new_base = base_model" "dom (handlers (reg new_base)) \<subseteq> {notify_handler new_base}" "\<not> terminate new_base"
  "\<not> event_pending libevent_model Ev_Persistent (lbase (reg new_base))" "represents (notify_queue new_base) []"
  using represents_init by (auto simp: new_base_def base_model_def libevent_model_def split: if_splits)

lemma program_model: "echo_program 0 (echo_model False) calls_listener 1 (peer_with ''hello'') new_base = Inl Out_Of_Fuel"
proof -
  obtain srv where srv: "echo_main (echo_model False) 1 (reg new_base) (peer_with ''hello'') = Inr srv"
    using main_model new_base_ok(1) by auto
  have "\<exists>b. loop_start (echo_loop_env (echo_model False) calls_listener) 5 FOREVER (base_with new_base srv) = Started b"
    by (simp add: loop_start_def libevent_model_def split: prod.split)
  then show ?thesis using srv by (auto simp: echo_program_def EventBase_loop_def)
qed

theorem echo_serves_forever_witness:
  "\<exists>srv b1 b'. echo_main (echo_model False) 1 (reg new_base) (peer_with ''hello'') = Inr srv \<and>
    loop_start (echo_loop_env (echo_model False) calls_listener) 5 FOREVER (base_with new_base srv) = Started b1 \<and>
    echo_program 3 (echo_model False) calls_listener 1 (peer_with ''hello'') new_base = Inl Out_Of_Fuel \<and>
    run_events (loop_turn (echo_loop_env (echo_model False) calls_listener)) (replicate 3 ()) b1 = Inr b'"
proof -
  let ?run = "\<lambda>n. echo_program n (echo_model False) calls_listener 1 (peer_with ''hello'') new_base"
  have no: "\<not> (\<exists>msg. \<forall>n. ?run n = Inl (Runtime_Error msg))" "\<not> (\<exists>msg b'. \<forall>n. ?run n = Inr (Threw msg b'))"
    using program_model by (auto intro!: exI [of _ 0])
  have h: "echo_host (echo_model False) peer_view" "short_reads (ec_kernel (echo_model False))"
    "never_fails (ec_kernel (echo_model False))" "fresh_addresses (echo_model False)"
    using peer_kernel_ok(2,5) fresh_model by simp_all
  have b: "reg_inv (ec_le (echo_model False)) (reg new_base)" "handlers (reg new_base) 1 = None"
    "inLoopThread (ec_self (echo_model False)) (reg new_base)" "\<not> event_pending (ec_le (echo_model False)) Ev_Persistent (lbase (reg new_base))"
    "0 < lp_fuel calls_listener" using echo_base_ok new_base_ok by simp_all
  from echo_serves_forever [OF h b(1-3) new_base_ok(2) b(4) new_base_ok(5,3) calls_listener_reports b(5), of "peer_with ''hello''"]
    no echo_model_ok(4) show ?thesis by (elim disjE) (blast, blast, metis)
qed

end
