(* ===== verification/Echo_Burst.thy ===== *)
theory Echo_Burst
  imports Echo_Properties
begin

text \<open>
  A burst of input on a connection of the echo server (\<open>src/example/echo-server.cc\<close>): readable events in
  which \<open>readHelper\<close> (\<open>src/src/stream.cc\<close>) reads more than one chunk, with a request for each chunk.
\<close>

subsection \<open>Chunks\<close>

function chunks :: "'a list \<Rightarrow> 'a list list" where
  "chunks u = (if u = [] then [] else take 4096 u # chunks (drop 4096 u))"
  by pat_completeness auto
termination by (relation "measure length") auto

declare chunks.simps [simp del]

lemma chunks_simps [simp]: "chunks [] = []" "u \<noteq> [] \<Longrightarrow> chunks u = take 4096 u # chunks (drop 4096 u)"
  by (simp_all add: chunks.simps)

text \<open>The queue keeps its first request and takes each new one in the second place.\<close>

definition put_chunks :: "'b list \<Rightarrow> 'b list \<Rightarrow> 'b list" where
  "put_chunks q cs = foldl (\<lambda>q c. take 1 q @ [c]) q cs"

lemma put_chunks_simps [simp]: "put_chunks q [] = q" "put_chunks q (c # cs) = put_chunks (take 1 q @ [c]) cs"
  by (simp_all add: put_chunks_def)

lemma put_chunks_map: "put_chunks (map f q) (map f cs) = map f (put_chunks q cs)"
proof (induction cs arbitrary: q)
  case (Cons c cs)
  have "put_chunks (map f q) (map f (c # cs)) = put_chunks (map f (take 1 q @ [c])) (map f cs)"
    by (simp add: take_map)
  then show ?case using Cons.IH [of "take 1 q @ [c]"] by simp
qed simp

lemma put_chunks_first: "put_chunks (x # ys) cs = (if cs = [] then x # ys else [x, last cs])"
  by (induction cs arbitrary: ys) auto

lemma last_chunk:
  "u \<noteq> [] \<Longrightarrow> last (chunks u) = drop (4096 * ((length u - 1) div 4096)) u"
proof (induction u rule: chunks.induct)
  case (1 u)
  show ?case
  proof (cases "length u \<le> 4096")
    case True
    then have "(length u - 1) div 4096 = 0" using 1(2) by (cases u) auto
    then show ?thesis using True 1(2) by simp
  next
    case False
    then have "drop 4096 u \<noteq> []" by simp
    with 1 have "last (chunks (drop 4096 u)) = drop (4096 * ((length u - 4096 - 1) div 4096)) (drop 4096 u)" by simp
    moreover have "(length u - 1) div 4096 = Suc ((length u - 4096 - 1) div 4096)"
      using False by (simp add: le_div_geq [of 4096 "length u - 1"])
    ultimately show ?thesis using False 1(2) by (simp add: add.commute)
  qed
qed

text \<open>What is left of the input \<open>u\<close> in the queue: the first chunk and the last.\<close>

definition answer :: "'a list \<Rightarrow> 'a list" where
  "answer u = (if length u \<le> 4096 then u else take 4096 u @ drop (4096 * ((length u - 1) div 4096)) u)"

lemma put_chunks_answer:
  assumes "u \<noteq> []"
  shows "concat (put_chunks [] (chunks u)) = answer u" "length (put_chunks [] (chunks u)) = (if length u \<le> 4096 then 1 else 2)"
proof -
  have "chunks (drop 4096 u) = [] \<longleftrightarrow> length u \<le> 4096" by (cases "drop 4096 u = []") auto
  moreover have "last (chunks (drop 4096 u)) = last (chunks u)" if "\<not> length u \<le> 4096" using that assms by simp
  ultimately show "concat (put_chunks [] (chunks u)) = answer u"
    "length (put_chunks [] (chunks u)) = (if length u \<le> 4096 then 1 else 2)"
    using assms last_chunk [OF assms] by (auto simp: put_chunks_first answer_def)
qed

lemma answer_complete: "answer u = u \<longleftrightarrow> length u \<le> 8192"
proof (cases "length u \<le> 8192")
  case True
  show ?thesis
  proof (cases "length u \<le> 4096")
    case False
    then have "(length u - 1) div 4096 = 1" by (intro div_nat_eqI) (use True in simp_all)
    then show ?thesis using True False by (simp add: answer_def)
  qed (simp add: answer_def)
next
  case False
  let ?n = "(length u - 1) div 4096"
  have "2 \<le> ?n" using False by (simp add: le_div_geq)
  have "4096 * ?n \<le> length u - 1" by simp
  then have "length (answer u) < length u" using False \<open>2 \<le> ?n\<close> by (simp add: answer_def)
  then show ?thesis using False by auto
qed

subsection \<open>Reading a burst\<close>

text \<open>All that the peer has sent is there to be read, and the connection stays open.\<close>

definition eager :: "'w kernel \<Rightarrow> (int \<Rightarrow> 'w \<Rightarrow> byte list) \<Rightarrow> bool" where
  "eager k input \<longleftrightarrow> (\<forall>fd n w. case k_read k fd n w of (r, bs, w') \<Rightarrow>
     if input fd w = [] then r = - 1 \<and> isReadRetryable k (socket_geterror k fd w')
     else r = int (min (unat n) (length (input fd w))))"

text \<open>
  A connection with the queue \<open>rs\<close>, of two requests at most; there may be others, which are no longer
  linked.
\<close>

definition busy :: "('l, 'w) echo_params \<Rightarrow> ('l, 'w) conn \<Rightarrow> rid list \<Rightarrow> bool" where
  "busy P s rs \<longleftrightarrow> stream_ok (conn_env P) s rs \<and> orderly (lift_kernel (ec_kernel P) :: ('w \<times> Connection) kernel) (reqs s) rs \<and>
     (rs \<noteq> [] \<longrightarrow> req_tail s = Some (hd rs)) \<and> finite (dom (reqs s)) \<and> readBuffer s = BufferImpl_init \<and>
     readCallback s \<noteq> None \<and> connectCallback s = None \<and> conn_alive (snd (os s)) \<and>
     the_watched (conn_env P) s = (if rs = [] then READ else if length rs = 1 then READ_WRITE else WRITE)"

lemma idle_busy: "conn_in P Idle s [] \<Longrightarrow> busy P s []"
  using finite_subset [of "dom (reqs s)" "{}"] by (auto simp: conn_in_def busy_def)

lemma orderly_take: "orderly k h rs \<Longrightarrow> orderly k h (take n rs)"
  by (auto simp: orderly_def dest: in_set_takeD)

lemma busy_enqueued:
  assumes busy: "busy P s rs" and e: "enqueued (conn_env P) (s\<lparr>os := (w, snd (os s)), readBuffer := b, events := evs\<rparr>) (take 1 rs) a bs
    (Some wcb) s'" (is "enqueued _ ?s _ _ _ _ _")
  shows "busy P (s'\<lparr>readBuffer := BufferImpl_init\<rparr>) (take 1 rs @ [a])"
    "map (req_bytes (reqs s')) (take 1 rs @ [a]) = take 1 (map (req_bytes (reqs s)) rs) @ [map Some bs]"
    "the_fd s' = the_fd s" "sock s' = sock s" "os s' = (w, snd (os s))"
proof -
  note f = enqueued_facts [OF e]
  have st: "the_fd ?s = the_fd s" "the_watched (conn_env P) ?s = the_watched (conn_env P) s" by (simp_all add: the_fd_def the_watched_def)
  show "the_fd s' = the_fd s" "os s' = (w, snd (os s))" using f(5,13) st by simp_all
  have fr: "sock s' = sock s" "readCallback s' = readCallback s" "connectCallback s' = connectCallback s"
    using f(6) by (simp_all add: frame_def)
  show "sock s' = sock s" by (rule fr(1))
  have "dom (reqs s') \<subseteq> insert a (dom (reqs s))"
  proof
    fix x assume "x \<in> dom (reqs s')"
    then have "reqs s' x \<noteq> None" by (simp add: domIff)
    moreover have "reqs ?s = reqs s" by simp
    ultimately have "x = a \<or> reqs s x \<noteq> None" using f(9) [of x] by metis
    then show "x \<in> insert a (dom (reqs s))" by (simp add: domIff)
  qed
  then have fin: "finite (dom (reqs s'))" using busy finite_subset by (auto simp: busy_def)
  have ord: "orderly (lift_kernel (ec_kernel P) :: (_ \<times> Connection) kernel) (reqs s') (take 1 rs @ [a])"
    using f(11) busy orderly_take by (auto simp: busy_def)
  have tl: "req_tail s' = Some (hd (take 1 rs @ [a]))" using f(8) busy by (cases rs) (auto simp: busy_def)
  have "the_watched (conn_env P) s' = (if rs = [] then READ_WRITE else WRITE)"
    using f(10) st busy by (auto simp: busy_def what_defs)
  then show "busy P (s'\<lparr>readBuffer := BufferImpl_init\<rparr>) (take 1 rs @ [a])"
    using busy f(1,5) fr fin ord tl by (cases rs) (auto simp: busy_def)
  have same: "map (req_bytes (reqs s')) (take 1 rs) = map (req_bytes (reqs s)) (take 1 rs)" using f(14) by simp
  then have "queued (reqs s') (take 1 rs) = queued (reqs s) (take 1 rs)" by (simp only: queued_def)
  then have "req_bytes (reqs s') a = map Some bs" using f(2) by simp
  then show "map (req_bytes (reqs s')) (take 1 rs @ [a]) = take 1 (map (req_bytes (reqs s)) rs) @ [map Some bs]"
    using same by (simp add: take_map)
qed

text \<open>What such a kernel gives \<open>readHelper\<close>: nothing to read, or the next chunk.\<close>

lemma eager_read:
  assumes host: "echo_host P V" and eager: "eager (ec_kernel P) (unread V)"
    and kr: "k_read (ec_kernel P) fd read_chunk w = (r, bs, w')"
  shows "written V fd w' = written V fd w"
    "unread V fd w = [] \<Longrightarrow>
       r = - 1 \<and> isReadRetryable (ec_kernel P) (socket_geterror (ec_kernel P) fd w') \<and> unread V fd w' = []"
    "unread V fd w \<noteq> [] \<Longrightarrow> 0 < r \<and> r = int (min 4096 (length (unread V fd w))) \<and>
       bs = take 4096 (unread V fd w) \<and> unread V fd w' = drop 4096 (unread V fd w)"
proof -
  let ?u = "unread V fd w"
  have r: "length bs = nat r" "?u = bs @ unread V fd w'"
    using echo_hostD(2) [OF host] kr by (simp_all add: posix_socket_def posix_read_def)
  show "written V fd w' = written V fd w" by (rule posix_socketD(8) [OF echo_hostD(2) [OF host] kr])
  have eg: "if ?u = [] then r = - 1 \<and> isReadRetryable (ec_kernel P) (socket_geterror (ec_kernel P) fd w')
      else r = int (min 4096 (length ?u))"
    using eager kr unfolding eager_def by (auto simp: chunk_facts dest!: spec [of _ fd] spec [of _ read_chunk] spec [of _ w])
  show "r = - 1 \<and> isReadRetryable (ec_kernel P) (socket_geterror (ec_kernel P) fd w') \<and> unread V fd w' = []" if "?u = []"
    using eg that r(2) by simp
  assume ne: "?u \<noteq> []"
  then have r0: "0 < r" "r = int (min 4096 (length ?u))" using eg by (auto simp: min_def)
  have n: "length bs = min 4096 (length ?u)" using r(1) r0(2) by simp
  have tk: "take (length bs) (bs @ unread V fd w') = bs" "drop (length bs) (bs @ unread V fd w') = unread V fd w'"
    by simp_all
  have "take 4096 ?u = take (min 4096 (length ?u)) ?u" "drop 4096 ?u = drop (min 4096 (length ?u)) ?u"
    by (simp_all add: min_def)
  then show "0 < r \<and> r = int (min 4096 (length ?u)) \<and> bs = take 4096 ?u \<and> unread V fd w' = drop 4096 ?u"
    using tk r0 unfolding n [symmetric] r(2) [symmetric] by simp
qed

lemma burst_read_end:
  assumes host: "echo_host P V" and eager: "eager (ec_kernel P) (unread V)" and busy: "busy P s rs"
    and none: "unread V (the_fd s) (fst (os s)) = []"
  shows "\<exists>s'. readHelper (Suc fuel) (conn_env P) s = Inr s' \<and> busy P s' rs \<and> the_fd s' = the_fd s \<and> reqs s' = reqs s \<and>
    unread V (the_fd s) (fst (os s')) = [] \<and> written V (the_fd s) (fst (os s')) = written V (the_fd s) (fst (os s))"
proof -
  obtain r bs w where kr: "k_read (ec_kernel P) (the_fd s) read_chunk (fst (os s)) = (r, bs, w)" by (metis prod_cases3)
  note e = eager_read(1) [OF host eager kr] eager_read(2) [OF host eager kr none]
  have live: "alive s" "may_register (ec_self P) (sbase s) (sock s)" using busy by (simp_all add: busy_def stream_ok_def)
  have "xread (env_kernel (conn_env P)) (the_fd s) read_chunk (os s) = (r, bs, w, snd (os s))"
    using kr by (simp add: xread_def lift_kernel_def lift_call2_def)
  then have "readHelper (Suc fuel) (conn_env P) s = Inr (s\<lparr>os := (w, snd (os s))\<rparr>)"
    using sock_fd_ok [OF live] e(2) by simp
  moreover have "busy P (s\<lparr>os := (w, snd (os s))\<rparr>) rs"
    using busy by (simp add: busy_def stream_ok_def the_watched_def)
  ultimately show ?thesis using e by (intro exI [of _ "s\<lparr>os := (w, snd (os s))\<rparr>"]) (simp add: the_fd_def)
qed

lemma burst_read_chunk:
  assumes host: "echo_host P V" and eager: "eager (ec_kernel P) (unread V)" and busy: "busy P s rs"
    and u: "unread V (the_fd s) (fst (os s)) = u" "u \<noteq> []"
  shows "\<exists>s' rs'. readHelper (Suc fuel) (conn_env P) s =
      (if length u < 4096 then Inr s' else readHelper fuel (conn_env P) s') \<and>
    busy P s' rs' \<and> the_fd s' = the_fd s \<and> unread V (the_fd s) (fst (os s')) = drop 4096 u \<and>
    written V (the_fd s) (fst (os s')) = written V (the_fd s) (fst (os s)) \<and>
    map (req_bytes (reqs s')) rs' = take 1 (map (req_bytes (reqs s)) rs) @ [map Some (take 4096 u)]"
proof -
  obtain r bs w where kr: "k_read (ec_kernel P) (the_fd s) read_chunk (fst (os s)) = (r, bs, w)" by (metis prod_cases3)
  note e = eager_read(1) [OF host eager kr] eager_read(3) [OF host eager kr, unfolded u(1), OF u(2)]
  note b = busy [unfolded busy_def]
  obtain cb where cb: "readCallback s = Some cb" using b by blast
  from e(2) have r0: "0 < r" by blast
  from chunk_turn [OF host, of s rs cb, OF _ _ _ _ cb _ kr r0, of fuel] b obtain c s1 a where
    s1: "readHelper (Suc fuel) (conn_env P) s = (if r < 4096 then Inr (s1\<lparr>readBuffer := BufferImpl_init\<rparr>)
       else readHelper fuel (conn_env P) (s1\<lparr>readBuffer := BufferImpl_init\<rparr>))"
    "enqueued (conn_env P) (s\<lparr>os := (w, snd (os s)), readBuffer := c, events := events s @ [Read_Available cb]\<rparr>)
      (take 1 rs) a bs (Some (write_cb (snd (os s)))) s1" by blast
  note q = busy_enqueued [OF busy s1(2)]
  let ?t = "s1\<lparr>readBuffer := BufferImpl_init\<rparr>"
  have "r < 4096 \<longleftrightarrow> length u < 4096" using e(2) by auto
  then have "readHelper (Suc fuel) (conn_env P) s = (if length u < 4096 then Inr ?t else readHelper fuel (conn_env P) ?t)"
    using s1(1) by simp
  then show ?thesis using q e by (intro exI [of _ ?t] exI [of _ "take 1 rs @ [a]"]) (simp add: the_fd_def)
qed

lemma burst_read:
  assumes host: "echo_host P V" and eager: "eager (ec_kernel P) (unread V)"
  shows "busy P s rs \<Longrightarrow> length (unread V (the_fd s) (fst (os s))) div 4096 < fuel \<Longrightarrow>
    \<exists>s' rs'. readHelper fuel (conn_env P) s = Inr s' \<and> busy P s' rs' \<and> the_fd s' = the_fd s \<and>
      unread V (the_fd s) (fst (os s')) = [] \<and> written V (the_fd s) (fst (os s')) = written V (the_fd s) (fst (os s)) \<and>
      map (req_bytes (reqs s')) rs' =
        put_chunks (map (req_bytes (reqs s)) rs) (map (map Some) (chunks (unread V (the_fd s) (fst (os s)))))"
proof (induction fuel arbitrary: s rs)
  case (Suc fuel)
  let ?fd = "the_fd s" and ?u = "unread V (the_fd s) (fst (os s))"
  show ?case
  proof (cases "?u = []")
    case True
    then show ?thesis using burst_read_end [OF host eager Suc.prems(1) True, of fuel] by fastforce
  next
    case ne: False
    from burst_read_chunk [OF host eager Suc.prems(1) refl ne, of fuel] obtain t ts where
      t: "readHelper (Suc fuel) (conn_env P) s = (if length ?u < 4096 then Inr t else readHelper fuel (conn_env P) t)"
      "busy P t ts" "the_fd t = ?fd" "unread V ?fd (fst (os t)) = drop 4096 ?u"
      "written V ?fd (fst (os t)) = written V ?fd (fst (os s))"
      "map (req_bytes (reqs t)) ts = take 1 (map (req_bytes (reqs s)) rs) @ [map Some (take 4096 ?u)]" by blast
    show ?thesis
    proof (cases "length ?u < 4096")
      case True
      then show ?thesis using t ne by (intro exI [of _ t] exI [of _ ts]) simp
    next
      case False
      then have "length (unread V (the_fd t) (fst (os t))) div 4096 < fuel"
        using Suc.prems(2) t(3,4) by (simp add: le_div_geq)
      from Suc.IH [OF t(2) this, unfolded t(3-6)] show ?thesis using t(1) False ne by simp
    qed
  qed
qed simp

text \<open>A writable event writes all the queue.\<close>

lemma burst_write:
  assumes host: "echo_host P V" and all: "takes_all (ec_kernel P)" and busy: "busy P s rs" and ne: "rs \<noteq> []"
    and n: "length rs \<le> ec_fuel P"
  shows "\<exists>s'. conn_deliver P WRITE s = Inr s' \<and> req_head s' = None \<and>
    written V (the_fd s) (fst (os s')) = written V (the_fd s) (fst (os s)) @ queued (reqs s) rs \<and>
    the_watched (conn_env P) s' = removeWrite (the_watched (conn_env P) s)"
proof -
  note b = busy [unfolded busy_def]
  have ok: "stream_ok (conn_env P) s rs" "orderly (env_kernel (conn_env P)) (reqs s) rs" "conn_alive (snd (os s))"
    using b by simp_all
  from conn_write_loop [OF host ok(1,2) n ok(3)] obtain s' fin rest failed where s':
    "write_loop (ec_fuel P) (conn_env P) (req_head s) s = (if failed then invoke_opt (conn_env P)
       (\<lambda>cb. Write_Error cb ''Write failed'') (wr_callback (the (reqs s' (hd rest)))) s' else Inr s')"
    "wrote (conn_env P) (\<lambda>fd x. written V fd (fst x)) s rs s' fin rest []"
    "failed \<longrightarrow> rest \<noteq> [] \<and> \<not> never_fails (ec_kernel P)" by blast
  note w = s'(2) [unfolded wrote_def]
  have rest: "rest = []" "\<not> failed" using w all s'(3) by simp_all
  have "alive s" using ok by (simp add: stream_ok_def)
  moreover have "isWrite (the_watched (conn_env P) s)" using b ne by (simp add: what_defs)
  ultimately have "conn_deliver P WRITE s = Inr s'"
    using s'(1) rest(2) b
    by (simp add: conn_deliver_def deliverable_def conn_ready_def SockHandler_ready_def writeHelper_def deref_stream_def what_defs)
  then show ?thesis using w ne by (intro exI [of _ s']) (simp add: rest(1) stream_ok_def frame_def)
qed

subsection \<open>Properties\<close>

text \<open>C21: How much a connection answers at once. When input \<open>u\<close> is waiting on an
  idle connection whose peer stays open, the kernel hands it over as it is asked for, and takes all
  that is written, one readable event reads all of it, in chunks of 4096 bytes, and the next
  writable event writes the answer: the first chunk and the last. The answer is the input if there
  are 8192 bytes of it at most; of a longer input the bytes in between are lost. And if there are
  more than 4096, the connection is then not registered for anything any more.\<close>

theorem echo_burst:
  assumes "echo_host P V" and "eager (ec_kernel P) (unread V)" and "takes_all (ec_kernel P)" and "conn_in P Idle s []"
    and "unread V (the_fd s) (fst (os s)) = u" and "u \<noteq> []" and "length u div 4096 < ec_fuel P"
  shows "\<exists>s1 s2. conn_deliver P READ s = Inr s1 \<and> unread V (the_fd s) (fst (os s1)) = [] \<and> conn_deliver P WRITE s1 = Inr s2 \<and>
    written V (the_fd s) (fst (os s2)) = written V (the_fd s) (fst (os s)) @ map Some (answer u) \<and> req_head s2 = None \<and>
    (answer u = u \<longleftrightarrow> length u \<le> 8192) \<and> the_watched (conn_env P) s2 = (if length u \<le> 4096 then READ else NONE)"
proof -
  have fuel: "length (unread V (the_fd s) (fst (os s))) div 4096 < ec_fuel P" using assms(5,7) by simp
  from burst_read [OF assms(1,2) idle_busy [OF assms(4)] fuel] obtain s1 rs where
    s1: "readHelper (ec_fuel P) (conn_env P) s = Inr s1" "busy P s1 rs" "the_fd s1 = the_fd s"
    "unread V (the_fd s) (fst (os s1)) = []" "written V (the_fd s) (fst (os s1)) = written V (the_fd s) (fst (os s))"
    "map (req_bytes (reqs s1)) rs = put_chunks [] (map (map Some) (chunks u))" unfolding assms(5) by auto
  have q: "queued (reqs s1) rs = map Some (answer u)" "length rs = (if length u \<le> 4096 then 1 else 2)"
  proof -
    have m: "map (req_bytes (reqs s1)) rs = map (map Some) (put_chunks [] (chunks u))"
      using s1(6) put_chunks_map [of "map Some" "[]" "chunks u"] by simp
    then show "queued (reqs s1) rs = map Some (answer u)"
      by (simp only: queued_def put_chunks_answer(1) [OF assms(6), symmetric] map_concat)
    show "length rs = (if length u \<le> 4096 then 1 else 2)"
      using arg_cong [OF m, of length] put_chunks_answer(2) [OF assms(6)] by simp
  qed
  have rd: "conn_deliver P READ s = Inr s1"
    using conn_in_alive [OF assms(4)] conn_inD(3) [OF assms(4)] s1(1)
    by (simp add: conn_deliver_def deliverable_def conn_ready_split [OF assms(4)] what_defs)
  have n: "rs \<noteq> []" "length rs \<le> ec_fuel P" using q(2) echo_hostD(5) [OF assms(1)] by (auto split: if_splits)
  have "removeWrite (the_watched (conn_env P) s1) = (if length u \<le> 4096 then READ else NONE)"
    using s1(2) q(2) n(1) by (simp add: busy_def what_defs split: if_splits)
  then show ?thesis
    using burst_write [OF assms(1,3) s1(2) n] rd s1(3-5) q(1) answer_complete [of u] by auto
qed

text \<open>The system of the model, but a \<open>read\<close> takes all there is, and finds the input blocked after it.\<close>

definition eager_model :: "(event \<Rightarrow> 16 word \<times> bool, peers) echo_params" where
  "eager_model = (echo_model False)\<lparr>ec_kernel := (peer_kernel False)\<lparr>k_read := (\<lambda>fd n w.
       let m = min (unat n) (length (p_in w fd)) in
       (if p_in w fd = [] then - 1 else int m, take m (p_in w fd), w\<lparr>p_in := (p_in w)(fd := drop m (p_in w fd))\<rparr>)),
     socket_geterror := (\<lambda>fd w. 11)\<rparr>, ec_fuel := 10\<rparr>"

lemma eager_model_ok:
  "echo_host eager_model peer_view" "eager (ec_kernel eager_model) (\<lambda>fd w. p_in w fd)" "takes_all (ec_kernel eager_model)"
  "ec_le eager_model = libevent_model" "ec_self eager_model = 5" "ec_fuel eager_model = 10"
proof -
  show "ec_le eager_model = libevent_model" "ec_self eager_model = 5" "ec_fuel eager_model = 10"
    by (simp_all add: eager_model_def echo_model_def)
  show "takes_all (ec_kernel eager_model)" by (simp add: takes_all_def eager_model_def peer_kernel_def)
  show "eager (ec_kernel eager_model) (\<lambda>fd w. p_in w fd)"
    by (simp add: eager_def eager_model_def peer_kernel_def isReadRetryable_def Let_def)
  have "posix_read (ec_kernel eager_model) (\<lambda>fd w. p_in w fd)"
    unfolding posix_read_def
  proof (intro allI impI)
    fix fd n and w w' :: peers and r bs
    assume "k_read (ec_kernel eager_model) fd n w = (r, bs, w')"
    moreover have "int (min (unat n) (length (p_in w fd))) \<le> int (unat n)" by (intro of_nat_mono) simp
    then have "int (min (unat n) (length (p_in w fd))) \<le> uint n" by (simp only: uint_nat)
    moreover have "(- 1 :: int) \<le> uint n" by (rule order_trans [OF _ uint_ge_0]) simp
    ultimately show "r \<le> int (unat n) \<and> length bs = nat r \<and> p_in w fd = bs @ p_in w' fd"
      by (auto simp: eager_model_def Let_def simp del: of_nat_min)
  qed
  then have "posix_socket (ec_kernel eager_model) peer_view"
    using peer_kernel_ok(1) [of False]
    by (simp add: posix_socket_def posix_write_def posix_fds_def eager_model_def Let_def peer_view_def)
  then show "echo_host eager_model peer_view"
    using echo_model_ok(1) [of False] by (simp add: echo_host_def eager_model_def echo_model_def)
qed

theorem echo_burst_witness:
  "\<exists>s s1 s2. startRead (conn_env eager_model) (Some 3) (Connection_new base_model 4
      (peer_with (replicate 4096 (CHR ''a'') @ replicate 4096 (CHR ''b'') @ replicate 808 (CHR ''c''))) (1, 2, 3)) = Inr s \<and>
    conn_deliver eager_model READ s = Inr s1 \<and> p_in (fst (os s1)) 4 = [] \<and> conn_deliver eager_model WRITE s1 = Inr s2 \<and>
    p_out (fst (os s2)) 4 = map Some (replicate 4096 (CHR ''a'') @ replicate 808 (CHR ''c'')) \<and>
    the_watched (conn_env eager_model) s2 = NONE"
proof -
  let ?u = "replicate 4096 (CHR ''a'') @ replicate 4096 (CHR ''b'') @ replicate 808 (CHR ''c'')"
  have "reg_inv (ec_le eager_model) base_model" "inLoopThread (ec_self eager_model) base_model"
    using echo_base_ok eager_model_ok(4,5) by simp_all
  from conn_started [OF eager_model_ok(1) this(1) echo_base_ok(2) this(2), of 4 3 "peer_with ?u" 2] obtain s where
    s: "startRead (conn_env eager_model) (Some 3) (Connection_new base_model 4 (peer_with ?u) (1, 2, 3)) = Inr s"
    "conn_in eager_model Idle s []" "the_fd s = 4" "fst (os s) = peer_with ?u" by auto
  have u: "unread peer_view (the_fd s) (fst (os s)) = ?u" "written peer_view (the_fd s) (fst (os s)) = []"
    using s(3,4) by (simp_all add: peer_with_def)
  have e: "eager (ec_kernel eager_model) (unread peer_view)" using eager_model_ok(2) by simp
  have n: "?u \<noteq> []" "length ?u div 4096 < ec_fuel eager_model" "\<not> length ?u \<le> 4096"
    using eager_model_ok(6) by simp_all
  have a: "answer ?u = replicate 4096 (CHR ''a'') @ replicate 808 (CHR ''c'')" by (simp add: answer_def)
  from echo_burst [OF eager_model_ok(1) e eager_model_ok(3) s(2) u(1) n(1,2)] u(2) s(1,3) n(3) show ?thesis
    unfolding a by (simp del: map_append map_replicate) blast
qed

end
