(* ===== verification/Aligned_Memory.thy ===== *)
theory Aligned_Memory
  imports WTE_Prelude
begin

text \<open>
  Cache-line aligned objects, \<open>src/src/cache_aligned.h\<close>, in its POSIX version: the wrapper type and
  its size, allocation, construction and release, and what they are for, that no two objects share a
  cache line. \<open>posix_memalign\<close> and \<open>free\<close> are parameters. The state pairs the memory with the objects
  there are: their address, the size of their type and their value; \<open>sizeof(T)\<close> and the outcome of
  \<open>T\<close>'s constructor are arguments.
\<close>

subsection \<open>Allocation\<close>

definition CACHE_LINE_SIZE :: nat where
  "CACHE_LINE_SIZE = 64"

record 'm memory =
  posix_memalign :: "nat \<Rightarrow> nat \<Rightarrow> 'm \<Rightarrow> int \<times> nat \<times> 'm"
  mem_free :: "nat \<Rightarrow> 'm \<Rightarrow> 'm"

definition allocateAligned :: "'m memory \<Rightarrow> nat \<Rightarrow> nat \<Rightarrow> 'm \<Rightarrow> (fault + nat) \<times> 'm" where
  "allocateAligned M n alignment m =
     (let (rc, p, m) = posix_memalign M alignment n m
      in if rc \<noteq> 0 then (Inl Bad_Alloc, m) else if p = 0 then (Inl Bad_Alloc, m) else (Inr p, m))"

definition deallocateAligned :: "'m memory \<Rightarrow> nat \<Rightarrow> 'm \<Rightarrow> 'm" where
  "deallocateAligned M p m = mem_free M p m"

definition operator_new :: "'m memory \<Rightarrow> nat \<Rightarrow> 'm \<Rightarrow> (fault + nat) \<times> 'm" where
  "operator_new M n m = allocateAligned M n CACHE_LINE_SIZE m"

definition operator_delete :: "'m memory \<Rightarrow> nat \<Rightarrow> 'm \<Rightarrow> 'm" where
  "operator_delete M p m = deallocateAligned M p m"

subsection \<open>Objects\<close>

text \<open>
  The array that follows the data, and the size of the whole, which the alignment of the type
  rounds up to a multiple of a line.
\<close>

definition pad_size :: "nat \<Rightarrow> nat" where
  "pad_size sizeT = (if CACHE_LINE_SIZE > sizeT then CACHE_LINE_SIZE - sizeT else 1)"

definition round_up :: "nat \<Rightarrow> nat \<Rightarrow> nat" where
  "round_up n a = (n + (a - 1)) div a * a"

definition sizeof_CacheAligned :: "nat \<Rightarrow> nat" where
  "sizeof_CacheAligned sizeT = round_up (sizeT + pad_size sizeT) CACHE_LINE_SIZE"

record ('m, 'a) store =
  mem :: 'm
  objects :: "nat \<rightharpoonup> nat \<times> 'a"

text \<open>\<open>new CacheAligned<T>(u...)\<close>: when the constructor throws, the memory is given back.\<close>

definition mkAligned ::
  "'m memory \<Rightarrow> nat \<Rightarrow> fault + 'a \<Rightarrow> ('m, 'a) store \<Rightarrow> (fault + nat) \<times> ('m, 'a) store" where
  "mkAligned M sizeT init s =
     (case operator_new M (sizeof_CacheAligned sizeT) (mem s) of
        (Inl e, m) \<Rightarrow> (Inl e, s\<lparr>mem := m\<rparr>)
      | (Inr p, m) \<Rightarrow> (case init of
          Inl e \<Rightarrow> (Inl e, s\<lparr>mem := operator_delete M p m\<rparr>)
        | Inr x \<Rightarrow> (Inr p, s\<lparr>mem := m, objects := (objects s)(p \<mapsto> (sizeT, x))\<rparr>)))"

text \<open>\<open>delete\<close> of a null pointer does nothing.\<close>

definition freeAligned :: "'m memory \<Rightarrow> nat \<Rightarrow> ('m, 'a) store \<Rightarrow> fault + ('m, 'a) store" where
  "freeAligned M p s =
     (if p = 0 then Inr s
      else case objects s p of
        None \<Rightarrow> Inl Use_After_Free
      | Some _ \<Rightarrow> Inr (s\<lparr>mem := operator_delete M p (mem s), objects := (objects s)(p := None)\<rparr>))"

subsection \<open>Facts about sizes\<close>

lemma round_up_ge: "0 < a \<Longrightarrow> n \<le> round_up n a"
  unfolding round_up_def using div_mult_mod_eq [of "n + (a - 1)" a] mod_less_divisor [of a "n + (a - 1)"] by linarith

lemma sizeof_CacheAligned_facts:
  "64 dvd sizeof_CacheAligned k" "k < sizeof_CacheAligned k" "k < 64 \<Longrightarrow> sizeof_CacheAligned k = 64"
proof -
  show "64 dvd sizeof_CacheAligned k" by (simp add: sizeof_CacheAligned_def round_up_def CACHE_LINE_SIZE_def)
  have "k < k + pad_size k" by (simp add: pad_size_def)
  also have "\<dots> \<le> sizeof_CacheAligned k"
    unfolding sizeof_CacheAligned_def by (rule round_up_ge) (simp add: CACHE_LINE_SIZE_def)
  finally show "k < sizeof_CacheAligned k" .
  show "k < 64 \<Longrightarrow> sizeof_CacheAligned k = 64"
    by (simp add: sizeof_CacheAligned_def pad_size_def round_up_def CACHE_LINE_SIZE_def)
qed

subsection \<open>What the C library promises\<close>

text \<open>
  \<open>blocks\<close> are the allocated blocks, by address. \<open>posix_memalign\<close> with a power of two from the size of
  a pointer on either allocates nothing, with an error or a null pointer, or a new block, aligned and
  apart from all others; \<open>free\<close> removes a block.
\<close>

definition bytes_of :: "nat \<Rightarrow> nat \<Rightarrow> nat set" where
  "bytes_of p n = {p ..< p + n}"

definition posix_memory :: "'m memory \<Rightarrow> ('m \<Rightarrow> nat \<rightharpoonup> nat) \<Rightarrow> bool" where
  "posix_memory M blocks \<longleftrightarrow>
     (\<forall>i n m rc p m'. 3 \<le> i \<longrightarrow> posix_memalign M (2 ^ i) n m = (rc, p, m') \<longrightarrow>
        ((rc \<noteq> 0 \<or> p = 0) \<and> blocks m' = blocks m) \<or>
        (rc = 0 \<and> p \<noteq> 0 \<and> 2 ^ i dvd p \<and> blocks m p = None \<and> blocks m' = (blocks m)(p \<mapsto> n) \<and>
          (\<forall>q k. blocks m q = Some k \<longrightarrow> bytes_of p n \<inter> bytes_of q k = {}))) \<and>
     (\<forall>p m. blocks m p \<noteq> None \<longrightarrow> blocks (mem_free M p m) = (blocks m)(p := None))"

lemma allocate_cases:
  assumes "posix_memory M blocks" "operator_new M n m = (r, m')"
  shows "(r = Inl Bad_Alloc \<and> blocks m' = blocks m) \<or>
    (\<exists>p. r = Inr p \<and> p \<noteq> 0 \<and> 64 dvd p \<and> blocks m p = None \<and> blocks m' = (blocks m)(p \<mapsto> n) \<and>
       (\<forall>q k. blocks m q = Some k \<longrightarrow> bytes_of p n \<inter> bytes_of q k = {}))"
proof -
  obtain rc p m1 where k: "posix_memalign M (2 ^ 6) n m = (rc, p, m1)" by (metis prod.exhaust)
  have "((rc \<noteq> 0 \<or> p = 0) \<and> blocks m1 = blocks m) \<or>
      (rc = 0 \<and> p \<noteq> 0 \<and> 2 ^ 6 dvd p \<and> blocks m p = None \<and> blocks m1 = (blocks m)(p \<mapsto> n) \<and>
        (\<forall>q k. blocks m q = Some k \<longrightarrow> bytes_of p n \<inter> bytes_of q k = {}))"
    using conjunct1 [OF assms(1) [unfolded posix_memory_def], rule_format, OF _ k] by simp
  with assms(2) k show ?thesis
    by (auto simp: operator_new_def allocateAligned_def CACHE_LINE_SIZE_def split: if_splits)
qed


text \<open>Each object has a block of its own, of the size of its wrapper, and the blocks are apart.\<close>

definition store_inv :: "('m \<Rightarrow> nat \<rightharpoonup> nat) \<Rightarrow> ('m, 'a) store \<Rightarrow> bool" where
  "store_inv blocks s \<longleftrightarrow>
     (\<forall>p k x. objects s p = Some (k, x) \<longrightarrow> p \<noteq> 0 \<and> 64 dvd p \<and> blocks (mem s) p = Some (sizeof_CacheAligned k)) \<and>
     (\<forall>p q k x l y. objects s p = Some (k, x) \<longrightarrow> objects s q = Some (l, y) \<longrightarrow> p \<noteq> q \<longrightarrow>
        bytes_of p (sizeof_CacheAligned k) \<inter> bytes_of q (sizeof_CacheAligned l) = {})"

lemma store_invD:
  assumes "store_inv blocks s" "objects s p = Some (k, x)"
  shows "p \<noteq> 0" "64 dvd p" "blocks (mem s) p = Some (sizeof_CacheAligned k)"
    "objects s q = Some (l, y) \<Longrightarrow> p \<noteq> q \<Longrightarrow> bytes_of p (sizeof_CacheAligned k) \<inter> bytes_of q (sizeof_CacheAligned l) = {}"
  using assms unfolding store_inv_def by blast+

lemma store_inv_mem: "blocks m = blocks (mem s) \<Longrightarrow> store_inv blocks (s\<lparr>mem := m\<rparr>) = store_inv blocks s"
  by (simp add: store_inv_def)

text \<open>Making an object: no memory, an exception of the constructor, or a new object.\<close>

lemma mkAligned_cases:
  assumes M: "posix_memory M blocks" and inv: "store_inv blocks s"
  shows "(\<exists>e m. mkAligned M k init s = (Inl e, s\<lparr>mem := m\<rparr>) \<and> blocks m = blocks (mem s) \<and> (e = Bad_Alloc \<or> init = Inl e)) \<or>
    (\<exists>p x m. mkAligned M k init s = (Inr p, s\<lparr>mem := m, objects := (objects s)(p \<mapsto> (k, x))\<rparr>) \<and> init = Inr x \<and>
       p \<noteq> 0 \<and> objects s p = None \<and> blocks (mem s) p = None \<and> blocks m = (blocks (mem s))(p \<mapsto> sizeof_CacheAligned k) \<and>
       store_inv blocks (s\<lparr>mem := m, objects := (objects s)(p \<mapsto> (k, x))\<rparr>))"
proof -
  obtain r m where a: "operator_new M (sizeof_CacheAligned k) (mem s) = (r, m)" by force
  from allocate_cases [OF M a] consider "r = Inl Bad_Alloc" "blocks m = blocks (mem s)"
    | p where "r = Inr p" "p \<noteq> 0" "64 dvd p" "blocks (mem s) p = None" "blocks m = (blocks (mem s))(p \<mapsto> sizeof_CacheAligned k)"
      "\<And>q l. blocks (mem s) q = Some l \<Longrightarrow> bytes_of p (sizeof_CacheAligned k) \<inter> bytes_of q l = {}" by blast
  then show ?thesis
  proof cases
    case 1
    then show ?thesis using a by (auto simp: mkAligned_def)
  next
    case 2
    have new: "objects s p = None" using store_invD(3) [OF inv] 2(4) by (cases "objects s p") fastforce+
    show ?thesis
    proof (cases init)
      case (Inl e)
      have "blocks (mem_free M p m) = blocks (mem s)" using M 2(4,5) by (auto simp: posix_memory_def fun_eq_iff)
      then show ?thesis using a 2(1) Inl
        by (intro disjI1 exI [of _ e] exI [of _ "mem_free M p m"]) (simp add: mkAligned_def operator_delete_def deallocateAligned_def)
    next
      case (Inr x)
      let ?s = "s\<lparr>mem := m, objects := (objects s)(p \<mapsto> (k, x))\<rparr>"
      have apart: "bytes_of p (sizeof_CacheAligned k) \<inter> bytes_of q (sizeof_CacheAligned l) = {}" if "objects s q = Some (l, y)" for q l y
        using 2(6) store_invD(3) [OF inv that] by blast
      have "store_inv blocks ?s"
        unfolding store_inv_def
      proof (intro conjI allI impI)
        fix q l y assume q: "objects ?s q = Some (l, y)"
        show "q \<noteq> 0" "64 dvd q" "blocks (mem ?s) q = Some (sizeof_CacheAligned l)"
          using q 2 store_invD(1-3) [OF inv] by (auto split: if_splits)
        show "bytes_of q (sizeof_CacheAligned l) \<inter> bytes_of q' (sizeof_CacheAligned l') = {}"
          if q': "objects ?s q' = Some (l', y')" "q \<noteq> q'" for q' l' y'
          using q q' apart store_invD(4) [OF inv] by (cases "q = p"; cases "q' = p") (auto simp: Int_commute)
      qed
      with a 2 new Inr show ?thesis
        by (intro disjI2 exI [of _ p] exI [of _ x] exI [of _ m]) (simp add: mkAligned_def)
    qed
  qed
qed

lemma freeAligned_ok:
  assumes M: "posix_memory M blocks" and inv: "store_inv blocks s" and p: "objects s p = Some (k, x)"
  shows "\<exists>m. freeAligned M p s = Inr (s\<lparr>mem := m, objects := (objects s)(p := None)\<rparr>) \<and> blocks m = (blocks (mem s))(p := None) \<and>
    store_inv blocks (s\<lparr>mem := m, objects := (objects s)(p := None)\<rparr>)"
proof -
  have "blocks (mem_free M p (mem s)) = (blocks (mem s))(p := None)"
    using M store_invD(3) [OF inv p] by (simp add: posix_memory_def)
  moreover from this have "store_inv blocks (s\<lparr>mem := mem_free M p (mem s), objects := (objects s)(p := None)\<rparr>)"
    using inv by (simp add: store_inv_def)
  ultimately show ?thesis using store_invD(1) [OF inv p] p
    by (intro exI [of _ "mem_free M p (mem s)"]) (simp add: freeAligned_def operator_delete_def deallocateAligned_def)
qed

subsection \<open>Runs\<close>

text \<open>A program makes objects of various types, whose constructors may throw, and frees objects there are.\<close>

datatype 'a aligned_op = Make nat "fault + 'a" | Free nat

fun aligned_step :: "'m memory \<Rightarrow> 'a aligned_op \<Rightarrow> ('m, 'a) store \<Rightarrow> fault + ('m, 'a) store" where
  "aligned_step M (Make k init) s = Inr (snd (mkAligned M k init s))"
| "aligned_step M (Free p) s = (if objects s p = None then Inr s else freeAligned M p s)"

interpretation aligned: event_driven "aligned_step M" "\<lambda>_. True" "\<lambda>s. posix_memory M blocks \<and> store_inv blocks s" "\<lambda>_ _. True"
  for M blocks
proof (unfold_locales, goal_cases)
  case (1 s e)
  then show ?case
  proof (cases e)
    case (Make k init)
    with mkAligned_cases [of M blocks s k init] 1 show ?thesis by (auto simp: store_inv_mem)
  next
    case (Free p)
    then show ?thesis using freeAligned_ok [of M blocks s p] 1 by (cases "objects s p") auto
  qed
qed simp_all

text \<open>The cache lines that an object of \<open>k\<close> bytes at \<open>p\<close> has a byte in.\<close>

definition lines_of :: "nat \<Rightarrow> nat \<Rightarrow> nat set" where
  "lines_of p k = (\<lambda>b. b div CACHE_LINE_SIZE) ` bytes_of p k"

lemma line_private:
  assumes p: "64 dvd p" and q: "64 dvd q" and n: "64 dvd n" and m: "64 dvd m" and apart: "bytes_of p n \<inter> bytes_of q m = {}"
    and k: "k \<le> n" "l \<le> m"
  shows "lines_of p k \<inter> lines_of q l = {}"
proof (rule ccontr)
  assume "lines_of p k \<inter> lines_of q l \<noteq> {}"
  then obtain a b where "a \<in> bytes_of p k" "b \<in> bytes_of q l" and d: "a div 64 = b div 64"
    unfolding lines_of_def CACHE_LINE_SIZE_def by blast
  then have ab: "p \<le> a" "a < p + n" "q \<le> b" "b < q + m" using k by (simp_all add: bytes_of_def)
  obtain p' q' n' m' where eq: "p = 64 * p'" "q = 64 * q'" "n = 64 * n'" "m = 64 * m'" using p q n m by (auto elim!: dvdE)
  have "a div 64 * 64 \<in> bytes_of p n" "a div 64 * 64 \<in> bytes_of q m"
    using ab d unfolding eq bytes_of_def by auto
  then show False using apart by blast
qed

subsection \<open>Properties\<close>

text \<open>C22: No two objects share a cache line. Whatever objects a program makes with \<open>mkAligned\<close>, of
  whatever types and with constructors that may throw, and whichever it frees with \<open>freeAligned\<close>,
  it meets no fault, and the objects there are at the end start at a multiple of the line size and
  lie in different cache lines.\<close>

theorem aligned_lines_private:
  assumes "posix_memory M blocks"
  shows "\<exists>s. run_events (aligned_step M) ops \<lparr>mem = m, objects = Map.empty\<rparr> = Inr s \<and>
    (\<forall>p k x q l y. objects s p = Some (k, x) \<longrightarrow> objects s q = Some (l, y) \<longrightarrow> p \<noteq> q \<longrightarrow>
      CACHE_LINE_SIZE dvd p \<and> lines_of p k \<inter> lines_of q l = {})"
proof -
  have "store_inv blocks \<lparr>mem = m, objects = Map.empty\<rparr>" by (simp add: store_inv_def)
  with aligned.run [of M blocks _ ops] assms obtain s where
    s: "run_events (aligned_step M) ops \<lparr>mem = m, objects = Map.empty\<rparr> = Inr s" "store_inv blocks s" by auto
  have "CACHE_LINE_SIZE dvd p \<and> lines_of p k \<inter> lines_of q l = {}"
    if o: "objects s p = Some (k, x)" "objects s q = Some (l, y)" "p \<noteq> q" for p q k l x y
    using line_private [OF store_invD(2) [OF s(2) o(1)] store_invD(2) [OF s(2) o(2)] sizeof_CacheAligned_facts(1,1)
      store_invD(4) [OF s(2) o]] sizeof_CacheAligned_facts(2) [of k] sizeof_CacheAligned_facts(2) [of l]
      store_invD(2) [OF s(2) o(1)] by (simp add: CACHE_LINE_SIZE_def)
  with s(1) show ?thesis by blast
qed

text \<open>An allocator: a list of blocks; a new one lies above all the others.\<close>

definition list_memory :: "(nat \<times> nat) list memory" where
  "list_memory = \<lparr>posix_memalign = (\<lambda>a n m. let p = a * (1 + sum_list (map (\<lambda>(q, k). q + k) m)) in (0, p, (p, n) # m)),
     mem_free = (\<lambda>p m. filter (\<lambda>(q, k). q \<noteq> p) m)\<rparr>"

lemma sum_above: "(q, k) \<in> set m \<Longrightarrow> q + k \<le> sum_list (map (\<lambda>(q, k). q + k) m)" for q k :: nat
  by (induction m) auto

lemma list_memory_ok: "posix_memory list_memory map_of"
  unfolding posix_memory_def
proof (intro conjI allI impI)
  fix i n and m :: "(nat \<times> nat) list" and rc p m'
  assume a: "posix_memalign list_memory (2 ^ i) n m = (rc, p, m')"
  let ?sum = "sum_list (map (\<lambda>(q, k). q + k) m)"
  have p: "rc = 0" "p = 2 ^ i * (1 + ?sum)" "m' = (p, n) # m" using a by (auto simp: list_memory_def Let_def)
  have above: "q + k < p" if "map_of m q = Some k" for q k
  proof -
    have "q + k \<le> ?sum" using sum_above [OF map_of_SomeD [OF that]] .
    also have "\<dots> < 2 ^ i * (1 + ?sum)"
      by (rule less_le_trans [OF _ mult_le_mono1 [of 1]]) simp_all
    finally show ?thesis by (simp add: p(2))
  qed
  have "map_of m p = None" using above [of p] by (cases "map_of m p") force+
  then show "((rc \<noteq> 0 \<or> p = 0) \<and> map_of m' = map_of m) \<or>
      (rc = 0 \<and> p \<noteq> 0 \<and> 2 ^ i dvd p \<and> map_of m p = None \<and> map_of m' = (map_of m)(p \<mapsto> n) \<and>
        (\<forall>q k. map_of m q = Some k \<longrightarrow> bytes_of p n \<inter> bytes_of q k = {}))"
    using p above by (fastforce simp: bytes_of_def)
next
  fix p and m :: "(nat \<times> nat) list"
  show "map_of (mem_free list_memory p m) = (map_of m)(p := None)"
    by (induction m) (auto simp: list_memory_def fun_eq_iff)
qed

theorem aligned_lines_private_witness:
  "\<exists>s. run_events (aligned_step list_memory) [Make 16 (Inr CHR ''a''), Make 8 (Inl Bad_Alloc), Make 200 (Inr CHR ''b'')]
      \<lparr>mem = [], objects = Map.empty\<rparr> = Inr s \<and> objects s 64 = Some (16, CHR ''a'') \<and> objects s 8256 = Some (200, CHR ''b'') \<and>
    lines_of 64 16 \<inter> lines_of 8256 200 = {}"
proof -
  let ?ops = "[Make 16 (Inr CHR ''a''), Make 8 (Inl Bad_Alloc), Make 200 (Inr CHR ''b'')]"
  obtain s where s: "run_events (aligned_step list_memory) ?ops \<lparr>mem = [], objects = Map.empty\<rparr> = Inr s"
    "\<And>p k x q l y. objects s p = Some (k, x) \<Longrightarrow> objects s q = Some (l, y) \<Longrightarrow> p \<noteq> q \<Longrightarrow> lines_of p k \<inter> lines_of q l = {}"
    using aligned_lines_private [OF list_memory_ok, of ?ops "[]"] by blast
  have "objects s 64 = Some (16, CHR ''a'')" "objects s 8256 = Some (200, CHR ''b'')"
    using s(1) by (auto simp: mkAligned_def operator_new_def operator_delete_def deallocateAligned_def allocateAligned_def
      list_memory_def Let_def CACHE_LINE_SIZE_def sizeof_CacheAligned_def pad_size_def round_up_def)
  with s show ?thesis by (simp del: run_events.simps)
qed


text \<open>C38: Making an object and freeing it. \<open>mkAligned\<close> throws for lack of memory
  or because the constructor does, and then nothing stays allocated; or the object is there, and
  \<open>freeAligned\<close> of its pointer gives exactly its block back, after which another
  \<open>freeAligned\<close> would be a use after free.\<close>

theorem aligned_make_free:
  assumes "posix_memory M blocks" and "store_inv blocks s" and "mkAligned M k init s = (r, s1)"
  shows "case r of
      Inl e \<Rightarrow> (e = Bad_Alloc \<or> init = Inl e) \<and> objects s1 = objects s \<and> blocks (mem s1) = blocks (mem s)
    | Inr p \<Rightarrow> objects s p = None \<and> objects s1 p = map_option (Pair k) (case init of Inl e \<Rightarrow> None | Inr x \<Rightarrow> Some x) \<and>
        (\<exists>s2. freeAligned M p s1 = Inr s2 \<and> objects s2 = objects s \<and> blocks (mem s2) = blocks (mem s) \<and>
          freeAligned M p s2 = Inl Use_After_Free)"
proof -
  from mkAligned_cases [OF assms(1,2), of k init] assms(3) consider
      e m where "r = Inl e" "s1 = s\<lparr>mem := m\<rparr>" "blocks m = blocks (mem s)" "e = Bad_Alloc \<or> init = Inl e"
    | p x m where "r = Inr p" "s1 = s\<lparr>mem := m, objects := (objects s)(p \<mapsto> (k, x))\<rparr>" "init = Inr x" "p \<noteq> 0"
      "objects s p = None" "blocks (mem s) p = None" "blocks m = (blocks (mem s))(p \<mapsto> sizeof_CacheAligned k)" "store_inv blocks s1"
    by auto
  then show ?thesis
  proof cases
    case 2
    have o: "objects s1 p = Some (k, x)" using 2(2) by simp
    obtain m2 where m2: "freeAligned M p s1 = Inr (s1\<lparr>mem := m2, objects := (objects s1)(p := None)\<rparr>)"
      "blocks m2 = (blocks (mem s1))(p := None)" using freeAligned_ok [OF assms(1) 2(8) o] by blast
    have "(objects s1)(p := None) = objects s" "blocks m2 = blocks (mem s)"
      using 2(2,5,6,7) m2(2) by (auto simp: fun_eq_iff)
    then show ?thesis using 2(1,3,4,5) o m2(1) by (simp add: freeAligned_def)
  qed simp
qed

theorem aligned_make_free_witness:
  "\<exists>r s1. mkAligned list_memory 16 (Inr CHR ''a'') \<lparr>mem = [], objects = Map.empty\<rparr> = (r, s1) \<and> r = Inr 64 \<and>
    (\<exists>s2. freeAligned list_memory 64 s1 = Inr s2 \<and> map_of (mem s2) = Map.empty)"
proof -
  obtain s1 where s1: "mkAligned list_memory 16 (Inr CHR ''a'') \<lparr>mem = [], objects = Map.empty\<rparr> = (Inr 64, s1)"
    by (simp add: mkAligned_def operator_new_def allocateAligned_def list_memory_def Let_def CACHE_LINE_SIZE_def
      sizeof_CacheAligned_def pad_size_def round_up_def)
  have "store_inv map_of \<lparr>mem = [], objects = Map.empty\<rparr>" by (simp add: store_inv_def)
  from aligned_make_free [OF list_memory_ok this s1] s1 show ?thesis by auto
qed

end
