(* ===== verification/Spec2Isabelle.thy ===== *)
theory Spec2Isabelle
  imports Buffer_Types Extent_List Op_Queue Event_Registry Stream_Write Stream_Read Loop_Properties
    Connection_Listener Optional_Value Blocking_Read Echo_Loop Echo_Burst Aligned_Memory
begin

text \<open>
  A model of the event library \<open>what-the-event\<close>: byte buffers, a multi-producer queue, an event base
  over libevent, asynchronous streams, connection listeners, a blocking stream, and the echo server built on them.

  \<^bold>\<open>The program.\<close> An \<open>EventBase\<close> (\<open>src/src/libevent_event_base.cc\<close>) runs a loop over libevent. Handlers
  and timeouts are registered on it by the loop thread; other threads hand it closures through a
  lock-free queue (\<open>src/src/mpsc_queue.h\<close>) and wake it through a pipe. A \<open>Stream\<close>
  (\<open>src/src/stream.cc\<close>) and a \<open>ConnectionListener\<close> (\<open>src/src/libevent_connection_listener.cc\<close>) own a
  handler each, and move bytes between a descriptor and \<open>Buffer\<close>s (\<open>src/src/buffer.cc\<close>). A
  \<open>BlockingStream\<close> (\<open>src/src/blocking_stream.cc\<close>) owns a base and a stream, and turns the loop itself.
  The echo server (\<open>src/example/echo-server.cc\<close>) runs a listener and its connections' streams on one
  base.

  \<^bold>\<open>Theories.\<close> Each component has a theory with its data and operations, and one or more with its
  lemmas and properties.

    \<^item> \<open>WTE_Prelude\<close>: \<open>fault\<close>, the outcomes that are not values (failed assertions, exceptions, accesses
      outside an allocation or to freed memory, fuel), sequencing \<open>bindE\<close>, sizes as 64-bit words,
      the two collections of simplification rules that the components use, and the locale
      \<open>event_driven\<close> of components that keep an invariant over any sequence of events.
    \<^item> \<open>Buffer_Model\<close>: \<open>buffer.cc\<close> and \<open>buffer-internal.h\<close>, every operation of \<open>BufferImpl\<close> on a list of
      extents with their memory. \<open>Buffer_Correct\<close>: the invariant \<open>buf_inv\<close> and the abstraction
      \<open>contents\<close>, and what each operation does to them. \<open>Byte_Queue\<close>: the interface of a byte queue as
      a locale, the buffer as its instance, and the properties. \<open>Buffer_Types\<close>: a weaker
      invariant that every call keeps, with any arguments. \<open>Extent_List\<close>: the circular doubly
      linked list under the extents, as pointer assignments on a heap, refined to lists.
    \<^item> \<open>Mpsc_Queue\<close>: \<open>push\<close> and \<open>pop\<close>, one step per access to shared memory, and the step relation
      \<open>sys_step\<close> of any number of producers and the loop thread, whose stores go through store buffers;
      a failed allocation and a failed notification are steps of it. \<open>Mpsc_Correct\<close>: the inductive
      invariant of the reachable states. \<open>Op_Queue\<close>: the queue as a locale, its interpretation, and
      the properties of all interleavings.
    \<^item> \<open>What_Flags\<close>: \<open>what.h\<close> and the conversion to and from the flags of libevent.
      \<open>Event_Handling\<close>: \<open>event_handler.cc\<close>, \<open>timeout.cc\<close>, \<open>libevent_event_handler.*\<close> and the
      registration operations of the base. \<open>Event_Registry\<close>: the invariant that connects the flags of
      the program with what is pending in libevent, the registry as a locale with two
      interpretations (one for each strength of the invariant), and the properties.
    \<^item> \<open>Event_Loop\<close>: \<open>loop\<close>, \<open>stop\<close>, \<open>runOnEventLoop\<close>, \<open>runOnEventLoopAndWait\<close>, the notifications,
      construction and destruction of the base. \<open>Loop_Correct\<close>: the queue of closures as a
      breadth-first traversal of what they spawn. \<open>Loop_Properties\<close>: the properties.
    \<^item> \<open>Sys_Kernel\<close>: the system calls, parameters, and the wrappers of \<open>xplat-io.cc\<close>. \<open>Stream_Model\<close>:
      \<open>stream.cc\<close>. \<open>Stream_Correct\<close>, \<open>Stream_Queue\<close>: the invariant \<open>stream_ok\<close>, one turn of the write
      loop, the whole loop, and a scripted kernel for witnesses. \<open>Stream_Close\<close>: closing and
      destroying. \<open>Stream_Frame\<close>: an operation of a stream changes nothing of the base but its own
      handler. \<open>Stream_Write\<close>, \<open>Stream_Read\<close>: the properties.
    \<^item> \<open>Connection_Listener\<close>: \<open>libevent_connection_listener.*\<close> and its properties.
    \<^item> \<open>Optional_Value\<close>: \<open>optional.h\<close>, with a log of the constructors and destructors it calls.
    \<^item> \<open>Blocking_Stream\<close>: \<open>blocking_stream.cc\<close>, as the composition of \<open>Event_Loop\<close> and
      \<open>Stream_Model\<close>: the world of the base is the stream, and the handler that the base dispatches to
      is that of the stream. \<open>Blocking_Correct\<close>: a turn of the loop as an event of the stream.
      \<open>Blocking_Properties\<close>: the properties of \<open>write\<close>. \<open>Blocking_Read\<close>: what the read callback does
      with each chunk, and the properties of \<open>read\<close>.
    \<^item> \<open>Echo_Server\<close>: \<open>echo-server.cc\<close>, the callbacks of a connection, the callbacks of the listener,
      and \<open>main\<close>, as the composition of \<open>Stream_Model\<close>, \<open>Connection_Listener\<close> and \<open>Event_Loop\<close>.
      \<open>Echo_Correct\<close>: the phases of a connection and what an event does in each. \<open>Echo_Properties\<close>:
      what one connection does under any events. \<open>Echo_Composition\<close>: the invariant of the server, and
      that an event of one connection does not reach the others. \<open>Echo_Service\<close>: the properties of the
      server. \<open>Echo_Loop\<close>: the server in its event loop. \<open>Echo_Burst\<close>: input of more than one chunk.
    \<^item> \<open>Aligned_Memory\<close>: \<open>cache_aligned.h\<close>, the allocation of objects on cache lines of their own.

  \<^bold>\<open>State.\<close> Objects are records with the fields of the classes. Where pointers matter there is a heap:
  nodes of the queue, write requests of a stream, nodes of the list of extents, handlers and timeouts
  of a base, the stack frames that closures and callbacks refer to. An access to an address that is
  not in the heap is the fault \<open>Use_After_Free\<close>, so that the theorems that an operation gives \<open>Inr\<close> are
  theorems of memory safety. Sizes are words and wrap as in the code; memory is a list of optional
  bytes, where \<open>None\<close> is a byte that has not been written.

  \<^bold>\<open>What is proved.\<close> The queue runs its operations in the order of the exchanges, none twice, without
  accesses to freed nodes and without freeing one twice, in all interleavings and however late stores
  become visible; its sequential use refines a list. No wake-up is lost while the notifications succeed and
  no load overtakes the store that the protocol relies on; with the memory orders of the code one can
  be (\<open>mpsc_wakeup_can_be_lost\<close>). The registration operations refine a map from handlers to event
  kinds and keep it in step with libevent. The loop runs the closures in order, with those they queue,
  and ends when another thread stops it. A buffer refines a list of bytes within stated conditions, and
  the theorems about its bounds say what happens outside them. A stream writes what it is given in
  order and completes it once, whatever the kernel takes at each call, and keeps the rest queued;
  reading gives the callback what the calls of \<open>read\<close> gave, one call per chunk, and reports how they
  ended; connecting has the outcome that the socket calls decide. A blocking write delivers all its
  bytes and a blocking read returns the first bytes of the input, through the composed loop and stream.
  The echo server starts or throws, and then, under the conditions on the kernel named below, handles
  every sequence of events without a fault; each connection writes back what it reads, and none
  disturbs another. Some theorems describe situations in which the code does not do what its
  documentation says; their text says so.

  \<^bold>\<open>Parameters and hypotheses.\<close> libevent is the record \<open>libevent\<close> with the laws \<open>libevent_ok\<close> (what
  \<open>event_assign\<close>, \<open>event_add\<close> and \<open>event_del\<close> do to the flags and the status of an event) and
  \<open>event_base_loop\<close> (\<open>event_loop_ok\<close>, \<open>one_handler\<close> and \<open>reports\<close>: it dispatches to handlers and
  returns).
  The kernel is the record \<open>kernel\<close> with the laws \<open>posix_write\<close> (a call takes a prefix of what it is
  offered, or fails), \<open>posix_fds\<close> and the like. Allocation is a predicate on sizes. The code of
  callbacks and closures is a parameter; \<open>inert\<close> callbacks leave the stream alone. The echo server
  is proved for kernels whose \<open>read\<close> does not fill the array it is given (\<open>short_reads\<close>: one chunk for
  each readable event; \<open>echo_burst\<close> is about those that hand over all there is, \<open>eager\<close>) and, where
  events of both directions come together, whose \<open>write\<close> does not fail (\<open>never_fails\<close>;
  \<open>echo_write_error_uses_freed\<close> shows what happens if it does). Both are hypotheses of the theorems
  that need them, not parts of an invariant. Each set of hypotheses is met by a concrete instance in a
  witness.

  \<^bold>\<open>Loops and fuel.\<close> Loops that end by themselves are functions with a termination proof
  (\<open>drain_loop\<close>, \<open>append_loop\<close>, \<open>prepend_loop\<close>, \<open>read_loop\<close>). \<open>write_loop\<close>, \<open>readHelper\<close>, \<open>runOpsInQueue\<close>,
  \<open>loop_turns\<close> and \<open>read_turns\<close> can go on for ever when callbacks or the kernel provide more work, so
  they take the number of turns, and \<open>Out_Of_Fuel\<close> is the outcome when it does not suffice. The
  theorems that give a result give it for every sufficient number: the length of the queue for the
  write loop, the chunks of the unread input for \<open>readHelper\<close>, the cost of the queued closures for the
  operations, one more than the number of bytes for the blocking calls. That a call never returns is
  stated as \<open>Out_Of_Fuel\<close> for every number of turns.

  \<^bold>\<open>Memory orders.\<close> The loads of the queue have acquire order at most and its stores release order. The
  model lets a load overtake an earlier store of its thread (total store order), which is the
  reordering that the wake-up protocol does not survive. In the theories of the event loop each
  operation of the queue is one step.

  \<^bold>\<open>Not modelled.\<close> Memory orders that are weaker than total store order, the Windows branches, export
  macros and pure interface classes, and the tests.
\<close>

end
